(* ===== verification/Prelude.thy ===== *)
theory Prelude
  imports Main "HOL-Library.Word" "HOL-Library.Monad_Syntax" "HOL-Library.Sublist"
begin

text \<open>
  Shared vocabulary of the development: bytes, the slice operations of the Rust standard
  library the code uses (\<open>copy_from_slice\<close> into a subslice, \<open>copy_within\<close> to the front),
  \<open>Result::and\<close>, and a theorem collection the component proofs extend.
\<close>

section \<open>Collections\<close>

named_theorems slice_simps \<open>rewrite rules of the slice operations\<close>

section \<open>Bytes and slices\<close>

type_synonym byte = "8 word"
type_synonym bytes = "byte list"

text \<open>\<open>xs[i..i + ys.len()].copy_from_slice(ys)\<close>, for a range inside \<open>xs\<close>.\<close>

definition splice :: "nat \<Rightarrow> 'a list \<Rightarrow> 'a list \<Rightarrow> 'a list" where
  "splice i ys xs = take i xs @ ys @ drop (i + length ys) xs"

text \<open>\<open>xs[..n].copy_within(p.., 0)\<close>: the prefix of length \<open>n\<close> is shifted down by \<open>p\<close>.\<close>

definition shift_down :: "nat \<Rightarrow> nat \<Rightarrow> 'a list \<Rightarrow> 'a list" where
  "shift_down n p xs = splice 0 (drop p (take n xs)) xs"

lemma length_splice [slice_simps]:
  "i + length ys \<le> length xs \<Longrightarrow> length (splice i ys xs) = length xs"
  by (simp add: splice_def)

lemma take_splice [slice_simps]:
  "i + length ys \<le> length xs \<Longrightarrow> take (i + length ys) (splice i ys xs) = take i xs @ ys"
  by (simp add: splice_def)

lemma drop_splice [slice_simps]:
  assumes "i + length ys \<le> n" and "n \<le> length xs"
  shows "drop n (splice i ys xs) = drop n xs"
proof -
  have "min (length xs) i = i" using assms by simp
  then show ?thesis using assms by (simp add: splice_def)
qed

lemma length_shift_down [slice_simps]:
  "n \<le> length xs \<Longrightarrow> length (shift_down n p xs) = length xs"
  by (simp add: shift_down_def length_splice)

lemma take_shift_down [slice_simps]:
  "p \<le> n \<Longrightarrow> n \<le> length xs \<Longrightarrow> take (n - p) (shift_down n p xs) = drop p (take n xs)"
  using take_splice [of 0 "drop p (take n xs)" xs] by (simp add: shift_down_def)

lemma drop_shift_down [slice_simps]:
  "n \<le> m \<Longrightarrow> m \<le> length xs \<Longrightarrow> drop m (shift_down n p xs) = drop m xs"
  by (simp add: shift_down_def drop_splice)

section \<open>Results\<close>

text \<open>\<open>Result::and\<close>: the second result, unless the first is an error. Both operands are
  evaluated by the caller first, as Rust evaluates the argument.\<close>

fun result_and :: "'e + 'a \<Rightarrow> 'e + 'b \<Rightarrow> 'e + 'b" where
  "result_and (Inl e) _ = Inl e"
| "result_and (Inr _) r = r"

definition is_err :: "'e + 'a \<Rightarrow> bool" where
  "is_err r \<longleftrightarrow> (case r of Inl _ \<Rightarrow> True | Inr _ \<Rightarrow> False)"

lemma is_err_simps [simp]: "is_err (Inl e)" "\<not> is_err (Inr x)"
  by (simp_all add: is_err_def)

lemma result_and_Inr [simp]: "result_and r s = Inr y \<longleftrightarrow> (\<exists>x. r = Inr x) \<and> s = Inr y"
  by (cases r) auto

lemma is_err_and [simp]: "is_err (result_and r s) \<longleftrightarrow> is_err r \<or> is_err s"
  by (cases r) auto

lemma not_Inr_unit [simp]: "r \<noteq> Inr () \<longleftrightarrow> (\<exists>e. r = Inl e)"
  by (cases r) auto

text \<open>A list cut at two positions in order.\<close>

lemma take_drop_between: "i \<le> j \<Longrightarrow> take i xs @ take (j - i) (drop i xs) = take j xs"
  by (metis le_add_diff_inverse take_add)

end
