(* ===== verification/Errors.thy ===== *)
theory Errors
  imports Prelude
begin

text \<open>
  The crate's error type (\<open>src/error.rs\<close>) with its conversions, and the staging constants
  (\<open>src/staging.rs\<close>). Errors of other crates are kept apart only as far as the code looks at
  them: \<open>WouldBlock\<close> of \<open>std::io\<close>, the \<open>rustls\<close> errors the code builds itself, and an opaque
  code for everything else.
\<close>

section \<open>Errors of the libraries\<close>

datatype io_error = WouldBlock | OtherIo nat

datatype tls_error =
    InconsistentKeysUnknown
  | BadEncoding
  | ApplicationVerificationFailure
  | Tls12NotOffered
  | OtherTls nat

datatype alloc_error = AllocExhausted nat | AllocOther nat

datatype bounded_error = BoundedError nat nat

datatype consume_error = ConsumeError nat nat

datatype buffer_kind = ReceiveBuffer | SendBuffer

section \<open>The crate's error\<close>

datatype error =
    Tls tls_error
  | Io io_error
  | Allocation alloc_error
  | StagedErr bounded_error
  | RetainedErr bounded_error
  | BufferUnavailable
  | InvalidBufferProgress
  | Consume buffer_kind consume_error

definition error_from_tls :: "tls_error \<Rightarrow> error" where
  "error_from_tls e = Tls e"

definition error_from_io :: "io_error \<Rightarrow> error" where
  "error_from_io e = Io e"

definition error_from_alloc :: "alloc_error \<Rightarrow> error" where
  "error_from_alloc e = Allocation e"

definition error_from_exhausted :: "nat \<Rightarrow> error" where
  "error_from_exhausted n = Allocation (AllocExhausted n)"

section \<open>Staging constants\<close>

definition MAX_PLAINTEXT :: nat where
  "MAX_PLAINTEXT = 2 ^ 14"

definition MAX_TLS_RECORD :: nat where
  "MAX_TLS_RECORD = 5 + MAX_PLAINTEXT + 256"

definition STAGING_HEADROOM :: nat where
  "STAGING_HEADROOM = 8 * 1024"

definition TLS_STAGING_CAP :: nat where
  "TLS_STAGING_CAP = MAX_TLS_RECORD + STAGING_HEADROOM"

lemma staging_cap_value: "TLS_STAGING_CAP = 24837"
  by (simp add: TLS_STAGING_CAP_def MAX_TLS_RECORD_def STAGING_HEADROOM_def MAX_PLAINTEXT_def)

end
