(* ===== verification/Interfaces.thy ===== *)
theory Interfaces
  imports Errors
begin

text \<open>
  The operations of \<open>rustls\<close>, \<open>o3\<close> and \<open>dope\<close> the code calls, as records of functions that the
  model's definitions take as arguments, and the documented behaviour the code relies on, as
  named predicates over such a record (\<open>cursor_laws\<close>, \<open>pool_laws\<close>, \<open>rustls_out_laws\<close>, ...). A property that
  needs such behaviour has the predicate as a hypothesis. Nothing here translates code.
\<close>

section \<open>The egress pool of o3\<close>

text \<open>
  A cursor \<open>'b\<close> is a pool slot holding ciphertext; its spare room is written through a
  writer \<open>'s\<close> (\<open>write::Spare\<close>), whose progress reaches the cursor at \<open>commit\<close>. A pool \<open>'p\<close> lends
  cursors and takes them back when they are dropped.
\<close>

record ('b, 's, 'p) egress_ops =
  spare :: "'b \<Rightarrow> 's"
  spare_write :: "'s \<Rightarrow> bytes \<Rightarrow> nat \<times> 's"
  spare_remaining :: "'s \<Rightarrow> nat"
  spare_commit :: "'s \<Rightarrow> 'b"
  cursor_bytes :: "'b \<Rightarrow> bytes"
  cursor_is_empty :: "'b \<Rightarrow> bool"
  cursor_spare_len :: "'b \<Rightarrow> nat"
  cursor_consume_max :: "nat \<Rightarrow> 'b \<Rightarrow> 'b"
  pool_view :: "'p \<Rightarrow> ('b \<times> 'p) option"
  pool_available :: "'p \<Rightarrow> nat"
  pool_reclaim :: "'b \<Rightarrow> 'p \<Rightarrow> 'p"

text \<open>A spare writer appends as much of its argument as there is room for.\<close>

definition cursor_laws :: "('b, 's, 'p) egress_ops \<Rightarrow> ('s \<Rightarrow> bytes) \<Rightarrow> bool" where
  "cursor_laws E sb \<longleftrightarrow>
     (\<forall>b. cursor_is_empty E b \<longleftrightarrow> cursor_bytes E b = []) \<and>
     (\<forall>b. sb (spare E b) = cursor_bytes E b) \<and>
     (\<forall>b. spare_remaining E (spare E b) = cursor_spare_len E b) \<and>
     (\<forall>s xs. fst (spare_write E s xs) = min (length xs) (spare_remaining E s)) \<and>
     (\<forall>s xs. sb (snd (spare_write E s xs)) = sb s @ take (spare_remaining E s) xs) \<and>
     (\<forall>s xs. spare_remaining E (snd (spare_write E s xs)) = spare_remaining E s - length xs) \<and>
     (\<forall>s. cursor_bytes E (spare_commit E s) = sb s) \<and>
     (\<forall>s. cursor_spare_len E (spare_commit E s) = spare_remaining E s) \<and>
     (\<forall>n b. cursor_bytes E (cursor_consume_max E n b) = drop n (cursor_bytes E b))"

text \<open>A pool lends an empty cursor exactly when a slot is available, and counts its slots.\<close>

definition pool_laws :: "('b, 's, 'p) egress_ops \<Rightarrow> bool" where
  "pool_laws E \<longleftrightarrow>
     (\<forall>p. pool_view E p = None \<longleftrightarrow> pool_available E p = 0) \<and>
     (\<forall>p b p'. pool_view E p = Some (b, p') \<longrightarrow>
        pool_available E p = Suc (pool_available E p') \<and>
        cursor_bytes E b = [] \<and> 0 < cursor_spare_len E b) \<and>
     (\<forall>b p. pool_available E (pool_reclaim E b p) = Suc (pool_available E p))"

lemma cursor_lawsD:
  assumes "cursor_laws E sb"
  shows "cursor_is_empty E b \<longleftrightarrow> cursor_bytes E b = []"
    and "sb (spare E b) = cursor_bytes E b"
    and "spare_remaining E (spare E b) = cursor_spare_len E b"
    and "fst (spare_write E s xs) = min (length xs) (spare_remaining E s)"
    and "sb (snd (spare_write E s xs)) = sb s @ take (spare_remaining E s) xs"
    and "spare_remaining E (snd (spare_write E s xs)) = spare_remaining E s - length xs"
    and "cursor_bytes E (spare_commit E s) = sb s"
    and "cursor_spare_len E (spare_commit E s) = spare_remaining E s"
    and "cursor_bytes E (cursor_consume_max E n b) = drop n (cursor_bytes E b)"
  using assms by (auto simp: cursor_laws_def)

lemma pool_lawsD:
  assumes "pool_laws E"
  shows "pool_view E p = None \<longleftrightarrow> pool_available E p = 0"
    and "pool_view E p = Some (b, p') \<Longrightarrow> pool_available E p = Suc (pool_available E p')"
    and "pool_view E p = Some (b, p') \<Longrightarrow> cursor_bytes E b = []"
    and "pool_view E p = Some (b, p') \<Longrightarrow> 0 < cursor_spare_len E b"
    and "pool_available E (pool_reclaim E b p) = Suc (pool_available E p)"
  using assms by (auto simp: pool_laws_def)

section \<open>A rustls connection\<close>

text \<open>The methods of \<open>io::Write\<close> of a sink that \<open>write_tls\<close> may call.\<close>

record 's sink =
  sink_write :: "'s \<Rightarrow> bytes \<Rightarrow> (io_error + nat) \<times> 's"
  sink_write_vectored :: "'s \<Rightarrow> bytes list \<Rightarrow> (io_error + nat) \<times> 's"
  sink_flush :: "'s \<Rightarrow> (io_error + unit) \<times> 's"

record ('c, 's) rustls =
  wants_write :: "'c \<Rightarrow> bool"
  is_handshaking :: "'c \<Rightarrow> bool"
  read_tls :: "'c \<Rightarrow> bytes \<Rightarrow> (io_error + nat) \<times> 'c"
  process_new_packets :: "'c \<Rightarrow> (tls_error + bool) \<times> 'c"
  writer_write :: "'c \<Rightarrow> bytes \<Rightarrow> (io_error + nat) \<times> 'c"
  writer_write_vectored :: "'c \<Rightarrow> bytes list \<Rightarrow> (io_error + nat) \<times> 'c"
  reader_fill_buf :: "'c \<Rightarrow> io_error + bytes"
  reader_consume :: "'c \<Rightarrow> nat \<Rightarrow> 'c"
  write_tls :: "'s sink \<Rightarrow> 'c \<Rightarrow> 's \<Rightarrow> (io_error + nat) \<times> 'c \<times> 's"
  send_close_notify :: "'c \<Rightarrow> 'c"

text \<open>
  What the code can say of a connection's hidden state: \<open>made\<close> is all ciphertext produced so
  far and \<open>pend\<close> the part of it still queued for the transport; \<open>sent\<close> is all plaintext the
  writer has accepted, \<open>got\<close> all plaintext authenticated so far and \<open>nread\<close> how much of that the
  reader has consumed.
\<close>

record 'c rustls_view =
  made :: "'c \<Rightarrow> bytes"
  pend :: "'c \<Rightarrow> bytes"
  sent :: "'c \<Rightarrow> bytes"
  got :: "'c \<Rightarrow> bytes"
  nread :: "'c \<Rightarrow> nat"

text \<open>
  \<open>write_tls\<close> offers the sink chunks from the front of the queue, in one vectored write, and
  drops from the queue what the sink accepted; it fails only if the sink does.
\<close>

definition rustls_out_laws :: "('c, 's) rustls \<Rightarrow> 'c rustls_view \<Rightarrow> bool" where
  "rustls_out_laws N V \<longleftrightarrow>
     (\<forall>c. wants_write N c \<longleftrightarrow> pend V c \<noteq> []) \<and>
     (\<forall>W c s. \<exists>chunks. prefix (concat chunks) (pend V c) \<and>
        (pend V c \<noteq> [] \<longrightarrow> concat chunks \<noteq> []) \<and>
        fst (write_tls N W c s) = fst (sink_write_vectored W s chunks) \<and>
        snd (snd (write_tls N W c s)) = snd (sink_write_vectored W s chunks) \<and>
        pend V (fst (snd (write_tls N W c s))) =
          (case fst (sink_write_vectored W s chunks) of
             Inl _ \<Rightarrow> pend V c | Inr n \<Rightarrow> drop n (pend V c)))"

text \<open>
  Ciphertext is only ever appended: what an operation produces goes to the end of the queue, and
  nothing but \<open>write_tls\<close> takes from it.
\<close>

definition produces :: "'c rustls_view \<Rightarrow> 'c \<Rightarrow> 'c \<Rightarrow> bool" where
  "produces V c c' \<longleftrightarrow> (\<exists>d. made V c' = made V c @ d \<and> pend V c' = pend V c @ d)"

definition rustls_wire_laws :: "('c, 's) rustls \<Rightarrow> 'c rustls_view \<Rightarrow> bool" where
  "rustls_wire_laws N V \<longleftrightarrow>
     (\<forall>W c s. made V (fst (snd (write_tls N W c s))) = made V c) \<and>
     (\<forall>c xs. produces V c (snd (read_tls N c xs))) \<and>
     (\<forall>c. produces V c (snd (process_new_packets N c))) \<and>
     (\<forall>c xs. produces V c (snd (writer_write N c xs))) \<and>
     (\<forall>c xss. produces V c (snd (writer_write_vectored N c xss))) \<and>
     (\<forall>c n. produces V c (reader_consume N c n)) \<and>
     (\<forall>c. produces V c (send_close_notify N c))"

text \<open>The writer accepts a prefix of what it is given, and only writes count as sent.\<close>

definition rustls_writer_laws :: "('c, 's) rustls \<Rightarrow> 'c rustls_view \<Rightarrow> bool" where
  "rustls_writer_laws N V \<longleftrightarrow>
     (\<forall>c xs n c'. writer_write N c xs = (Inr n, c') \<longrightarrow>
        n \<le> length xs \<and> sent V c' = sent V c @ take n xs) \<and>
     (\<forall>c xss n c'. writer_write_vectored N c xss = (Inr n, c') \<longrightarrow>
        n \<le> length (concat xss) \<and> sent V c' = sent V c @ take n (concat xss)) \<and>
     (\<forall>c xs e c'. writer_write N c xs = (Inl e, c') \<longrightarrow> sent V c' = sent V c) \<and>
     (\<forall>c xss e c'. writer_write_vectored N c xss = (Inl e, c') \<longrightarrow> sent V c' = sent V c) \<and>
     (\<forall>W c s. sent V (fst (snd (write_tls N W c s))) = sent V c)"

text \<open>
  A writer with nothing queued accepts something of a non-empty slice (its buffer limit leaves
  room), and flushing the queue does not end a handshake.
\<close>

definition rustls_eager_laws :: "('c, 's) rustls \<Rightarrow> bool" where
  "rustls_eager_laws N \<longleftrightarrow>
     (\<forall>c xs n c'. \<not> wants_write N c \<longrightarrow> xs \<noteq> [] \<longrightarrow> writer_write N c xs = (Inr n, c') \<longrightarrow>
        n \<noteq> 0) \<and>
     (\<forall>c xss n c'. \<not> wants_write N c \<longrightarrow> concat xss \<noteq> [] \<longrightarrow>
        writer_write_vectored N c xss = (Inr n, c') \<longrightarrow> n \<noteq> 0) \<and>
     (\<forall>W c s. is_handshaking N (fst (snd (write_tls N W c s))) = is_handshaking N c)"

lemma producesI [intro]:
  "made V c' = made V c @ d \<Longrightarrow> pend V c' = pend V c @ d \<Longrightarrow> produces V c c'"
  by (auto simp: produces_def)

lemma produces_refl [simp, intro]: "produces V c c"
  by (auto simp: produces_def)

lemma produces_trans [trans]: "produces V a b \<Longrightarrow> produces V b c \<Longrightarrow> produces V a c"
  by (auto simp: produces_def)

section \<open>Egress progress of dope\<close>

text \<open>
  The input \<open>'i\<close> of a send plan and the parts \<open>'t\<close> taken from it (\<open>progress::Input\<close>): a part is the
  next bytes up to a limit, read as one slice or chunk by chunk, and either committed or dropped.
  \<open>in_done\<close> is what \<open>plan.finish()\<close> reports as consumed.
\<close>

record ('i, 't) progress_ops =
  in_is_empty :: "'i \<Rightarrow> bool"
  in_take :: "'i \<Rightarrow> nat \<Rightarrow> 't"
  in_done :: "'i \<Rightarrow> nat"
  part_bytes :: "'t \<Rightarrow> bytes"
  part_amount :: "'t \<Rightarrow> nat"
  part_next :: "'t \<Rightarrow> bytes option \<times> 't"
  part_commit :: "'t \<Rightarrow> 'i"
  part_drop :: "'t \<Rightarrow> 'i"
  len_prefix :: "nat \<Rightarrow> nat \<Rightarrow> nat"

text \<open>
  The hidden state: the bytes \<open>left\<close> in an input, the input \<open>base\<close> a part was taken from, its
  length \<open>span\<close>, and the chunks \<open>rest\<close> it has not handed out yet. A part may be committed once its
  chunks have been handed out.
\<close>

record ('i, 't) progress_view =
  left :: "'i \<Rightarrow> bytes"
  base :: "'t \<Rightarrow> 'i"
  span :: "'t \<Rightarrow> nat"
  rest :: "'t \<Rightarrow> bytes list"

definition progress_laws :: "('i, 't) progress_ops \<Rightarrow> ('i, 't) progress_view \<Rightarrow> bool" where
  "progress_laws D U \<longleftrightarrow>
     (\<forall>i. in_is_empty D i \<longleftrightarrow> left U i = []) \<and>
     (\<forall>i n. base U (in_take D i n) = i \<and> span U (in_take D i n) = min n (length (left U i))) \<and>
     (\<forall>t. part_amount D t = span U t) \<and>
     (\<forall>t. rest U t = [] \<longrightarrow>
        left U (part_commit D t) = drop (span U t) (left U (base U t)) \<and>
        in_done D (part_commit D t) = in_done D (base U t) + span U t) \<and>
     (\<forall>t. left U (part_drop D t) = left U (base U t) \<and>
        in_done D (part_drop D t) = in_done D (base U t)) \<and>
     (\<forall>n m. n \<le> m \<longrightarrow> len_prefix D n m = n)"

definition plain_progress_laws :: "('i, 't) progress_ops \<Rightarrow> ('i, 't) progress_view \<Rightarrow> bool" where
  "plain_progress_laws D U \<longleftrightarrow> progress_laws D U \<and>
     (\<forall>i n. part_bytes D (in_take D i n) = take n (left U i) \<and> rest U (in_take D i n) = [])"

text \<open>A vectored input has at most \<open>k\<close> descriptors, so a part of it has at most \<open>k\<close> chunks.\<close>

definition vectored_progress_laws ::
    "nat \<Rightarrow> ('i, 't) progress_ops \<Rightarrow> ('i, 't) progress_view \<Rightarrow> bool" where
  "vectored_progress_laws k D U \<longleftrightarrow> progress_laws D U \<and>
     (\<forall>i n. concat (rest U (in_take D i n)) = take n (left U i) \<and>
        length (rest U (in_take D i n)) \<le> k) \<and>
     (\<forall>t t'. part_next D t = (None, t') \<longrightarrow> rest U t = [] \<and>
        rest U t' = [] \<and> base U t' = base U t \<and> span U t' = span U t) \<and>
     (\<forall>t x t'. part_next D t = (Some x, t') \<longrightarrow> rest U t = x # rest U t' \<and>
        base U t' = base U t \<and> span U t' = span U t)"

section \<open>What a connection receives\<close>

definition unread :: "'c rustls_view \<Rightarrow> 'c \<Rightarrow> bytes" where
  "unread V c = drop (nread V c) (got V c)"

text \<open>
  \<open>read_tls\<close> takes a prefix of the slice, only \<open>process_new_packets\<close> authenticates plaintext, and the
  reader hands it out in order: \<open>fill_buf\<close> shows the next unread bytes, none exactly when there are
  none, and \<open>consume\<close> moves past them.
\<close>

definition rustls_in_laws :: "('c, 's) rustls \<Rightarrow> 'c rustls_view \<Rightarrow> bool" where
  "rustls_in_laws N V \<longleftrightarrow>
     (\<forall>c. nread V c \<le> length (got V c)) \<and>
     (\<forall>c xs r c'. read_tls N c xs = (r, c') \<longrightarrow> got V c' = got V c \<and> nread V c' = nread V c) \<and>
     (\<forall>c xs n c'. read_tls N c xs = (Inr n, c') \<longrightarrow> n \<le> length xs) \<and>
     (\<forall>c q c'. process_new_packets N c = (q, c') \<longrightarrow>
        prefix (got V c) (got V c') \<and> nread V c' = nread V c) \<and>
     (\<forall>c xs r c'. writer_write N c xs = (r, c') \<longrightarrow>
        got V c' = got V c \<and> nread V c' = nread V c) \<and>
     (\<forall>c p. reader_fill_buf N c = Inr p \<longrightarrow> prefix p (unread V c)) \<and>
     (\<forall>c. reader_fill_buf N c = Inr [] \<longrightarrow> unread V c = []) \<and>
     (\<forall>c. reader_fill_buf N c = Inl WouldBlock \<longrightarrow> unread V c = []) \<and>
     (\<forall>c p n. reader_fill_buf N c = Inr p \<longrightarrow> n \<le> length p \<longrightarrow>
        got V (reader_consume N c n) = got V c \<and>
        nread V (reader_consume N c n) = nread V c + n)"

lemma rustls_in_lawsD:
  assumes "rustls_in_laws N V"
  shows "nread V c \<le> length (got V c)"
    and "read_tls N c xs = (r, c') \<Longrightarrow> got V c' = got V c \<and> nread V c' = nread V c"
    and "read_tls N c xs = (Inr n, c') \<Longrightarrow> n \<le> length xs"
    and "process_new_packets N c = (q, c') \<Longrightarrow> prefix (got V c) (got V c') \<and> nread V c' = nread V c"
    and "writer_write N c xs = (r, c') \<Longrightarrow> got V c' = got V c \<and> nread V c' = nread V c"
    and "reader_fill_buf N c = Inr p \<Longrightarrow> prefix p (unread V c)"
    and "reader_fill_buf N c = Inr [] \<Longrightarrow> unread V c = []"
    and "reader_fill_buf N c = Inl WouldBlock \<Longrightarrow> unread V c = []"
    and "reader_fill_buf N c = Inr p \<Longrightarrow> n \<le> length p \<Longrightarrow>
      got V (reader_consume N c n) = got V c \<and> nread V (reader_consume N c n) = nread V c + n"
  using assms unfolding rustls_in_laws_def by meson+

text \<open>Writing ciphertext out does not touch the plaintext received.\<close>

definition rustls_duplex_laws :: "('c, 's) rustls \<Rightarrow> 'c rustls_view \<Rightarrow> bool" where
  "rustls_duplex_laws N V \<longleftrightarrow>
     (\<forall>W c s. got V (fst (snd (write_tls N W c s))) = got V c \<and>
        nread V (fst (snd (write_tls N W c s))) = nread V c)"

text \<open>
  The two directions do not touch each other: sealing and closing keep the plaintext received,
  receiving and closing keep the plaintext sent.
\<close>

definition rustls_split_laws :: "('c, 's) rustls \<Rightarrow> 'c rustls_view \<Rightarrow> bool" where
  "rustls_split_laws N V \<longleftrightarrow>
     (\<forall>c xss r c'. writer_write_vectored N c xss = (r, c') \<longrightarrow>
        got V c' = got V c \<and> nread V c' = nread V c) \<and>
     (\<forall>c. got V (send_close_notify N c) = got V c \<and> nread V (send_close_notify N c) = nread V c \<and>
        sent V (send_close_notify N c) = sent V c) \<and>
     (\<forall>c xs r c'. read_tls N c xs = (r, c') \<longrightarrow> sent V c' = sent V c) \<and>
     (\<forall>c q c'. process_new_packets N c = (q, c') \<longrightarrow> sent V c' = sent V c) \<and>
     (\<forall>c n. sent V (reader_consume N c n) = sent V c)"

text \<open>
  The record layer behind the reader: the decrypted records \<open>recs\<close> queued in it, the number \<open>held\<close> of
  ciphertext bytes waiting for the rest of their record, and whether those are one incomplete
  record (\<open>settled\<close>).
\<close>

record 'c record_view =
  recs :: "'c \<Rightarrow> bytes list"
  held :: "'c \<Rightarrow> nat"
  settled :: "'c \<Rightarrow> bool"

text \<open>
  The reader shows one record at a time. A record holds at most \<open>MAX_PLAINTEXT\<close> bytes of plaintext and
  no more than its own ciphertext, and the first record to complete includes all the ciphertext
  that was held before. Each record is given with its length on the wire.
\<close>

definition rustls_record_laws :: "('c, 's) rustls \<Rightarrow> 'c record_view \<Rightarrow> bool" where
  "rustls_record_laws N Q \<longleftrightarrow>
     (\<forall>c p. reader_fill_buf N c = Inr p \<longrightarrow> p \<noteq> [] \<longrightarrow>
        recs Q c = p # recs Q (reader_consume N c (length p)) \<and>
        held Q (reader_consume N c (length p)) = held Q c \<and>
        settled Q (reader_consume N c (length p)) = settled Q c) \<and>
     (\<forall>c. reader_fill_buf N c = Inr [] \<longrightarrow> recs Q c = []) \<and>
     (\<forall>c. reader_fill_buf N c = Inl WouldBlock \<longrightarrow> recs Q c = []) \<and>
     (\<forall>c r c'. writer_write N c [] = (r, c') \<longrightarrow>
        recs Q c' = recs Q c \<and> held Q c' = held Q c \<and> settled Q c' = settled Q c) \<and>
     (\<forall>c xs c'. read_tls N c xs = (Inr 0, c') \<longrightarrow>
        recs Q c' = recs Q c \<and> held Q c' = held Q c \<and> settled Q c' = settled Q c) \<and>
     (\<forall>c xs n c1 q c2. settled Q c \<longrightarrow> recs Q c = [] \<longrightarrow> read_tls N c xs = (Inr n, c1) \<longrightarrow>
        process_new_packets N c1 = (q, c2) \<longrightarrow>
        (\<exists>ws. recs Q c2 = filter (\<lambda>p. p \<noteq> []) (map fst ws) \<and>
           (\<forall>(p, w)\<in>set ws. length p \<le> w \<and> length p \<le> MAX_PLAINTEXT) \<and>
           held Q c2 + sum_list (map snd ws) \<le> held Q c + n \<and>
           (ws \<noteq> [] \<longrightarrow> held Q c \<le> snd (hd ws)) \<and>
           (\<not> is_err q \<longrightarrow> settled Q c2)))"

lemma rustls_record_lawsD:
  assumes "rustls_record_laws N Q"
  shows "reader_fill_buf N c = Inr p \<Longrightarrow> p \<noteq> [] \<Longrightarrow>
      recs Q c = p # recs Q (reader_consume N c (length p)) \<and>
      held Q (reader_consume N c (length p)) = held Q c \<and>
      settled Q (reader_consume N c (length p)) = settled Q c"
    and "reader_fill_buf N c = Inr [] \<Longrightarrow> recs Q c = []"
    and "reader_fill_buf N c = Inl WouldBlock \<Longrightarrow> recs Q c = []"
    and "writer_write N c [] = (r, c') \<Longrightarrow>
      recs Q c' = recs Q c \<and> held Q c' = held Q c \<and> settled Q c' = settled Q c"
    and "read_tls N c xs = (Inr 0, c') \<Longrightarrow>
      recs Q c' = recs Q c \<and> held Q c' = held Q c \<and> settled Q c' = settled Q c"
    and "settled Q c \<Longrightarrow> recs Q c = [] \<Longrightarrow> read_tls N c xs = (Inr n, c1) \<Longrightarrow>
      process_new_packets N c1 = (q, c2) \<Longrightarrow>
      \<exists>ws. recs Q c2 = filter (\<lambda>p. p \<noteq> []) (map fst ws) \<and>
           (\<forall>(p, w)\<in>set ws. length p \<le> w \<and> length p \<le> MAX_PLAINTEXT) \<and>
           held Q c2 + sum_list (map snd ws) \<le> held Q c + n \<and>
           (ws \<noteq> [] \<longrightarrow> held Q c \<le> snd (hd ws)) \<and>
           (\<not> is_err q \<longrightarrow> settled Q c2)"
  using assms unfolding rustls_record_laws_def by (blast | presburger)+

section \<open>The receive pool of o3\<close>

text \<open>
  A receive pool, fixed (\<open>'f\<close>) or growing (\<open>'g\<close>), lends spans \<open>'r\<close>: exclusive slots that take bytes
  and freeze into shared chunks \<open>'k\<close>. \<open>consume_check\<close> is \<open>consume::Error::check(amount, remaining)\<close>.
\<close>

record ('r, 'k, 'f, 'g) ingress_ops =
  span_try_append :: "'r \<Rightarrow> bytes \<Rightarrow> consume_error + 'r"
  span_freeze :: "'r \<Rightarrow> 'k"
  chunk_bytes :: "'k \<Rightarrow> bytes"
  consume_check :: "nat \<Rightarrow> nat \<Rightarrow> consume_error + unit"
  fixed_available :: "'f \<Rightarrow> nat"
  fixed_borrow :: "'f \<Rightarrow> ('r \<times> 'f) option"
  fixed_return :: "'r \<Rightarrow> 'f \<Rightarrow> 'f"
  fixed_return_chunk :: "'k \<Rightarrow> 'f \<Rightarrow> 'f"
  growing_available :: "'g \<Rightarrow> nat"
  growing_try_borrow :: "'g \<Rightarrow> (nat + 'r option) \<times> 'g"
  growing_return :: "'r \<Rightarrow> 'g \<Rightarrow> 'g"
  growing_return_chunk :: "'k \<Rightarrow> 'g \<Rightarrow> 'g"

definition check_law :: "('r, 'k, 'f, 'g) ingress_ops \<Rightarrow> bool" where
  "check_law I \<longleftrightarrow> (\<forall>a r. is_err (consume_check I a r) \<longleftrightarrow> r < a)"

lemma consume_check_ok: "check_law I \<Longrightarrow> n \<le> r \<Longrightarrow> consume_check I n r = Inr ()"
  unfolding check_law_def by (metis is_err_simps(1) linorder_not_le old.unit.exhaust sumE)

lemma consume_check_bad: "check_law I \<Longrightarrow> r < n \<Longrightarrow> \<exists>e. consume_check I n r = Inl e"
  unfolding check_law_def by (metis is_err_simps(2) sumE)

text \<open>
  A span freezes into exactly what was appended to it, and takes what fits a slot of
  \<open>MAX_PLAINTEXT\<close> bytes; \<open>content\<close> is what it holds so far. A pool counts its slots.
\<close>

definition span_laws :: "('r, 'k, 'f, 'g) ingress_ops \<Rightarrow> ('r \<Rightarrow> bytes) \<Rightarrow> bool" where
  "span_laws I content \<longleftrightarrow>
     (\<forall>r xs r'. span_try_append I r xs = Inr r' \<longrightarrow>
        chunk_bytes I (span_freeze I r') = content r @ xs) \<and>
     (\<forall>r xs. length (content r) + length xs \<le> MAX_PLAINTEXT \<longrightarrow>
        \<not> is_err (span_try_append I r xs))"

definition slot_laws :: "('r, 'k, 'f, 'g) ingress_ops \<Rightarrow> ('r \<Rightarrow> bytes) \<Rightarrow> bool" where
  "slot_laws I content \<longleftrightarrow>
     (\<forall>f. fixed_borrow I f = None \<longleftrightarrow> fixed_available I f = 0) \<and>
     (\<forall>f r f'. fixed_borrow I f = Some (r, f') \<longrightarrow>
        fixed_available I f = Suc (fixed_available I f') \<and> content r = []) \<and>
     (\<forall>r f. fixed_available I (fixed_return I r f) = Suc (fixed_available I f)) \<and>
     (\<forall>k f. fixed_available I (fixed_return_chunk I k f) = Suc (fixed_available I f)) \<and>
     (\<forall>g e g'. growing_try_borrow I g = (Inl e, g') \<longrightarrow>
        growing_available I g' = growing_available I g) \<and>
     (\<forall>g g'. growing_try_borrow I g = (Inr None, g') \<longrightarrow>
        growing_available I g = 0 \<and> growing_available I g' = 0) \<and>
     (\<forall>g r g'. growing_try_borrow I g = (Inr (Some r), g') \<longrightarrow>
        growing_available I g = Suc (growing_available I g') \<and> content r = []) \<and>
     (\<forall>r g. growing_available I (growing_return I r g) = Suc (growing_available I g)) \<and>
     (\<forall>k g. growing_available I (growing_return_chunk I k g) = Suc (growing_available I g))"

end
