(* ===== verification/Reference.thy ===== *)
theory Reference
  imports Interfaces
begin

text \<open>
  One concrete instance of the library parameters of \<open>Interfaces\<close>, on byte lists. It is no model
  of \<open>rustls\<close>, \<open>o3\<close> or \<open>dope\<close>: it shows that the laws assumed of them can hold together, and the
  witnesses of the properties evaluate on it.
\<close>

section \<open>Cursors and pools\<close>

text \<open>A cursor is its bytes and its spare room; a pool its free slots and their size.\<close>

type_synonym ref_cursor = "bytes \<times> nat"
type_synonym ref_pool = "nat \<times> nat"

definition ref_egress :: "(ref_cursor, ref_cursor, ref_pool) egress_ops" where
  "ref_egress = \<lparr>
     spare = (\<lambda>b. b),
     spare_write = (\<lambda>(xs, room) ys.
        (min (length ys) room, (xs @ take room ys, room - length ys))),
     spare_remaining = snd,
     spare_commit = (\<lambda>s. s),
     cursor_bytes = fst,
     cursor_is_empty = (\<lambda>b. fst b = []),
     cursor_spare_len = snd,
     cursor_consume_max = (\<lambda>n (xs, room). (drop n xs, room)),
     pool_view = (\<lambda>(free, size). case free of 0 \<Rightarrow> None
        | Suc n \<Rightarrow> Some (([], Suc size), (n, size))),
     pool_available = fst,
     pool_reclaim = (\<lambda>b (free, size). (Suc free, size)) \<rparr>"

lemma ref_cursor_laws: "cursor_laws ref_egress fst"
  by (auto simp: cursor_laws_def ref_egress_def)

lemma ref_pool_laws: "pool_laws ref_egress"
  by (auto simp: pool_laws_def ref_egress_def split: nat.splits)

section \<open>A connection\<close>

record ref_conn =
  rc_made :: bytes
  rc_out :: bytes
  rc_sent :: bytes
  rc_held :: bytes
  rc_read :: bytes
  rc_recs :: "bytes list"
  rc_handshaking :: bool
  rc_eof :: bool

text \<open>
  The identity cipher: ciphertext sent is plaintext, and an empty write queues nothing. A record
  received is a length byte and that many bytes; an empty one ends the stream, and one that
  begins with 255 is a protocol error.
\<close>

definition ref_produce :: "bytes \<Rightarrow> ref_conn \<Rightarrow> ref_conn" where
  "ref_produce xs c = c\<lparr>rc_made := rc_made c @ xs, rc_out := rc_out c @ xs\<rparr>"

fun ref_parse :: "bytes \<Rightarrow> bytes list \<times> bytes" where
  "ref_parse [] = ([], [])"
| "ref_parse (b # xs) =
     (if length xs < unat b then ([], b # xs)
      else let (rs, t) = ref_parse (drop (unat b) xs) in (take (unat b) xs # rs, t))"

definition ref_good :: "bytes list \<Rightarrow> bytes list" where
  "ref_good = takeWhile (\<lambda>r. take 1 r \<noteq> [255])"

definition ref_queue :: "ref_conn \<Rightarrow> bytes list" where
  "ref_queue c = filter (\<lambda>r. r \<noteq> []) (rc_recs c)"

fun skip_chunks :: "nat \<Rightarrow> bytes list \<Rightarrow> bytes list" where
  "skip_chunks n [] = []"
| "skip_chunks n (x # xs) =
     (if n < length x then drop n x # xs else skip_chunks (n - length x) xs)"

lemma concat_skip_chunks: "concat (skip_chunks n xs) = drop n (concat xs)"
  by (induction n xs rule: skip_chunks.induct) auto

definition ref_rustls :: "(ref_conn, 's) rustls" where
  "ref_rustls = \<lparr>
     wants_write = (\<lambda>c. rc_out c \<noteq> []),
     is_handshaking = rc_handshaking,
     read_tls = (\<lambda>c xs. (Inr (length xs), c\<lparr>rc_held := rc_held c @ xs\<rparr>)),
     process_new_packets = (\<lambda>c.
        let (rs, t) = ref_parse (rc_held c); eof = rc_eof c \<or> [] \<in> set (ref_good rs)
        in (if ref_good rs = rs then Inr eof else Inl (OtherTls 1),
            c\<lparr>rc_held := t, rc_recs := rc_recs c @ ref_good rs, rc_eof := eof\<rparr>)),
     writer_write = (\<lambda>c xs. (Inr (length xs), ref_produce xs (c\<lparr>rc_sent := rc_sent c @ xs\<rparr>))),
     writer_write_vectored = (\<lambda>c xss.
        (Inr (length (concat xss)),
         ref_produce (concat xss) (c\<lparr>rc_sent := rc_sent c @ concat xss\<rparr>))),
     reader_fill_buf = (\<lambda>c.
        case ref_queue c of [] \<Rightarrow> if rc_eof c then Inr [] else Inl WouldBlock | p # _ \<Rightarrow> Inr p),
     reader_consume = (\<lambda>c n.
        c\<lparr>rc_read := rc_read c @ take n (concat (ref_queue c)),
          rc_recs := skip_chunks n (ref_queue c)\<rparr>),
     write_tls = (\<lambda>W c s.
        case sink_write_vectored W s [rc_out c] of
          (Inl e, s') \<Rightarrow> (Inl e, c, s')
        | (Inr n, s') \<Rightarrow> (Inr n, c\<lparr>rc_out := drop n (rc_out c)\<rparr>, s')),
     send_close_notify = ref_produce [0] \<rparr>"

definition ref_view :: "ref_conn rustls_view" where
  "ref_view = \<lparr> made = rc_made, pend = rc_out, sent = rc_sent,
                got = (\<lambda>c. rc_read c @ concat (ref_queue c)), nread = (\<lambda>c. length (rc_read c)) \<rparr>"

definition ref_records :: "ref_conn record_view" where
  "ref_records = \<lparr> recs = ref_queue, held = (\<lambda>c. length (rc_held c)),
                  settled = (\<lambda>c. ref_parse (rc_held c) = ([], rc_held c)) \<rparr>"

lemma ref_rustls_out_laws: "rustls_out_laws ref_rustls ref_view"
  unfolding rustls_out_laws_def
proof (intro conjI allI)
  fix c :: ref_conn
  show "wants_write ref_rustls c \<longleftrightarrow> pend ref_view c \<noteq> []"
    by (simp add: ref_rustls_def ref_view_def)
next
  fix W :: "'s sink" and c s
  show "\<exists>chunks. prefix (concat chunks) (pend ref_view c) \<and>
        (pend ref_view c \<noteq> [] \<longrightarrow> concat chunks \<noteq> []) \<and>
        fst (write_tls ref_rustls W c s) = fst (sink_write_vectored W s chunks) \<and>
        snd (snd (write_tls ref_rustls W c s)) = snd (sink_write_vectored W s chunks) \<and>
        pend ref_view (fst (snd (write_tls ref_rustls W c s))) =
          (case fst (sink_write_vectored W s chunks) of
             Inl _ \<Rightarrow> pend ref_view c | Inr n \<Rightarrow> drop n (pend ref_view c))"
    by (rule exI [of _ "[rc_out c]"])
      (simp add: ref_rustls_def ref_view_def split: sum.splits prod.splits)
qed

lemma ref_rustls_wire_laws: "rustls_wire_laws ref_rustls ref_view"
  by (auto simp: rustls_wire_laws_def produces_def ref_rustls_def ref_view_def ref_produce_def Let_def
      split: sum.splits prod.splits)

lemma ref_rustls_duplex_laws: "rustls_duplex_laws ref_rustls ref_view"
  by (auto simp: rustls_duplex_laws_def ref_rustls_def ref_view_def ref_queue_def Let_def
      split: sum.splits prod.splits)

lemma ref_rustls_writer_laws: "rustls_writer_laws ref_rustls ref_view"
  by (auto simp: rustls_writer_laws_def ref_rustls_def ref_view_def ref_produce_def
      split: sum.splits prod.splits)

lemma ref_rustls_eager_laws: "rustls_eager_laws ref_rustls"
  by (auto simp: rustls_eager_laws_def ref_rustls_def ref_produce_def
      split: sum.splits prod.splits)

definition ref_idle :: ref_conn where
  "ref_idle = \<lparr> rc_made = [], rc_out = [], rc_sent = [], rc_held = [], rc_read = [], rc_recs = [],
                rc_handshaking = False, rc_eof = False \<rparr>"

section \<open>Receiving\<close>

lemma concat_nonempty: "concat (filter (\<lambda>r. r \<noteq> []) rs) = concat rs"
  by (induction rs) auto

lemma ref_unread: "unread ref_view c = concat (ref_queue c)"
  by (simp add: unread_def ref_view_def ref_queue_def concat_nonempty)

lemma ref_fill_buf:
  "reader_fill_buf ref_rustls c =
     (case ref_queue c of [] \<Rightarrow> if rc_eof c then Inr [] else Inl WouldBlock | p # _ \<Rightarrow> Inr p)"
  by (simp add: ref_rustls_def)

lemma ref_queue_simps [simp]:
  "ref_queue (c\<lparr>rc_held := xs\<rparr>) = ref_queue c" "ref_queue (c\<lparr>rc_eof := b\<rparr>) = ref_queue c"
  "ref_queue (c\<lparr>rc_sent := xs\<rparr>) = ref_queue c" "ref_queue (ref_produce xs c) = ref_queue c"
  "ref_queue (c\<lparr>rc_read := xs\<rparr>) = ref_queue c"
  "ref_queue (c\<lparr>rc_made := xs\<rparr>) = ref_queue c" "ref_queue (c\<lparr>rc_out := xs\<rparr>) = ref_queue c"
  by (simp_all add: ref_queue_def ref_produce_def)

lemma ref_queue_new: "concat (ref_queue (c\<lparr>rc_recs := rs\<rparr>)) = concat rs"
  by (simp add: ref_queue_def concat_nonempty)

lemma ref_rustls_split_laws: "rustls_split_laws ref_rustls ref_view"
  by (auto simp: rustls_split_laws_def ref_rustls_def ref_view_def ref_produce_def ref_queue_def
      Let_def split: prod.splits)

lemma ref_fill_buf_prefix:
  "reader_fill_buf ref_rustls c = Inr p \<Longrightarrow> prefix p (concat (ref_queue c))"
  "reader_fill_buf ref_rustls c = Inr [] \<Longrightarrow> concat (ref_queue c) = []"
  "reader_fill_buf ref_rustls c = Inl WouldBlock \<Longrightarrow> concat (ref_queue c) = []"
  unfolding ref_fill_buf by (cases "ref_queue c"; simp split: if_splits; fail)
    (cases "ref_queue c"; force simp: ref_queue_def filter_eq_Cons_iff split: if_splits)+

lemma ref_rustls_in_laws: "rustls_in_laws ref_rustls ref_view"
  unfolding rustls_in_laws_def ref_unread
proof (intro conjI allI impI)
  fix c :: ref_conn and q c'
  assume "process_new_packets ref_rustls c = (q, c')"
  then have "\<exists>rs. rc_recs c' = rc_recs c @ rs" "rc_read c' = rc_read c"
    by (auto simp: ref_rustls_def Let_def split: prod.splits)
  then show "prefix (got ref_view c) (got ref_view c')" "nread ref_view c' = nread ref_view c"
    by (auto simp: ref_view_def ref_queue_def concat_nonempty)
next
  fix c :: ref_conn and p n
  assume "reader_fill_buf ref_rustls c = Inr p" "n \<le> length p"
  then have "n \<le> length (concat (ref_queue c))"
    using ref_fill_buf_prefix(1) prefix_length_le order_trans by blast
  then show "got ref_view (reader_consume ref_rustls c n) = got ref_view c"
    "nread ref_view (reader_consume ref_rustls c n) = nread ref_view c + n"
    by (simp_all add: ref_view_def ref_rustls_def ref_queue_new concat_skip_chunks)
qed (erule ref_fill_buf_prefix |
    force simp: ref_view_def ref_rustls_def ref_produce_def)+

lemma ref_parse_spec:
  "ref_parse xs = (rs, t) \<Longrightarrow>
     length t + (\<Sum>r\<leftarrow>rs. Suc (length r)) = length xs \<and> (\<forall>r\<in>set rs. length r \<le> 255) \<and>
     ref_parse t = ([], t)"
proof (induction xs arbitrary: rs t rule: ref_parse.induct)
  case 1
  then show ?case by simp
next
  case (2 b xs)
  show ?case
  proof (cases "length xs < unat b")
    case True
    with "2.prems" show ?thesis by auto
  next
    case False
    then obtain rs' where "ref_parse (drop (unat b) xs) = (rs', t)" "rs = take (unat b) xs # rs'"
      using "2.prems" by (auto split: prod.splits)
    moreover have "unat b < 2 ^ 8" using unsigned_less [of b] by simp
    then have "unat b \<le> 255" by simp
    ultimately show ?thesis using "2.IH" [OF False, of rs' t] False by auto
  qed
qed

text \<open>The first record to complete takes in all that was held before.\<close>

lemma ref_parse_first:
  assumes "ref_parse hs = ([], hs)" and "ref_parse (hs @ xs) = (r # rs, t)"
  shows "length hs \<le> Suc (length r)"
proof (cases hs)
  case (Cons b ys)
  with assms(1) have "length ys < unat b" by (simp split: if_splits prod.splits)
  with Cons assms(2) show ?thesis by (auto split: if_splits prod.splits)
qed simp

lemma ref_rustls_record_laws:
  "rustls_record_laws (ref_rustls :: (ref_conn, 's) rustls) ref_records"
proof -
  have wires: "sum_list (map snd (map (\<lambda>r. (r, Suc (length r))) rs)) = (\<Sum>r\<leftarrow>rs. Suc (length r))"
    for rs :: "bytes list" by (simp add: comp_def)
  have proc: "\<exists>ws. recs ref_records c2 = filter (\<lambda>p. p \<noteq> []) (map fst ws) \<and>
           (\<forall>(p, w)\<in>set ws. length p \<le> w \<and> length p \<le> MAX_PLAINTEXT) \<and>
           held ref_records c2 + sum_list (map snd ws) \<le> held ref_records c + n \<and>
           (ws \<noteq> [] \<longrightarrow> held ref_records c \<le> snd (hd ws)) \<and>
           (\<not> is_err q \<longrightarrow> settled ref_records c2)"
    if set: "settled ref_records c" and empty: "recs ref_records c = []"
      and rd: "read_tls ref_rustls c xs = (Inr n, c1)"
      and pr: "process_new_packets ref_rustls c1 = (q, c2)" for c xs n c1 q c2
  proof -
    obtain rs t where parse: "ref_parse (rc_held c @ xs) = (rs, t)"
      by (cases "ref_parse (rc_held c @ xs)")
    have c1: "c1 = c\<lparr>rc_held := rc_held c @ xs\<rparr>" "n = length xs"
      using rd by (auto simp: ref_rustls_def)
    then have c2: "rc_held c2 = t" "rc_recs c2 = rc_recs c @ ref_good rs"
      using pr parse by (auto simp: ref_rustls_def Let_def)
    obtain bad where rs: "rs = ref_good rs @ bad"
      unfolding ref_good_def by (metis takeWhile_dropWhile_id)
    note spec = ref_parse_spec [OF parse]
    let ?ws = "map (\<lambda>r. (r, Suc (length r))) (ref_good rs)"
    have "recs ref_records c2 = filter (\<lambda>p. p \<noteq> []) (map fst ?ws)"
      using empty c2 by (simp add: ref_records_def ref_queue_def comp_def)
    moreover have "\<forall>(p, w)\<in>set ?ws. length p \<le> w \<and> length p \<le> MAX_PLAINTEXT"
      using spec set_takeWhileD unfolding ref_good_def MAX_PLAINTEXT_def by fastforce
    moreover have "(\<Sum>r\<leftarrow>ref_good rs. Suc (length r)) \<le> (\<Sum>r\<leftarrow>rs. Suc (length r))"
      by (subst (2) rs) simp
    then have "held ref_records c2 + sum_list (map snd ?ws) \<le> held ref_records c + n"
      using spec c1 c2 unfolding wires by (simp add: ref_records_def)
    moreover have "held ref_records c \<le> snd (hd ?ws)" if nonempty: "?ws \<noteq> []"
    proof -
      obtain r rest where good: "ref_good rs = r # rest" using nonempty by (cases "ref_good rs") simp_all
      with rs have "rs = r # rest @ bad" by simp
      with ref_parse_first [of "rc_held c" xs r] parse set good show ?thesis
        by (simp add: ref_records_def)
    qed
    moreover have "settled ref_records c2" using spec c2 by (simp add: ref_records_def)
    ultimately show ?thesis by blast
  qed
  have rd: "recs ref_records c = p # recs ref_records (reader_consume ref_rustls c (length p)) \<and>
      held ref_records (reader_consume ref_rustls c (length p)) = held ref_records c \<and>
      settled ref_records (reader_consume ref_rustls c (length p)) = settled ref_records c"
    if fb: "reader_fill_buf ref_rustls c = Inr p" and ne: "p \<noteq> []" for c p
  proof -
    obtain rest where q: "ref_queue c = p # rest"
      using fb ne by (auto simp: ref_fill_buf split: list.splits if_splits)
    then have "\<forall>r\<in>set rest. r \<noteq> []"
      unfolding ref_queue_def by (metis (mono_tags, lifting) Cons_eq_filterD Un_iff list.set_intros(2) mem_Collect_eq set_filter)
    then have "skip_chunks 0 rest = rest" "filter (\<lambda>r. r \<noteq> []) rest = rest"
      by (cases rest; simp)+
    with q show ?thesis
      by (simp add: ref_records_def ref_rustls_def) (simp add: ref_queue_def)
  qed
  have wr: "recs ref_records c' = recs ref_records c \<and> held ref_records c' = held ref_records c \<and>
        settled ref_records c' = settled ref_records c"
    if "writer_write ref_rustls c [] = (r, c')" for c r c'
    using that by (auto simp: ref_rustls_def ref_records_def) (simp_all add: ref_produce_def)
  have fb: "recs ref_records c = []"
    if "reader_fill_buf ref_rustls c = Inr [] \<or> reader_fill_buf ref_rustls c = Inl WouldBlock" for c
    using that ref_fill_buf_prefix(2,3) [of c]
    by (auto simp: ref_records_def ref_queue_def filter_empty_conv)
  show ?thesis
    unfolding rustls_record_laws_def
    by (intro conjI allI impI)
      ((rule proc; assumption) | (drule (1) rd, elim conjE, assumption) |
       (drule wr, elim conjE, assumption) | (force simp: ref_rustls_def ref_records_def) | (rule fb, blast))+
qed

text \<open>A span and a chunk are their bytes, a receive pool its count of free slots.\<close>

definition ref_ingress :: "(bytes, bytes, nat, nat) ingress_ops" where
  "ref_ingress = \<lparr>
     span_try_append = (\<lambda>r xs. if length r + length xs \<le> MAX_PLAINTEXT then Inr (r @ xs)
        else Inl (ConsumeError (length xs) (MAX_PLAINTEXT - length r))),
     span_freeze = (\<lambda>r. r),
     chunk_bytes = (\<lambda>k. k),
     consume_check = (\<lambda>a r. if a \<le> r then Inr () else Inl (ConsumeError a r)),
     fixed_available = (\<lambda>f. f),
     fixed_borrow = (\<lambda>f. case f of 0 \<Rightarrow> None | Suc n \<Rightarrow> Some ([], n)),
     fixed_return = (\<lambda>_ f. Suc f),
     fixed_return_chunk = (\<lambda>_ f. Suc f),
     growing_available = (\<lambda>g. g),
     growing_try_borrow = (\<lambda>g. case g of 0 \<Rightarrow> (Inr None, 0) | Suc n \<Rightarrow> (Inr (Some []), n)),
     growing_return = (\<lambda>_ g. Suc g),
     growing_return_chunk = (\<lambda>_ g. Suc g) \<rparr>"

lemma ref_check_law: "check_law ref_ingress"
  by (auto simp: check_law_def ref_ingress_def)

lemma ref_span_laws: "span_laws ref_ingress id"
  by (auto simp: span_laws_def ref_ingress_def split: if_splits)

lemma ref_slot_laws: "slot_laws ref_ingress id"
  by (auto simp: slot_laws_def ref_ingress_def split: nat.splits)

section \<open>Send plans\<close>

text \<open>An input is its remaining chunks and the count consumed; a part also its own chunks.\<close>

type_synonym ref_input = "bytes list \<times> nat"
type_synonym ref_part = "ref_input \<times> nat \<times> bytes list"

fun cut_chunks :: "nat \<Rightarrow> bytes list \<Rightarrow> bytes list" where
  "cut_chunks n [] = []"
| "cut_chunks n (x # xs) = (if n = 0 then [] else take n x # cut_chunks (n - length x) xs)"

lemma concat_cut_chunks: "concat (cut_chunks n xs) = take n (concat xs)"
  by (induction n xs rule: cut_chunks.induct) auto

lemma length_cut_chunks: "length (cut_chunks n xs) \<le> length xs"
  by (induction n xs rule: cut_chunks.induct) auto

definition ref_plan :: "(ref_input, ref_part) progress_ops" where
  "ref_plan = \<lparr>
     in_is_empty = (\<lambda>(xs, _). concat xs = []),
     in_take = (\<lambda>(xs, k) n. ((xs, k), min n (length (concat xs)), [])),
     in_done = snd,
     part_bytes = (\<lambda>((xs, _), n, _). take n (concat xs)),
     part_amount = (\<lambda>(_, n, _). n),
     part_next = (\<lambda>t. (None, t)),
     part_commit = (\<lambda>((xs, k), n, _). (skip_chunks n xs, k + n)),
     part_drop = fst,
     len_prefix = min \<rparr>"

definition ref_plan_view :: "(ref_input, ref_part) progress_view" where
  "ref_plan_view = \<lparr> left = (\<lambda>(xs, _). concat xs), base = fst,
     span = (\<lambda>(_, n, _). n), rest = (\<lambda>(_, _, ys). ys) \<rparr>"

lemma ref_plan_laws: "plain_progress_laws ref_plan ref_plan_view"
  by (auto simp: plain_progress_laws_def progress_laws_def ref_plan_def ref_plan_view_def
      concat_skip_chunks min_def)

text \<open>The vectored plan hands out its chunks one by one; an input of two descriptors at most.\<close>

definition ref_vplan :: "(ref_input, ref_part) progress_ops" where
  "ref_vplan = ref_plan\<lparr>
     in_take := (\<lambda>(xs, k) n. ((xs, k), min n (length (concat xs)),
        if length xs \<le> 2 then cut_chunks n xs else [take n (concat xs)])),
     part_next := (\<lambda>(b, n, ys). case ys of [] \<Rightarrow> (None, (b, n, []))
        | y # ys \<Rightarrow> (Some y, (b, n, ys))) \<rparr>"

lemma ref_vplan_laws: "vectored_progress_laws 2 ref_vplan ref_plan_view"
  by (auto simp: vectored_progress_laws_def progress_laws_def ref_vplan_def ref_plan_def
      ref_plan_view_def concat_skip_chunks concat_cut_chunks
      intro: order_trans [OF length_cut_chunks] split: list.splits)

end
