(* ===== verification/Buffers.thy ===== *)
theory Buffers
  imports Reference
begin

text \<open>
  Receive storage (\<open>src/state/buffers.rs\<close>) and the staging of one authenticated prefix
  (\<open>src/state/staged.rs\<close>). The pool's state is explicit, and a slot that Rust drops goes back to the
  pool it came from.
\<close>

section \<open>Reservations\<close>

datatype release = RelReleased | RelRetained

datatype ('f, 'g) receive = Fixed 'f | Growing 'g

definition reserve_copy ::
    "('r, 'k, 'f, 'g) ingress_ops \<Rightarrow> 'r \<Rightarrow> bytes \<Rightarrow> error + 'k" where
  "reserve_copy I r plain =
     (case span_try_append I r plain of
        Inl cause \<Rightarrow> Inl (Consume ReceiveBuffer cause)
      | Inr r' \<Rightarrow> Inr (span_freeze I r'))"

primrec recv_available :: "('r, 'k, 'f, 'g) ingress_ops \<Rightarrow> ('f, 'g) receive \<Rightarrow> nat" where
  "recv_available I (Fixed pool) = fixed_available I pool"
| "recv_available I (Growing pool) = growing_available I pool"

primrec recv_try_reserve ::
    "('r, 'k, 'f, 'g) ingress_ops \<Rightarrow> ('f, 'g) receive \<Rightarrow> (nat + 'r option) \<times> ('f, 'g) receive" where
  "recv_try_reserve I (Fixed pool) =
     (case fixed_borrow I pool of
        None \<Rightarrow> (Inr None, Fixed pool)
      | Some (recv, pool') \<Rightarrow> (Inr (Some recv), Fixed pool'))"
| "recv_try_reserve I (Growing pool) =
     (let (result, pool') = growing_try_borrow I pool in (result, Growing pool'))"

text \<open>The drop of a reservation and of a chunk.\<close>

primrec recv_return ::
    "('r, 'k, 'f, 'g) ingress_ops \<Rightarrow> 'r \<Rightarrow> ('f, 'g) receive \<Rightarrow> ('f, 'g) receive" where
  "recv_return I r (Fixed pool) = Fixed (fixed_return I r pool)"
| "recv_return I r (Growing pool) = Growing (growing_return I r pool)"

primrec recv_return_chunk ::
    "('r, 'k, 'f, 'g) ingress_ops \<Rightarrow> 'k \<Rightarrow> ('f, 'g) receive \<Rightarrow> ('f, 'g) receive" where
  "recv_return_chunk I k (Fixed pool) = Fixed (fixed_return_chunk I k pool)"
| "recv_return_chunk I k (Growing pool) = Growing (growing_return_chunk I k pool)"

section \<open>The staged prefix\<close>

datatype ('r, 'k) staged = StReady 'r | StRetained 'k | StReleased

text \<open>\<open>Staged::copy\<close>: once, into the reservation; a failed copy loses the reservation.\<close>

definition staged_copy ::
    "('r, 'k, 'f, 'g) ingress_ops \<Rightarrow> ('r, 'k) staged \<Rightarrow> bytes \<Rightarrow> ('f, 'g) receive \<Rightarrow>
     (error + unit) \<times> ('r, 'k) staged \<times> ('f, 'g) receive" where
  "staged_copy I staged plain pool =
     (case staged of
        StReady recv \<Rightarrow>
          (case reserve_copy I recv plain of
             Inl e \<Rightarrow> (Inl e, StReleased, recv_return I recv pool)
           | Inr chunk \<Rightarrow> (Inr (), StRetained chunk, pool))
      | state \<Rightarrow> (Inl InvalidBufferProgress, state, pool))"

text \<open>\<open>staged::Output\<close>\<close>

record 'k staged_output =
  so_chunk :: "'k option"
  so_control :: "error + unit"
  so_released :: release

section \<open>Slots and bytes\<close>

fun staged_bytes :: "('r, 'k, 'f, 'g) ingress_ops \<Rightarrow> ('r, 'k) staged \<Rightarrow> bytes" where
  "staged_bytes I (StRetained k) = chunk_bytes I k"
| "staged_bytes I _ = []"

fun staged_fresh :: "('r \<Rightarrow> bytes) \<Rightarrow> ('r, 'k) staged \<Rightarrow> bool" where
  "staged_fresh content (StReady r) \<longleftrightarrow> content r = []"
| "staged_fresh content _ \<longleftrightarrow> True"

fun staged_slots :: "('r, 'k) staged \<Rightarrow> nat" where
  "staged_slots StReleased = 0"
| "staged_slots _ = 1"

lemma recv_return_available:
  assumes "slot_laws I content"
  shows "recv_available I (recv_return I r pool) = Suc (recv_available I pool)"
    and "recv_available I (recv_return_chunk I k pool) = Suc (recv_available I pool)"
  using assms by (cases pool; simp add: slot_laws_def)+

lemma recv_try_reserve_spec:
  assumes "slot_laws I content"
  shows "recv_try_reserve I pool = (Inr None, pool') \<Longrightarrow>
      recv_available I pool = 0 \<and> recv_available I pool' = 0"
    and "recv_try_reserve I pool = (Inl e, pool') \<Longrightarrow>
      recv_available I pool' = recv_available I pool"
    and "recv_try_reserve I pool = (Inr (Some r), pool') \<Longrightarrow>
      recv_available I pool = Suc (recv_available I pool') \<and> content r = []"
  using assms by (cases pool; fastforce simp: slot_laws_def split: option.splits prod.splits)+

text \<open>A copy loses no slot and no byte: it either stages exactly \<open>plain\<close> or stages nothing.\<close>

lemma staged_copy_ok:
  assumes "span_laws I content" and "staged_fresh content staged"
    and "staged_copy I staged plain pool = (Inr (), staged', pool')"
  shows "staged_bytes I staged = []" and "staged_bytes I staged' = plain"
    and "pool' = pool" and "staged_slots staged' = staged_slots staged"
    and "staged_fresh content staged'" and "\<exists>r. staged = StReady r" and "\<exists>k. staged' = StRetained k"
  using assms by (auto simp: staged_copy_def reserve_copy_def span_laws_def
      split: staged.splits sum.splits)

lemma staged_copy_err:
  assumes "slot_laws I content"
    and "staged_copy I staged plain pool = (Inl e, staged', pool')"
  shows "staged_bytes I staged' = staged_bytes I staged"
    and "recv_available I pool' + staged_slots staged' =
      recv_available I pool + staged_slots staged"
    and "staged_fresh content staged \<Longrightarrow> staged_fresh content staged'"
  using assms(2) recv_return_available(1) [OF assms(1)]
  by (auto simp: staged_copy_def reserve_copy_def split: staged.splits sum.splits)

lemma staged_copy_fits:
  assumes "span_laws I content" and "content r = []" and "length plain \<le> MAX_PLAINTEXT"
  shows "\<exists>k. staged_copy I (StReady r) plain pool = (Inr (), StRetained k, pool)"
proof -
  have "\<not> is_err (span_try_append I r plain)"
    using assms by (simp add: span_laws_def)
  then obtain r' where "span_try_append I r plain = Inr r'"
    by (cases "span_try_append I r plain") auto
  then show ?thesis by (simp add: staged_copy_def reserve_copy_def)
qed

end
