(* ===== verification/Drain.thy ===== *)
theory Drain
  imports Reference
begin

text \<open>
  \<open>src/state/mod.rs\<close>: the \<open>io::Write\<close> sink over a cursor's spare room (\<open>Output\<close>) and the loop
  that moves queued ciphertext from the native connection into a cursor (\<open>drain\<close>). The loop
  leaves only through what \<open>rustls\<close> and the cursor answer, so it is a partial function: \<open>None\<close> is
  a run that does not return, and \<open>drain_total\<close> shows that there is none under the laws.
\<close>

section \<open>The sink\<close>

definition output_write :: "('b, 's, 'p) egress_ops \<Rightarrow> 's \<Rightarrow> bytes \<Rightarrow> (io_error + nat) \<times> 's" where
  "output_write E s bs = (let (n, s') = spare_write E s bs in (Inr n, s'))"

fun output_chunks :: "('b, 's, 'p) egress_ops \<Rightarrow> nat \<Rightarrow> 's \<Rightarrow> bytes list \<Rightarrow> nat \<times> 's" where
  "output_chunks E written s [] = (written, s)"
| "output_chunks E written s (bs # chunks) =
     (let (n, s') = spare_write E s bs
      in if n \<noteq> length bs then (written + n, s')
         else output_chunks E (written + n) s' chunks)"

definition output_write_vectored ::
    "('b, 's, 'p) egress_ops \<Rightarrow> 's \<Rightarrow> bytes list \<Rightarrow> (io_error + nat) \<times> 's" where
  "output_write_vectored E s chunks = (let (n, s') = output_chunks E 0 s chunks in (Inr n, s'))"

definition output_flush :: "'s \<Rightarrow> (io_error + unit) \<times> 's" where
  "output_flush s = (Inr (), s)"

definition output_sink :: "('b, 's, 'p) egress_ops \<Rightarrow> 's sink" where
  "output_sink E = \<lparr> sink_write = output_write E,
                     sink_write_vectored = output_write_vectored E,
                     sink_flush = output_flush \<rparr>"

section \<open>The drain loop\<close>

partial_function (option) drain_loop ::
    "('c, 's) rustls \<Rightarrow> ('b, 's, 'p) egress_ops \<Rightarrow> 'c \<Rightarrow> 's \<Rightarrow>
     ((error + unit) \<times> 'c \<times> 's) option" where
  "drain_loop N E c s =
     (if spare_remaining E s = 0 then Some (Inr (), c, s)
      else case write_tls N (output_sink E) c s of
          (Inl cause, c', s') \<Rightarrow> Some (Inl (Io cause), c', s')
        | (Inr n, c', s') \<Rightarrow>
            if n = 0 then Some (Inl InvalidBufferProgress, c', s')
            else if \<not> wants_write N c' then Some (Inr (), c', s')
            else drain_loop N E c' s')"

declare drain_loop.simps [code]

definition drain ::
    "('c, 's) rustls \<Rightarrow> ('b, 's, 'p) egress_ops \<Rightarrow> 'c \<Rightarrow> 'b \<Rightarrow>
     ((error + unit) \<times> 'c \<times> 'b) option" where
  "drain N E c out =
     (if \<not> wants_write N c then Some (Inr (), c, out)
      else do {
        (result, c', s') \<leftarrow> drain_loop N E c (spare E out);
        Some (result, c', spare_commit E s')
      })"

section \<open>What the sink accepts\<close>

lemma spare_write_eq:
  assumes "cursor_laws E sb" and "spare_write E s bs = (n, t)"
  shows "n = min (length bs) (spare_remaining E s)"
    and "sb t = sb s @ take (spare_remaining E s) bs"
    and "spare_remaining E t = spare_remaining E s - length bs"
  using cursor_lawsD(4-6) [OF assms(1), of s bs] assms(2) by simp_all

lemma output_chunks_spec:
  assumes laws: "cursor_laws E sb"
  shows "output_chunks E w s chunks = (n, s') \<Longrightarrow>
           n = w + min (length (concat chunks)) (spare_remaining E s) \<and>
           sb s' = sb s @ take (spare_remaining E s) (concat chunks) \<and>
           spare_remaining E s' = spare_remaining E s - length (concat chunks)"
proof (induction chunks arbitrary: w s)
  case Nil
  then show ?case by simp
next
  case (Cons bs chunks)
  obtain k t where wr: "spare_write E s bs = (k, t)" by (cases "spare_write E s bs")
  note wr_eq = spare_write_eq [OF laws wr]
  show ?case
  proof (cases "k = length bs")
    case True
    with Cons.prems wr have "output_chunks E (w + k) t chunks = (n, s')" by simp
    moreover have "length bs \<le> spare_remaining E s" using wr_eq(1) True by simp
    ultimately show ?thesis using Cons.IH [of "w + k" t] wr_eq True by simp
  next
    case False
    then have "spare_remaining E s \<le> length bs" "k = spare_remaining E s"
      using wr_eq(1) by simp_all
    with False Cons.prems wr wr_eq show ?thesis by simp
  qed
qed

lemma output_write_vectored_spec:
  assumes "cursor_laws E sb"
  shows "fst (output_write_vectored E s chunks) =
           Inr (min (length (concat chunks)) (spare_remaining E s))"
    and "sb (snd (output_write_vectored E s chunks)) =
           sb s @ take (spare_remaining E s) (concat chunks)"
    and "spare_remaining E (snd (output_write_vectored E s chunks)) =
           spare_remaining E s - length (concat chunks)"
proof -
  obtain n t where "output_chunks E 0 s chunks = (n, t)" by (cases "output_chunks E 0 s chunks")
  with output_chunks_spec [OF assms this]
  show "fst (output_write_vectored E s chunks) =
           Inr (min (length (concat chunks)) (spare_remaining E s))"
    and "sb (snd (output_write_vectored E s chunks)) =
           sb s @ take (spare_remaining E s) (concat chunks)"
    and "spare_remaining E (snd (output_write_vectored E s chunks)) =
           spare_remaining E s - length (concat chunks)"
    by (simp_all add: output_write_vectored_def)
qed

text \<open>
  One \<open>write_tls\<close> into the spare room: it succeeds, moves a prefix \<open>d\<close> of the queue that fits,
  and moves something unless the queue is empty or the room is gone.
\<close>

lemma write_tls_output:
  assumes E: "cursor_laws E sb" and N: "rustls_out_laws N V"
    and step: "write_tls N (output_sink E) c s = (r, c', s')"
  obtains d where "r = Inr (length d)" and "pend V c = d @ pend V c'"
    and "sb s' = sb s @ d" and "spare_remaining E s = length d + spare_remaining E s'"
    and "pend V c \<noteq> [] \<Longrightarrow> spare_remaining E s \<noteq> 0 \<Longrightarrow> d \<noteq> []"
proof -
  from N obtain chunks where
    pre: "prefix (concat chunks) (pend V c)"
    and some: "pend V c \<noteq> [] \<Longrightarrow> concat chunks \<noteq> []"
    and r: "fst (write_tls N (output_sink E) c s) =
              fst (sink_write_vectored (output_sink E) s chunks)"
    and s': "snd (snd (write_tls N (output_sink E) c s)) =
              snd (sink_write_vectored (output_sink E) s chunks)"
    and c': "pend V (fst (snd (write_tls N (output_sink E) c s))) =
          (case fst (sink_write_vectored (output_sink E) s chunks) of
             Inl _ \<Rightarrow> pend V c | Inr n \<Rightarrow> drop n (pend V c))"
    unfolding rustls_out_laws_def by meson
  let ?room = "spare_remaining E s"
  define d where "d = take ?room (concat chunks)"
  note out = output_write_vectored_spec [OF E, of s chunks]
  from pre obtain rest where rest: "pend V c = concat chunks @ rest" by (elim prefixE)
  have "r = Inr (length d)"
    using r step out(1) by (simp add: output_sink_def d_def min.commute)
  moreover have "pend V c' = drop (length d) (pend V c)"
    using c' step out(1) by (simp add: output_sink_def d_def min.commute)
  then have "pend V c = d @ pend V c'"
    using rest by (simp add: d_def) (metis append.assoc append_take_drop_id
      drop_append drop_drop length_take take_drop min.commute append_eq_conv_conj)
  moreover have "sb s' = sb s @ d"
    using s' step out(2) by (simp add: output_sink_def d_def)
  moreover have "?room = length d + spare_remaining E s'"
    using s' step out(3) by (simp add: output_sink_def d_def)
  moreover have "d \<noteq> []" if "pend V c \<noteq> []" and "?room \<noteq> 0"
    using some that by (simp add: d_def)
  ultimately show thesis using that by blast
qed

section \<open>The drain terminates and is exact\<close>

lemma drain_loop_exact:
  assumes E: "cursor_laws E sb" and N: "rustls_out_laws N V"
  shows "pend V c \<noteq> [] \<Longrightarrow>
    \<exists>c' s'. drain_loop N E c s = Some (Inr (), c', s') \<and>
      sb s' = sb s @ take (spare_remaining E s) (pend V c) \<and>
      pend V c' = drop (spare_remaining E s) (pend V c) \<and>
      spare_remaining E s' = spare_remaining E s - length (pend V c)"
proof (induction "length (pend V c)" arbitrary: c s rule: less_induct)
  case less
  let ?room = "spare_remaining E s"
  show ?case
  proof (cases "?room = 0")
    case True
    then show ?thesis by (subst drain_loop.simps) simp
  next
    case False
    obtain r c1 s1 where step: "write_tls N (output_sink E) c s = (r, c1, s1)"
      by (cases "write_tls N (output_sink E) c s") auto
    from E N step obtain d where d: "r = Inr (length d)" "pend V c = d @ pend V c1"
      "sb s1 = sb s @ d" "?room = length d + spare_remaining E s1" "d \<noteq> []"
      using less.prems False by (elim write_tls_output) auto
    show ?thesis
    proof (cases "pend V c1 = []")
      case True
      with d step False N show ?thesis
        by (subst drain_loop.simps) (simp add: rustls_out_laws_def)
    next
      case more: False
      with d have "length (pend V c1) < length (pend V c)" by simp
      from less.hyps [OF this more, of s1] obtain c' s' where
        "drain_loop N E c1 s1 = Some (Inr (), c', s')"
        "sb s' = sb s1 @ take (spare_remaining E s1) (pend V c1)"
        "pend V c' = drop (spare_remaining E s1) (pend V c1)"
        "spare_remaining E s' = spare_remaining E s1 - length (pend V c1)" by blast
      with d step False more N show ?thesis
        by (subst drain_loop.simps) (simp add: rustls_out_laws_def)
    qed
  qed
qed

lemma drain_total:
  assumes "cursor_laws E sb" and "rustls_out_laws N V"
  shows "\<exists>c' out'. drain N E c out = Some (Inr (), c', out') \<and>
    cursor_bytes E out' = cursor_bytes E out @ take (cursor_spare_len E out) (pend V c) \<and>
    pend V c' = drop (cursor_spare_len E out) (pend V c) \<and>
    cursor_spare_len E out' = cursor_spare_len E out - length (pend V c)"
proof (cases "pend V c = []")
  case True
  with assms(2) show ?thesis by (simp add: drain_def rustls_out_laws_def)
next
  case False
  with drain_loop_exact [OF assms this, of "spare E out"] assms(2) show ?thesis
    by (auto simp: drain_def rustls_out_laws_def cursor_lawsD [OF assms(1)])
qed

text \<open>What no \<open>write_tls\<close> changes, no drain changes.\<close>

lemma drain_loop_keeps:
  assumes keep: "\<And>W c s. f (fst (snd (write_tls N W c s))) = f c"
    and run: "drain_loop N E c s = Some res"
  shows "f (fst (snd res)) = f c"
proof -
  have "N = N \<longrightarrow> f (fst (snd res)) = f c"
  proof (rule drain_loop.raw_induct
      [where P = "\<lambda>N' E c s res. N' = N \<longrightarrow> f (fst (snd res)) = f c", OF _ run], rule impI)
    fix loop N' E c s res
    assume IH: "\<And>N' E c s res. loop N' E c s = Some res \<Longrightarrow> N' = N \<longrightarrow> f (fst (snd res)) = f c"
      and eq: "(if spare_remaining E s = 0 then Some (Inr (), c, s)
        else case write_tls N' (output_sink E) c s of
             (Inl cause, c', s') \<Rightarrow> Some (Inl (Io cause), c', s')
             | (Inr n, c', s') \<Rightarrow>
                 if n = 0 then Some (Inl InvalidBufferProgress, c', s')
                 else if \<not> wants_write N' c' then Some (Inr (), c', s')
                      else loop N' E c' s') = Some res" and "N' = N"
    from keep [of "output_sink E" c s] eq \<open>N' = N\<close> show "f (fst (snd res)) = f c"
      by (auto split: if_splits sum.splits prod.splits dest!: IH)
  qed
  then show ?thesis by simp
qed

lemma drain_keeps:
  assumes "\<And>W c s. f (fst (snd (write_tls N W c s))) = f c"
    and "drain N E c out = Some (r, c', out')"
  shows "f c' = f c"
  using assms(2) drain_loop_keeps [where f = f, OF assms(1)]
  by (fastforce simp: drain_def split: if_splits Option.bind_splits)

text \<open>
  C1. Draining always returns and never fails, and it is exact: the cursor gains, in order, as much
  of the queued ciphertext as it has room for, and the rest stays queued. No byte is lost,
  duplicated or reordered between the native connection and the cursor.
\<close>

theorem drain_exact:
  assumes "cursor_laws E sb" and "rustls_out_laws N V"
  shows "\<exists>c' out'. drain N E c out = Some (Inr (), c', out') \<and>
    cursor_bytes E out' = cursor_bytes E out @ take (cursor_spare_len E out) (pend V c) \<and>
    pend V c' = drop (cursor_spare_len E out) (pend V c) \<and>
    cursor_spare_len E out' = cursor_spare_len E out - length (pend V c)"
  using drain_total [OF assms] .

theorem drain_exact_witness:
  "\<exists>c' out'. drain ref_rustls ref_egress (ref_idle\<lparr>rc_out := [1, 2, 3]\<rparr>) ([9], 2) =
       Some (Inr (), c', out') \<and>
     cursor_bytes ref_egress out' = [9, 1, 2] \<and> pend ref_view c' = [3]"
proof -
  have "cursor_bytes ref_egress ([9], 2) = [9]" "cursor_spare_len ref_egress ([9], 2) = 2"
    "pend ref_view (ref_idle\<lparr>rc_out := [1, 2, 3]\<rparr>) = [1, 2, 3]"
    by (simp_all add: ref_egress_def ref_view_def)
  then show ?thesis
    using drain_exact [OF ref_cursor_laws ref_rustls_out_laws,
        of "ref_idle\<lparr>rc_out := [1, 2, 3]\<rparr>" "([9], 2)"] by auto
qed

end
