(* ===== verification/Send_Store.thy ===== *)
theory Send_Store
  imports Reference
begin

text \<open>
  The send owner of a connection (\<open>SendState\<close>, \<open>Vacant\<close>, \<open>Buffered\<close> of \<open>src/tls/mod.rs\<close>): at most one
  ciphertext cursor, borrowed from the worker's shared send pool. The pool's state is passed
  explicitly; a cursor that Rust drops goes back to it (\<open>pool_reclaim\<close>).
\<close>

section \<open>State and operations\<close>

record 'b send_state =
  buffer :: "'b option"

datatype availability = AvailReleased | AvailUnchanged

definition st_as_slice :: "('b, 's, 'p) egress_ops \<Rightarrow> 'b send_state \<Rightarrow> bytes" where
  "st_as_slice E st = (case buffer st of None \<Rightarrow> [] | Some b \<Rightarrow> cursor_bytes E b)"

text \<open>\<open>try_buffer\<close> hands out the stored cursor, borrowing one first where there is none.\<close>

definition st_try_buffer ::
    "('b, 's, 'p) egress_ops \<Rightarrow> 'b send_state \<Rightarrow> 'p \<Rightarrow> 'b option \<times> 'b send_state \<times> 'p" where
  "st_try_buffer E st p =
     (let (st', p') =
        (case buffer st of
           Some _ \<Rightarrow> (st, p)
         | None \<Rightarrow>
             (case pool_view E p of
                None \<Rightarrow> (st\<lparr>buffer := None\<rparr>, p)
              | Some (b, p') \<Rightarrow> (st\<lparr>buffer := Some b\<rparr>, p')))
      in (buffer st', st', p'))"

definition st_buffer_mut :: "'b send_state \<Rightarrow> 'b option" where
  "st_buffer_mut st = buffer st"

text \<open>The write through the \<open>&mut\<close> cursor that \<open>try_buffer\<close> and \<open>buffer_mut\<close> return.\<close>

definition st_put :: "'b \<Rightarrow> 'b send_state \<Rightarrow> 'b send_state" where
  "st_put b st = st\<lparr>buffer := Some b\<rparr>"

definition st_free_empty ::
    "('b, 's, 'p) egress_ops \<Rightarrow> 'b send_state \<Rightarrow> 'p \<Rightarrow> availability \<times> 'b send_state \<times> 'p" where
  "st_free_empty E st p =
     (case buffer st of
        Some b \<Rightarrow>
          if cursor_is_empty E b
          then (AvailReleased, st\<lparr>buffer := None\<rparr>, pool_reclaim E b p)
          else (AvailUnchanged, st, p)
      | None \<Rightarrow> (AvailUnchanged, st, p))"

definition st_drop_empty ::
    "('b, 's, 'p) egress_ops \<Rightarrow> 'b send_state \<Rightarrow> 'p \<Rightarrow> 'b send_state \<times> 'p" where
  "st_drop_empty E st p = snd (st_free_empty E st p)"

definition st_consume_max ::
    "('b, 's, 'p) egress_ops \<Rightarrow> nat \<Rightarrow> 'b send_state \<Rightarrow> 'b send_state" where
  "st_consume_max E n st =
     (case buffer st of
        Some b \<Rightarrow> st\<lparr>buffer := Some (cursor_consume_max E n b)\<rparr>
      | None \<Rightarrow> st)"

text \<open>\<open>release\<close> consumes the store, so a cursor it holds is dropped.\<close>

definition st_release ::
    "('b, 's, 'p) egress_ops \<Rightarrow> 'b send_state \<Rightarrow> 'p \<Rightarrow> availability \<times> 'p" where
  "st_release E st p =
     (case buffer st of
        Some b \<Rightarrow> (AvailReleased, pool_reclaim E b p)
      | None \<Rightarrow> (AvailUnchanged, p))"

section \<open>The loan of a receive transaction\<close>

text \<open>\<open>reserve\<close> takes the cursor out of the store (a \<open>Buffered\<close>); \<open>restore\<close> gives it back.\<close>

definition st_reserve ::
    "('b, 's, 'p) egress_ops \<Rightarrow> 'b send_state \<Rightarrow> 'p \<Rightarrow> ('b option \<times> 'b send_state \<times> 'p)" where
  "st_reserve E st p =
     (case buffer st of
        Some b \<Rightarrow> (Some b, st\<lparr>buffer := None\<rparr>, p)
      | None \<Rightarrow>
          (case pool_view E p of
             Some (b, p') \<Rightarrow> (Some b, st\<lparr>buffer := None\<rparr>, p')
           | None \<Rightarrow> (None, st\<lparr>buffer := None\<rparr>, p)))"

definition st_restore ::
    "('b, 's, 'p) egress_ops \<Rightarrow> 'b \<Rightarrow> 'b send_state \<Rightarrow> 'p \<Rightarrow> availability \<times> 'b send_state \<times> 'p" where
  "st_restore E b st p =
     (if cursor_is_empty E b then (AvailReleased, st, pool_reclaim E b p)
      else (AvailUnchanged, st\<lparr>buffer := Some b\<rparr>, p))"

definition buffered_complete ::
    "('b, 's, 'p) egress_ops \<Rightarrow> 'b \<Rightarrow> 'b send_state \<Rightarrow> 'p \<Rightarrow> availability \<times> 'b send_state \<times> 'p" where
  "buffered_complete E b st p = st_restore E b st p"

definition return_item ::
    "('b, 's, 'p) egress_ops \<Rightarrow> 'b \<Rightarrow> 'b send_state \<Rightarrow> 'p \<Rightarrow> 'b send_state \<times> 'p" where
  "return_item E b st p = snd (st_restore E b st p)"

section \<open>The contract\<close>

text \<open>
  What the senders rely on. \<open>queued\<close> is the ciphertext the store still owes the transport,
  \<open>slots\<close> the pool slots that are free or held by the store: neither a borrow nor a return may
  lose one.
\<close>

locale send_owner =
  fixes inv :: "'st \<Rightarrow> 'p \<Rightarrow> bool"
    and queued :: "'st \<Rightarrow> bytes"
    and content :: "'b \<Rightarrow> bytes"
    and holding :: "'st \<Rightarrow> bool"
    and free :: "'p \<Rightarrow> nat"
    and take_buffer :: "'st \<Rightarrow> 'p \<Rightarrow> 'b option \<times> 'st \<times> 'p"
    and put :: "'b \<Rightarrow> 'st \<Rightarrow> 'st"
    and drop_idle :: "'st \<Rightarrow> 'p \<Rightarrow> 'st \<times> 'p"
  assumes take_inv: "inv st p \<Longrightarrow> take_buffer st p = (ob, st', p') \<Longrightarrow> inv st' p'"
    and take_some: "inv st p \<Longrightarrow> take_buffer st p = (Some b, st', p') \<Longrightarrow>
        content b = queued st \<and> queued st' = queued st \<and> holding st' \<and>
        free p + of_bool (holding st) = Suc (free p')"
    and take_none: "inv st p \<Longrightarrow> take_buffer st p = (None, st', p') \<Longrightarrow>
        st' = st \<and> p' = p \<and> \<not> holding st \<and> free p = 0 \<and> queued st = []"
    and put_inv: "inv st p \<Longrightarrow> inv (put b st) p"
    and put_queued: "queued (put b st) = content b"
    and put_holding: "holding (put b st)"
    and drop_inv: "inv st p \<Longrightarrow> drop_idle st p = (st', p') \<Longrightarrow> inv st' p'"
    and drop_spec: "inv st p \<Longrightarrow> drop_idle st p = (st', p') \<Longrightarrow>
        queued st' = queued st \<and> (holding st' \<longleftrightarrow> queued st \<noteq> []) \<and>
        free p' + of_bool (holding st') = free p + of_bool (holding st)"
begin

text \<open>
  A borrow, a write that appends \<open>d\<close> to what the cursor holds, and the drop of an idle cursor:
  the store owes what it owed before and \<open>d\<close>, it holds a cursor only for bytes it owes, and the
  slots are all accounted for.
\<close>

lemma append_cycle:
  assumes "inv st p" and "take_buffer st p = (Some b, st1, p1)"
    and "content b' = content b @ d"
    and "drop_idle (put b' st1) p1 = (st2, p2)"
  shows "inv st2 p2" and "queued st2 = queued st @ d"
    and "holding st2 \<longleftrightarrow> queued st @ d \<noteq> []"
    and "free p2 + of_bool (holding st2) = free p + of_bool (holding st)"
proof -
  from assms(1,2) have inv1: "inv st1 p1" by (rule take_inv)
  from take_some [OF assms(1,2)] have t: "content b = queued st"
    "free p + of_bool (holding st) = Suc (free p1)" by auto
  note dropped = drop_spec [OF put_inv [OF inv1] assms(4)]
  have d: "queued st2 = content b'" "holding st2 \<longleftrightarrow> content b' \<noteq> []"
    using dropped by (simp_all add: put_queued)
  have d': "free p2 + of_bool (holding st2) = Suc (free p1)"
    using conjunct2 [OF conjunct2 [OF dropped]] put_holding [of b' st1] by simp
  show "inv st2 p2" using drop_inv [OF put_inv [OF inv1] assms(4)] .
  show "queued st2 = queued st @ d" "holding st2 \<longleftrightarrow> queued st @ d \<noteq> []"
    "free p2 + of_bool (holding st2) = free p + of_bool (holding st)"
    using d d' t assms(3) by simp_all
qed

end

definition st_inv :: "('b, 's, 'p) egress_ops \<Rightarrow> ('s \<Rightarrow> bytes) \<Rightarrow> 'b send_state \<Rightarrow> 'p \<Rightarrow> bool" where
  "st_inv E sb st p \<longleftrightarrow> cursor_laws E sb \<and> pool_laws E"

definition st_holding :: "'b send_state \<Rightarrow> bool" where
  "st_holding st \<longleftrightarrow> buffer st \<noteq> None"

definition st_slots :: "('b, 's, 'p) egress_ops \<Rightarrow> 'b send_state \<Rightarrow> 'p \<Rightarrow> nat" where
  "st_slots E st p = pool_available E p + of_bool (st_holding st)"

interpretation send_store: send_owner
    "st_inv E sb" "st_as_slice E" "cursor_bytes E" st_holding "pool_available E"
    "st_try_buffer E" st_put "st_drop_empty E"
  for E :: "('b, 's, 'p) egress_ops" and sb :: "'s \<Rightarrow> bytes"
proof (unfold_locales, goal_cases)
  case (1 st p ob st' p')
  then show ?case by (simp add: st_inv_def)
next
  case (2 st p b st' p')
  then show ?case
    by (auto simp: st_inv_def st_try_buffer_def st_as_slice_def st_holding_def
        dest: pool_lawsD split: option.splits)
next
  case (3 st p st' p')
  then show ?case
    by (auto simp: st_inv_def st_try_buffer_def st_as_slice_def st_holding_def pool_lawsD(1)
        split: option.splits)
next
  case (8 st p st' p')
  then show ?case
    by (auto simp: st_inv_def st_drop_empty_def st_free_empty_def st_as_slice_def st_holding_def
        cursor_lawsD(1) pool_lawsD(5) split: option.splits if_splits)
qed (simp_all add: st_inv_def st_put_def st_as_slice_def st_holding_def)

end
