(* ===== verification/Connection.thy ===== *)
theory Connection
  imports Drain Send_Store
begin

text \<open>
  \<open>Connection\<close> of \<open>src/tls/mod.rs\<close>: the native connection, the three flags that only ever go up,
  and the operations that emit ciphertext into a cursor. The reference to the worker's pools is
  the pool state the operations are passed; the lease keeps the session slot of the connection.
\<close>

section \<open>State\<close>

datatype lease = Lease nat

record 'c connection =
  native :: 'c
  peer_closed :: bool
  local_closed :: bool
  failed :: bool
  conn_lease :: lease

text \<open>A connection together with its send owner and the shared send pool.\<close>

record ('c, 'b, 'p) tx =
  tx_conn :: "'c connection"
  tx_store :: "'b send_state"
  tx_pool :: 'p

section \<open>Operations\<close>

definition can_write :: "('c, 's) rustls \<Rightarrow> 'c connection \<Rightarrow> bool" where
  "can_write N conn \<longleftrightarrow> \<not> failed conn \<and> \<not> local_closed conn \<and> \<not> is_handshaking N (native conn)"

text \<open>\<open>Connection::try_buffer\<close>: the store's own, on the send pool the connection refers to.\<close>

definition conn_try_buffer ::
    "('b, 's, 'p) egress_ops \<Rightarrow> 'b send_state \<Rightarrow> 'p \<Rightarrow> 'b option \<times> 'b send_state \<times> 'p" where
  "conn_try_buffer E store pool = st_try_buffer E store pool"

definition emit_into ::
    "('c, 's) rustls \<Rightarrow> ('b, 's, 'p) egress_ops \<Rightarrow> 'c connection \<Rightarrow> 'b \<Rightarrow>
     ((error + unit) \<times> 'c connection \<times> 'b) option" where
  "emit_into N E conn out =
     map_option (\<lambda>(result, c', out'). (result, conn\<lparr>native := c'\<rparr>, out'))
       (drain N E (native conn) out)"

definition conn_drain ::
    "('c, 's) rustls \<Rightarrow> ('b, 's, 'p) egress_ops \<Rightarrow> 'c connection \<Rightarrow> 'b \<Rightarrow>
     (error option \<times> 'c connection \<times> 'b) option" where
  "conn_drain N E conn out =
     map_option (\<lambda>(result, conn', out').
         case result of
           Inr _ \<Rightarrow> (None, conn', out')
         | Inl cause \<Rightarrow> (Some cause, conn'\<lparr>failed := True\<rparr>, out'))
       (emit_into N E conn out)"

definition peer_eof ::
    "('c, 's) rustls \<Rightarrow> 'c connection \<Rightarrow> (error + unit) \<times> 'c connection" where
  "peer_eof N conn =
     (case read_tls N (native conn) [] of
        (Inl cause, c') \<Rightarrow> (Inl (error_from_io cause), conn\<lparr>native := c'\<rparr>)
      | (Inr _, c') \<Rightarrow>
          (case reader_fill_buf N c' of
             Inr [] \<Rightarrow> (Inr (), conn\<lparr>native := c'\<rparr>)
           | Inr (_ # _) \<Rightarrow> (Inl InvalidBufferProgress, conn\<lparr>native := c'\<rparr>)
           | Inl cause \<Rightarrow> (Inl (Io cause), conn\<lparr>native := c', failed := True\<rparr>)))"

definition seal_close ::
    "('c, 's) rustls \<Rightarrow> ('b, 's, 'p) egress_ops \<Rightarrow> 'c connection \<Rightarrow> 'b \<Rightarrow>
     ((error + unit) \<times> 'c connection \<times> 'b) option" where
  "seal_close N E conn out =
     emit_into N E
       (if \<not> local_closed conn \<and> \<not> failed conn
        then conn\<lparr>local_closed := True, native := send_close_notify N (native conn)\<rparr>
        else conn)
       out"

text \<open>
  \<open>new\<close> takes the session lease and the send owner. Where it fails they are dropped with it: the
  cursor goes back to the send pool here, the lease is the caller's to give back.
\<close>

definition connection_new ::
    "('c, 's) rustls \<Rightarrow> ('b, 's, 'p) egress_ops \<Rightarrow> 'c \<Rightarrow> lease \<Rightarrow> 'b send_state \<Rightarrow> 'p \<Rightarrow>
     ((error + 'c connection \<times> 'b send_state) \<times> 'p) option" where
  "connection_new N E c l send p =
     (let conn = \<lparr> native = c, peer_closed = False, local_closed = False, failed = False,
                   conn_lease = l \<rparr>
      in case buffer send of
           Some out \<Rightarrow> do {
             (result, conn', out') \<leftarrow> emit_into N E conn out;
             (case result of
                Inl cause \<Rightarrow> Some (Inl cause, snd (st_release E (st_put out' send) p))
              | Inr _ \<Rightarrow>
                  let (send', p') = st_drop_empty E (st_put out' send) p
                  in Some (Inr (conn', send'), p'))
           }
         | None \<Rightarrow>
             if wants_write N (native conn) then Some (Inl BufferUnavailable, p)
             else let (send', p') = st_drop_empty E send p in Some (Inr (conn, send'), p'))"

section \<open>Flags only go up\<close>

text \<open>
  The flags \<open>peer_closed\<close>, \<open>local_closed\<close> and \<open>failed\<close> are sticky, and a connection keeps its
  lease: the contract every operation of a connection keeps.
\<close>

definition latch_le :: "'c connection \<Rightarrow> 'c connection \<Rightarrow> bool" where
  "latch_le c d \<longleftrightarrow>
     (peer_closed c \<longrightarrow> peer_closed d) \<and> (local_closed c \<longrightarrow> local_closed d) \<and>
     (failed c \<longrightarrow> failed d) \<and> conn_lease d = conn_lease c"

lemma latch_le_refl [simp, intro]: "latch_le c c"
  by (simp add: latch_le_def)

lemma latch_le_trans [trans]: "latch_le a b \<Longrightarrow> latch_le b c \<Longrightarrow> latch_le a c"
  by (auto simp: latch_le_def)

lemma latch_le_native [simp, intro]:
  "latch_le c (d\<lparr>native := x\<rparr>) \<longleftrightarrow> latch_le c d"
  "latch_le (c\<lparr>native := x\<rparr>) d \<longleftrightarrow> latch_le c d"
  by (simp_all add: latch_le_def)

lemma latch_le_raise [simp, intro]:
  "latch_le c d \<Longrightarrow> latch_le c (d\<lparr>failed := True\<rparr>)"
  "latch_le c d \<Longrightarrow> latch_le c (d\<lparr>local_closed := True\<rparr>)"
  "latch_le c d \<Longrightarrow> latch_le c (d\<lparr>peer_closed := peer_closed d \<or> x\<rparr>)"
  "latch_le c d \<Longrightarrow> latch_le c (d\<lparr>failed := failed d \<or> x\<rparr>)"
  by (auto simp: latch_le_def)

text \<open>
  An operation, seen as the relation between the connection before and after it, is a latch if
  it keeps the contract; runs of latches keep it too.
\<close>

locale latch =
  fixes step :: "'c connection \<Rightarrow> 'c connection \<Rightarrow> bool"
  assumes step_latch: "step c d \<Longrightarrow> latch_le c d"
begin

lemma run_latch: "step\<^sup>*\<^sup>* c d \<Longrightarrow> latch_le c d"
  by (induction rule: rtranclp_induct) (auto dest: step_latch intro: latch_le_trans)

lemma failed_stays: "step\<^sup>*\<^sup>* c d \<Longrightarrow> failed c \<Longrightarrow> failed d"
  using run_latch by (auto simp: latch_le_def)

lemma closed_stays:
  "step\<^sup>*\<^sup>* c d \<Longrightarrow> peer_closed c \<Longrightarrow> peer_closed d"
  "step\<^sup>*\<^sup>* c d \<Longrightarrow> local_closed c \<Longrightarrow> local_closed d"
  using run_latch by (auto simp: latch_le_def)

lemma write_refused:
  "step\<^sup>*\<^sup>* c d \<Longrightarrow> failed c \<or> local_closed c \<Longrightarrow> \<not> can_write N d"
  using failed_stays closed_stays by (auto simp: can_write_def)

end

lemma emit_into_conn:
  "emit_into N E conn out = Some (r, conn', out') \<Longrightarrow> conn' = conn\<lparr>native := native conn'\<rparr>"
  by (auto simp: emit_into_def)

lemma conn_drain_failed:
  "conn_drain N E conn out = Some (r, conn', out') \<Longrightarrow>
     failed conn' = (failed conn \<or> r \<noteq> None)"
  by (auto simp: conn_drain_def emit_into_def split: sum.splits)

lemma conn_drain_flags:
  "conn_drain N E conn out = Some (r, conn', out') \<Longrightarrow>
     local_closed conn' = local_closed conn \<and> peer_closed conn' = peer_closed conn"
  by (auto simp: conn_drain_def emit_into_def split: sum.splits)

section \<open>Exactness under the laws\<close>

lemma emit_into_exact:
  assumes "cursor_laws E sb" and "rustls_out_laws N V"
  shows "\<exists>conn' out'. emit_into N E conn out = Some (Inr (), conn', out') \<and>
    conn' = conn\<lparr>native := native conn'\<rparr> \<and>
    cursor_bytes E out' =
      cursor_bytes E out @ take (cursor_spare_len E out) (pend V (native conn)) \<and>
    pend V (native conn') = drop (cursor_spare_len E out) (pend V (native conn)) \<and>
    cursor_spare_len E out' = cursor_spare_len E out - length (pend V (native conn))"
proof -
  obtain c' out' where "drain N E (native conn) out = Some (Inr (), c', out')" and
    "cursor_bytes E out' =
      cursor_bytes E out @ take (cursor_spare_len E out) (pend V (native conn)) \<and>
    pend V c' = drop (cursor_spare_len E out) (pend V (native conn)) \<and>
    cursor_spare_len E out' = cursor_spare_len E out - length (pend V (native conn))"
    using drain_total [OF assms, of "native conn" out] by blast
  then show ?thesis by (simp add: emit_into_def)
qed

lemma emit_into_keeps:
  assumes "\<And>W c s. f (fst (snd (write_tls N W c s))) = f c"
    and "emit_into N E conn out = Some (r, conn', out')"
  shows "f (native conn') = f (native conn)"
  using assms(2) drain_keeps [where f = f, OF assms(1)] by (auto simp: emit_into_def)

text \<open>
  The laws of a worker's libraries on the ciphertext path, gathered: what the exactness of an
  emission rests on.
\<close>

definition wire_laws ::
    "('c, 's) rustls \<Rightarrow> ('b, 's, 'p) egress_ops \<Rightarrow> 'c rustls_view \<Rightarrow> ('s \<Rightarrow> bytes) \<Rightarrow> bool" where
  "wire_laws N E V sb \<longleftrightarrow> cursor_laws E sb \<and> pool_laws E \<and> rustls_out_laws N V \<and>
     rustls_wire_laws N V \<and> rustls_writer_laws N V"

lemma wire_lawsD:
  assumes "wire_laws N E V sb"
  shows "cursor_laws E sb" "pool_laws E" "rustls_out_laws N V" "rustls_wire_laws N V"
    "rustls_writer_laws N V" "wants_write N c \<longleftrightarrow> pend V c \<noteq> []"
    "made V (fst (snd (write_tls N W c s))) = made V c"
    "sent V (fst (snd (write_tls N W c s))) = sent V c"
  using assms by (simp_all add: wire_laws_def rustls_out_laws_def rustls_wire_laws_def
      rustls_writer_laws_def)

lemma ref_wire_laws: "wire_laws ref_rustls ref_egress ref_view fst"
  by (simp add: wire_laws_def ref_cursor_laws ref_pool_laws ref_rustls_out_laws
      ref_rustls_wire_laws ref_rustls_writer_laws)

text \<open>
  An emission under the laws: it succeeds, and what it moves from the queue to the cursor leaves
  the bytes owed to the transport as they were.
\<close>

definition emitted ::
    "('c, 's) rustls \<Rightarrow> ('b, 's, 'p) egress_ops \<Rightarrow> 'c rustls_view \<Rightarrow>
     'c connection \<Rightarrow> 'b \<Rightarrow> 'c connection \<Rightarrow> 'b \<Rightarrow> bool" where
  "emitted N E V conn out conn' out' \<longleftrightarrow>
     conn' = conn\<lparr>native := native conn'\<rparr> \<and>
     cursor_bytes E out' @ pend V (native conn') = cursor_bytes E out @ pend V (native conn) \<and>
     prefix (cursor_bytes E out) (cursor_bytes E out') \<and>
     (pend V (native conn') = [] \<or> cursor_spare_len E out' = 0) \<and>
     cursor_spare_len E out' + length (cursor_bytes E out') =
       cursor_spare_len E out + length (cursor_bytes E out) \<and>
     made V (native conn') = made V (native conn) \<and>
     sent V (native conn') = sent V (native conn)"

lemma emit_into_emitted:
  assumes "wire_laws N E V sb"
  obtains conn' out' where "emit_into N E conn out = Some (Inr (), conn', out')"
    and "emitted N E V conn out conn' out'"
proof -
  note laws = wire_lawsD [OF assms]
  obtain conn' out' where run: "emit_into N E conn out = Some (Inr (), conn', out')"
    and eqs: "conn' = conn\<lparr>native := native conn'\<rparr>"
      "cursor_bytes E out' =
        cursor_bytes E out @ take (cursor_spare_len E out) (pend V (native conn))"
      "pend V (native conn') = drop (cursor_spare_len E out) (pend V (native conn))"
      "cursor_spare_len E out' = cursor_spare_len E out - length (pend V (native conn))"
    using emit_into_exact [OF laws(1) laws(3), of conn out] by blast
  have "made V (native conn') = made V (native conn)"
    using emit_into_keeps [where f = "made V", OF laws(7) run] .
  moreover have "sent V (native conn') = sent V (native conn)"
    using emit_into_keeps [where f = "sent V", OF laws(8) run] .
  ultimately have "emitted N E V conn out conn' out'"
    using eqs by (auto simp: emitted_def)
  with run show thesis using that by blast
qed

lemma conn_drain_emitted:
  assumes "wire_laws N E V sb"
  obtains conn' out' where "conn_drain N E conn out = Some (None, conn', out')"
    and "emitted N E V conn out conn' out'"
proof -
  obtain conn' out' where "emit_into N E conn out = Some (Inr (), conn', out')"
    and "emitted N E V conn out conn' out'"
    using emit_into_emitted [OF assms] by blast
  then show thesis using that by (simp add: conn_drain_def)
qed

end
