(* ===== verification/Input.thy ===== *)
theory Input
  imports Buffers Connection
begin

text \<open>
  Receiving (\<open>src/state/direct/input.rs\<close>, and \<open>Plain\<close> of \<open>src/state/direct/mod.rs\<close>): ciphertext is
  read from an input slice and the authenticated plaintext is written back into the consumed
  prefix of the same slice. A record whose plaintext does not fit there, because it began in
  earlier input, is promoted once into the reserved pool slot.
\<close>

section \<open>State\<close>

text \<open>The input projection: \<open>in_used\<close> bytes of ciphertext consumed, \<open>in_len\<close> of plaintext written.\<close>

record input =
  in_bytes :: bytes
  in_used :: nat
  in_len :: nat

record plain =
  pl_bytes :: bytes
  pl_len :: nat

definition into_chunk :: "plain \<Rightarrow> bytes option" where
  "into_chunk p = (if pl_len p = 0 then None else Some (take (pl_len p) (pl_bytes p)))"

record ('c, 'r, 'k, 'f, 'g) rx =
  rx_conn :: "'c connection"
  rx_input :: input
  rx_staged :: "('r, 'k) staged"
  rx_pool :: "('f, 'g) receive"

section \<open>Operations\<close>

definition process ::
    "('c, 's) rustls \<Rightarrow> ('r, 'k, 'f, 'g) ingress_ops \<Rightarrow> 'c connection \<Rightarrow>
     (error + unit) \<times> 'c connection" where
  "process N I conn =
     (case process_new_packets N (native conn) of
        (Inl e, c') \<Rightarrow> (Inl (error_from_tls e), conn\<lparr>native := c'\<rparr>)
      | (Inr peer_has_closed, c') \<Rightarrow>
          let conn' = conn\<lparr>native := c', peer_closed := peer_closed conn \<or> peer_has_closed\<rparr>
          in if \<not> local_closed conn' \<and> \<not> is_handshaking N c'
             then case writer_write N c' [] of
                    (Inl e, c'') \<Rightarrow> (Inl (error_from_io e), conn'\<lparr>native := c''\<rparr>)
                  | (Inr n, c'') \<Rightarrow>
                      (if is_err (consume_check I n 0) then Inl InvalidBufferProgress else Inr (),
                       conn'\<lparr>native := c''\<rparr>)
             else (Inr (), conn'))"

text \<open>The copy of one plaintext buffer behind what the input already holds.\<close>

definition input_place ::
    "('c, 's) rustls \<Rightarrow> bytes \<Rightarrow> ('c, 'r, 'k, 'f, 'g) rx \<Rightarrow> ('c, 'r, 'k, 'f, 'g) rx" where
  "input_place N plain x =
     (let inp = rx_input x; conn = rx_conn x
      in x\<lparr>rx_input := inp\<lparr>in_bytes := splice (in_len inp) plain (in_bytes inp),
                            in_len := in_len inp + length plain\<rparr>,
           rx_conn := conn\<lparr>native := reader_consume N (native conn) (length plain)\<rparr>\<rparr>)"

partial_function (option) copy_plain ::
    "('c, 's) rustls \<Rightarrow> ('r, 'k, 'f, 'g) ingress_ops \<Rightarrow> ('c, 'r, 'k, 'f, 'g) rx \<Rightarrow>
     ((error + unit) \<times> ('c, 'r, 'k, 'f, 'g) rx) option" where
  "copy_plain N I x =
     (case reader_fill_buf N (native (rx_conn x)) of
        Inl cause \<Rightarrow>
          if cause = WouldBlock then Some (Inr (), x) else Some (Inl (Io cause), x)
      | Inr plain \<Rightarrow>
          if plain = [] then Some (Inr (), x)
          else
            let inp = rx_input x; conn = rx_conn x; n = length plain
            in if is_err (consume_check I n (in_used inp - in_len inp))
               then
                 if in_len inp = 0
                 then
                   case staged_copy I (rx_staged x) plain (rx_pool x) of
                     (Inl e, staged, pool) \<Rightarrow>
                       Some (Inl e, x\<lparr>rx_staged := staged, rx_pool := pool\<rparr>)
                   | (Inr _, staged, pool) \<Rightarrow>
                       copy_plain N I (x\<lparr>rx_staged := staged, rx_pool := pool,
                         rx_conn := conn\<lparr>native := reader_consume N (native conn) n\<rparr>\<rparr>)
                 else
                   let cut = min (in_len inp) MAX_PLAINTEXT
                   in case staged_copy I (rx_staged x) (take cut (in_bytes inp)) (rx_pool x) of
                        (Inl e, staged, pool) \<Rightarrow>
                          Some (Inl e, x\<lparr>rx_staged := staged, rx_pool := pool\<rparr>)
                      | (Inr _, staged, pool) \<Rightarrow>
                          let inp' = inp\<lparr>in_bytes := shift_down (in_len inp) cut (in_bytes inp),
                                         in_len := in_len inp - cut\<rparr>;
                              x' = x\<lparr>rx_input := inp', rx_staged := staged, rx_pool := pool\<rparr>
                          in if is_err (consume_check I n (in_used inp' - in_len inp'))
                             then Some (Inl InvalidBufferProgress, x')
                             else copy_plain N I (input_place N plain x')
               else copy_plain N I (input_place N plain x))"

partial_function (option) owned_loop ::
    "('c, 's) rustls \<Rightarrow> ('r, 'k, 'f, 'g) ingress_ops \<Rightarrow> ('c, 'r, 'k, 'f, 'g) rx \<Rightarrow>
     ((error + unit) \<times> ('c, 'r, 'k, 'f, 'g) rx) option" where
  "owned_loop N I x =
     (let inp = rx_input x; conn = rx_conn x
      in if in_used inp \<noteq> length (in_bytes inp) \<and> \<not> peer_closed conn \<and> \<not> failed conn
         then
           case read_tls N (native conn) (drop (in_used inp) (in_bytes inp)) of
             (Inl cause, c') \<Rightarrow> Some (Inl (Io cause), x\<lparr>rx_conn := conn\<lparr>native := c'\<rparr>\<rparr>)
           | (Inr count, c') \<Rightarrow>
               let conn1 = conn\<lparr>native := c'\<rparr>;
                   x1 = x\<lparr>rx_input := inp\<lparr>in_used := in_used inp + count\<rparr>\<rparr>
               in if count = 0 then Some (Inr (), x1\<lparr>rx_conn := conn1\<rparr>)
                  else
                    let (processed, conn2) = process N I conn1
                    in do {
                      (copied, x2) \<leftarrow> copy_plain N I (x1\<lparr>rx_conn := conn2\<rparr>);
                      (let result = result_and processed copied
                       in if is_err result then Some (result, x2) else owned_loop N I x2)
                    }
         else Some (Inr (), x))"

declare copy_plain.simps [code] owned_loop.simps [code]

definition owned ::
    "('c, 's) rustls \<Rightarrow> ('r, 'k, 'f, 'g) ingress_ops \<Rightarrow> 'c connection \<Rightarrow> bytes \<Rightarrow> 'r \<Rightarrow>
     ('f, 'g) receive \<Rightarrow>
     ('k staged_output \<times> plain \<times> 'c connection \<times> ('f, 'g) receive) option" where
  "owned N I conn bs recv pool = do {
     (result, x) \<leftarrow> owned_loop N I
       \<lparr> rx_conn = conn, rx_input = \<lparr> in_bytes = bs, in_used = 0, in_len = 0 \<rparr>,
         rx_staged = StReady recv, rx_pool = pool \<rparr>;
     (let conn' = (rx_conn x)\<lparr>failed := failed (rx_conn x) \<or> is_err result\<rparr>;
          (chunk, released, pool') =
            (case rx_staged x of
               StReady recv \<Rightarrow> (None, RelReleased, recv_return I recv (rx_pool x))
             | StRetained chunk \<Rightarrow> (Some chunk, RelRetained, rx_pool x)
             | StReleased \<Rightarrow> (None, RelReleased, rx_pool x))
      in Some (\<lparr> so_chunk = chunk, so_control = result, so_released = released \<rparr>,
               \<lparr> pl_bytes = in_bytes (rx_input x), pl_len = in_len (rx_input x) \<rparr>,
               conn', pool'))
   }"

end
