(* ===== verification/Input_Correct.thy ===== *)
theory Input_Correct
  imports Input
begin

text \<open>
  Receiving is exact. The plaintext of one input comes out as at most one pooled chunk and one
  prefix of the input, which together are the bytes \<open>rustls\<close> authenticated meanwhile, in order;
  the ciphertext not yet consumed is never overwritten; one pool slot is always enough.
\<close>

section \<open>One round of the copy loop\<close>

text \<open>What \<open>copy_plain\<close> does before it returns (\<open>Inl\<close>) or goes round again (\<open>Inr\<close>).\<close>

definition copy_step ::
    "('c, 's) rustls \<Rightarrow> ('r, 'k, 'f, 'g) ingress_ops \<Rightarrow> ('c, 'r, 'k, 'f, 'g) rx \<Rightarrow>
     ((error + unit) \<times> ('c, 'r, 'k, 'f, 'g) rx) + ('c, 'r, 'k, 'f, 'g) rx" where
  "copy_step N I x =
     (case reader_fill_buf N (native (rx_conn x)) of
        Inl cause \<Rightarrow> Inl (if cause = WouldBlock then Inr () else Inl (Io cause), x)
      | Inr plain \<Rightarrow>
          let inp = rx_input x; conn = rx_conn x; n = length plain
          in if plain = [] then Inl (Inr (), x)
             else if \<not> is_err (consume_check I n (in_used inp - in_len inp))
             then Inr (input_place N plain x)
             else if in_len inp = 0 then
               case staged_copy I (rx_staged x) plain (rx_pool x) of
                 (Inl e, staged, pool) \<Rightarrow> Inl (Inl e, x\<lparr>rx_staged := staged, rx_pool := pool\<rparr>)
               | (Inr _, staged, pool) \<Rightarrow>
                   Inr (x\<lparr>rx_staged := staged, rx_pool := pool,
                          rx_conn := conn\<lparr>native := reader_consume N (native conn) n\<rparr>\<rparr>)
             else
               let m = min (in_len inp) MAX_PLAINTEXT;
                   inp' = inp\<lparr>in_bytes := shift_down (in_len inp) m (in_bytes inp),
                              in_len := in_len inp - m\<rparr>
               in case staged_copy I (rx_staged x) (take m (in_bytes inp)) (rx_pool x) of
                    (Inl e, staged, pool) \<Rightarrow> Inl (Inl e, x\<lparr>rx_staged := staged, rx_pool := pool\<rparr>)
                  | (Inr _, staged, pool) \<Rightarrow>
                      let x' = x\<lparr>rx_input := inp', rx_staged := staged, rx_pool := pool\<rparr>
                      in if is_err (consume_check I n (in_used inp' - in_len inp'))
                         then Inl (Inl InvalidBufferProgress, x')
                         else Inr (input_place N plain x'))"

lemma copy_plain_step:
  "copy_plain N I x =
     (case copy_step N I x of Inl res \<Rightarrow> Some res | Inr y \<Rightarrow> copy_plain N I y)"
  by (subst copy_plain.simps)
    (auto simp: copy_step_def Let_def split: sum.splits prod.splits)

section \<open>Invariants\<close>

text \<open>The plaintext delivered so far: the staged chunk, then the prefix of the input.\<close>

definition delivered_in :: "('r, 'k, 'f, 'g) ingress_ops \<Rightarrow> ('c, 'r, 'k, 'f, 'g) rx \<Rightarrow> bytes" where
  "delivered_in I x =
     staged_bytes I (rx_staged x) @ take (in_len (rx_input x)) (in_bytes (rx_input x))"

definition rx_slots :: "('r, 'k, 'f, 'g) ingress_ops \<Rightarrow> ('c, 'r, 'k, 'f, 'g) rx \<Rightarrow> nat" where
  "rx_slots I x = recv_available I (rx_pool x) + staged_slots (rx_staged x)"

definition recv_laws ::
    "('c, 's) rustls \<Rightarrow> ('r, 'k, 'f, 'g) ingress_ops \<Rightarrow> 'c rustls_view \<Rightarrow> ('r \<Rightarrow> bytes) \<Rightarrow> bool" where
  "recv_laws N I V content \<longleftrightarrow> rustls_in_laws N V \<and> rustls_wire_laws N V \<and> check_law I \<and>
     span_laws I content \<and> slot_laws I content"

lemma recv_lawsD:
  assumes "recv_laws N I V content"
  shows "rustls_in_laws N V" "rustls_wire_laws N V" "span_laws I content" "slot_laws I content"
    "is_err (consume_check I a r) \<longleftrightarrow> r < a"
  using assms by (simp_all add: recv_laws_def check_law_def)

text \<open>
  Between rounds: a staged chunk is not empty, the prefix written never passes the ciphertext consumed, and what was delivered
  with what the reader still holds is all plaintext authenticated since position \<open>n0\<close>.
\<close>

definition staged_full :: "('r, 'k, 'f, 'g) ingress_ops \<Rightarrow> ('r, 'k) staged \<Rightarrow> bool" where
  "staged_full I staged \<longleftrightarrow> (\<forall>k. staged = StRetained k \<longrightarrow> chunk_bytes I k \<noteq> [])"

definition rx_ok ::
    "('r, 'k, 'f, 'g) ingress_ops \<Rightarrow> 'c rustls_view \<Rightarrow> ('r \<Rightarrow> bytes) \<Rightarrow> nat \<Rightarrow>
     ('c, 'r, 'k, 'f, 'g) rx \<Rightarrow> bool" where
  "rx_ok I V content n0 x \<longleftrightarrow>
     in_len (rx_input x) \<le> in_used (rx_input x) \<and>
     in_used (rx_input x) \<le> length (in_bytes (rx_input x)) \<and>
     staged_fresh content (rx_staged x) \<and> staged_full I (rx_staged x) \<and>
     n0 \<le> length (got V (native (rx_conn x))) \<and>
     delivered_in I x @ unread V (native (rx_conn x)) = drop n0 (got V (native (rx_conn x)))"

text \<open>What a round leaves alone.\<close>

definition rx_keeps ::
    "('r, 'k, 'f, 'g) ingress_ops \<Rightarrow> 'c rustls_view \<Rightarrow>
     ('c, 'r, 'k, 'f, 'g) rx \<Rightarrow> ('c, 'r, 'k, 'f, 'g) rx \<Rightarrow> bool" where
  "rx_keeps I V x y \<longleftrightarrow>
     in_used (rx_input y) = in_used (rx_input x) \<and>
     length (in_bytes (rx_input y)) = length (in_bytes (rx_input x)) \<and>
     drop (in_used (rx_input x)) (in_bytes (rx_input y)) =
       drop (in_used (rx_input x)) (in_bytes (rx_input x)) \<and>
     got V (native (rx_conn y)) = got V (native (rx_conn x)) \<and>
     rx_slots I y = rx_slots I x \<and>
     produces V (native (rx_conn x)) (native (rx_conn y)) \<and>
     peer_closed (rx_conn y) = peer_closed (rx_conn x) \<and>
     local_closed (rx_conn y) = local_closed (rx_conn x) \<and>
     failed (rx_conn y) = failed (rx_conn x) \<and> conn_lease (rx_conn y) = conn_lease (rx_conn x)"

lemma rx_keeps_refl [simp]: "rx_keeps I V x x"
  by (simp add: rx_keeps_def)

lemma rx_keeps_trans: "rx_keeps I V x y \<Longrightarrow> rx_keeps I V y z \<Longrightarrow> rx_keeps I V x z"
  unfolding rx_keeps_def by (auto intro: produces_trans)

lemma rx_keepsD:
  assumes "rx_keeps I V x y"
  shows "in_used (rx_input y) = in_used (rx_input x)"
    and "length (in_bytes (rx_input y)) = length (in_bytes (rx_input x))"
    and "drop (in_used (rx_input x)) (in_bytes (rx_input y)) =
       drop (in_used (rx_input x)) (in_bytes (rx_input x))"
    and "got V (native (rx_conn y)) = got V (native (rx_conn x))"
    and "rx_slots I y = rx_slots I x"
    and "produces V (native (rx_conn x)) (native (rx_conn y))"
    and "peer_closed (rx_conn y) = peer_closed (rx_conn x)"
    and "local_closed (rx_conn y) = local_closed (rx_conn x)"
    and "failed (rx_conn y) = failed (rx_conn x)"
    and "conn_lease (rx_conn y) = conn_lease (rx_conn x)"
  using assms unfolding rx_keeps_def by simp_all

section \<open>The copy loop\<close>

text \<open>Reading \<open>plain\<close>, which the reader shows, moves it from the unread bytes.\<close>

lemma consume_unread:
  assumes "rustls_in_laws N V" and "reader_fill_buf N c = Inr p"
  shows "unread V c = p @ unread V (reader_consume N c (length p))"
    and "got V (reader_consume N c (length p)) = got V c"
proof -
  obtain q where q: "unread V c = p @ q"
    using rustls_in_lawsD(6) [OF assms] by (auto elim: prefixE)
  have c: "got V (reader_consume N c (length p)) = got V c"
    "nread V (reader_consume N c (length p)) = nread V c + length p"
    using rustls_in_lawsD(9) [OF assms order_refl] by auto
  then have "unread V (reader_consume N c (length p)) = drop (length p) (unread V c)"
    by (simp add: unread_def add.commute)
  with q c show "unread V c = p @ unread V (reader_consume N c (length p))"
    "got V (reader_consume N c (length p)) = got V c" by simp_all
qed

lemma place_ok:
  assumes laws: "recv_laws N I V content" and ok: "rx_ok I V content n0 x"
    and fb: "reader_fill_buf N (native (rx_conn x)) = Inr p"
    and room: "in_len (rx_input x) + length p \<le> in_used (rx_input x)"
  shows "rx_ok I V content n0 (input_place N p x)" and "rx_keeps I V x (input_place N p x)"
    and "unread V (native (rx_conn x)) = p @ unread V (native (rx_conn (input_place N p x)))"
proof -
  note cons = consume_unread [OF recv_lawsD(1) [OF laws] fb]
  have fits: "in_len (rx_input x) + length p \<le> length (in_bytes (rx_input x))"
    using ok room by (simp add: rx_ok_def)
  show "unread V (native (rx_conn x)) = p @ unread V (native (rx_conn (input_place N p x)))"
    using cons by (simp add: input_place_def Let_def)
  show "rx_ok I V content n0 (input_place N p x)"
    using ok room fits cons
    by (simp add: rx_ok_def input_place_def Let_def delivered_in_def slice_simps)
  show "rx_keeps I V x (input_place N p x)"
    using ok room fits cons recv_lawsD(2) [OF laws]
    by (simp add: rx_keeps_def input_place_def Let_def slice_simps rx_slots_def rx_ok_def
        rustls_wire_laws_def)
qed

text \<open>The promotion of a prefix of what the input holds into the slot.\<close>

definition promoted ::
    "nat \<Rightarrow> ('r, 'k) staged \<Rightarrow> ('f, 'g) receive \<Rightarrow> ('c, 'r, 'k, 'f, 'g) rx \<Rightarrow>
     ('c, 'r, 'k, 'f, 'g) rx" where
  "promoted m staged pool x =
     (let inp = rx_input x
      in x\<lparr>rx_input := inp\<lparr>in_bytes := shift_down (in_len inp) m (in_bytes inp),
                            in_len := in_len inp - m\<rparr>,
           rx_staged := staged, rx_pool := pool\<rparr>)"

lemma promoted_ok:
  assumes laws: "recv_laws N I V content" and ok: "rx_ok I V content n0 x"
    and m: "m \<le> in_len (rx_input x)" "0 < m"
    and copy: "staged_copy I (rx_staged x) (take m (in_bytes (rx_input x))) (rx_pool x) =
      (Inr (), staged, pool)"
  shows "rx_ok I V content n0 (promoted m staged pool x)"
    and "rx_keeps I V x (promoted m staged pool x)"
proof -
  have fresh: "staged_fresh content (rx_staged x)" using ok by (simp add: rx_ok_def)
  note sc = staged_copy_ok [OF recv_lawsD(3) [OF laws] fresh copy]
  have len: "in_len (rx_input x) \<le> length (in_bytes (rx_input x))"
    using ok by (simp add: rx_ok_def)
  have "take m (in_bytes (rx_input x)) @
      drop m (take (in_len (rx_input x)) (in_bytes (rx_input x))) =
      take (in_len (rx_input x)) (in_bytes (rx_input x))"
    using m by (metis append_take_drop_id min.absorb1 take_take)
  then have "delivered_in I (promoted m staged pool x) = delivered_in I x"
    using sc(1,2) m len by (simp add: delivered_in_def promoted_def Let_def slice_simps)
  moreover have "staged_full I staged"
    using sc(2) m len by (auto simp: staged_full_def)
  ultimately show "rx_ok I V content n0 (promoted m staged pool x)"
    using ok sc(5) m len le_trans [OF diff_le_self, of "in_len (rx_input x)" "in_used (rx_input x)" m]
    by (simp add: rx_ok_def promoted_def Let_def slice_simps)
  show "rx_keeps I V x (promoted m staged pool x)"
    using ok sc(3,4) len
    by (simp add: rx_keeps_def promoted_def Let_def slice_simps rx_slots_def rx_ok_def)
qed

text \<open>A record copied whole into the slot.\<close>

lemma staged_whole_ok:
  assumes laws: "recv_laws N I V content" and ok: "rx_ok I V content n0 x"
    and fb: "reader_fill_buf N (native (rx_conn x)) = Inr p" and ne: "p \<noteq> []"
    and empty: "in_len (rx_input x) = 0"
    and copy: "staged_copy I (rx_staged x) p (rx_pool x) = (Inr (), staged, pool)"
    and y: "y = x\<lparr>rx_staged := staged, rx_pool := pool, rx_conn := (rx_conn x)\<lparr>native :=
      reader_consume N (native (rx_conn x)) (length p)\<rparr>\<rparr>"
  shows "rx_ok I V content n0 y" and "rx_keeps I V x y"
    and "unread V (native (rx_conn x)) = p @ unread V (native (rx_conn y))"
proof -
  note cons = consume_unread [OF recv_lawsD(1) [OF laws] fb]
  have fresh: "staged_fresh content (rx_staged x)" using ok by (simp add: rx_ok_def)
  note sc = staged_copy_ok [OF recv_lawsD(3) [OF laws] fresh copy]
  show "unread V (native (rx_conn x)) = p @ unread V (native (rx_conn y))"
    using cons by (simp add: y)
  show "rx_ok I V content n0 y"
    using ok sc cons empty ne by (auto simp: rx_ok_def delivered_in_def staged_full_def y)
  show "rx_keeps I V x y"
    using sc cons recv_lawsD(2) [OF laws]
    by (simp add: rx_keeps_def rx_slots_def y rustls_wire_laws_def)
qed

lemma staged_err_ok:
  assumes laws: "recv_laws N I V content" and ok: "rx_ok I V content n0 x"
    and copy: "staged_copy I (rx_staged x) p (rx_pool x) = (Inl e, staged, pool)"
  shows "rx_ok I V content n0 (x\<lparr>rx_staged := staged, rx_pool := pool\<rparr>)"
    and "rx_keeps I V x (x\<lparr>rx_staged := staged, rx_pool := pool\<rparr>)"
proof -
  note sc = staged_copy_err [OF recv_lawsD(4) [OF laws] copy]
  show "rx_ok I V content n0 (x\<lparr>rx_staged := staged, rx_pool := pool\<rparr>)"
    using ok sc copy
    by (auto simp: rx_ok_def delivered_in_def staged_full_def staged_copy_def
        split: staged.splits sum.splits)
  show "rx_keeps I V x (x\<lparr>rx_staged := staged, rx_pool := pool\<rparr>)"
    using sc by (simp add: rx_keeps_def rx_slots_def)
qed

text \<open>The cases of a round, over these steps.\<close>

lemma copy_step_cases [consumes 1, case_names at_end io_fail stage_fail progress_fail place stage
    promote]:
  assumes run: "copy_step N I x = res"
  obtains
      (at_end) "res = Inl (Inr (), x)"
        "reader_fill_buf N (native (rx_conn x)) \<in> {Inr [], Inl WouldBlock}"
    | (io_fail) e where "res = Inl (Inl (Io e), x)"
        "reader_fill_buf N (native (rx_conn x)) = Inl e"
    | (stage_fail) p q e staged pool where
        "reader_fill_buf N (native (rx_conn x)) = Inr p" "p \<noteq> []"
        "is_err (consume_check I (length p) (in_used (rx_input x) - in_len (rx_input x)))"
        "q = (if in_len (rx_input x) = 0 then p
              else take (min (in_len (rx_input x)) MAX_PLAINTEXT) (in_bytes (rx_input x)))"
        "staged_copy I (rx_staged x) q (rx_pool x) = (Inl e, staged, pool)"
        "res = Inl (Inl e, x\<lparr>rx_staged := staged, rx_pool := pool\<rparr>)"
    | (progress_fail) p m staged pool where
        "reader_fill_buf N (native (rx_conn x)) = Inr p" "p \<noteq> []"
        "is_err (consume_check I (length p) (in_used (rx_input x) - in_len (rx_input x)))"
        "m = min (in_len (rx_input x)) MAX_PLAINTEXT" "0 < in_len (rx_input x)"
        "staged_copy I (rx_staged x) (take m (in_bytes (rx_input x))) (rx_pool x) =
           (Inr (), staged, pool)"
        "is_err (consume_check I (length p)
           (in_used (rx_input x) - (in_len (rx_input x) - m)))"
        "res = Inl (Inl InvalidBufferProgress, promoted m staged pool x)"
    | (place) p where "reader_fill_buf N (native (rx_conn x)) = Inr p" "p \<noteq> []"
        "\<not> is_err (consume_check I (length p) (in_used (rx_input x) - in_len (rx_input x)))"
        "res = Inr (input_place N p x)"
    | (stage) p staged pool where "reader_fill_buf N (native (rx_conn x)) = Inr p" "p \<noteq> []"
        "is_err (consume_check I (length p) (in_used (rx_input x) - in_len (rx_input x)))"
        "in_len (rx_input x) = 0"
        "staged_copy I (rx_staged x) p (rx_pool x) = (Inr (), staged, pool)"
        "res = Inr (x\<lparr>rx_staged := staged, rx_pool := pool, rx_conn := (rx_conn x)\<lparr>native :=
           reader_consume N (native (rx_conn x)) (length p)\<rparr>\<rparr>)"
    | (promote) p m staged pool where
        "reader_fill_buf N (native (rx_conn x)) = Inr p" "p \<noteq> []"
        "is_err (consume_check I (length p) (in_used (rx_input x) - in_len (rx_input x)))"
        "m = min (in_len (rx_input x)) MAX_PLAINTEXT" "0 < in_len (rx_input x)"
        "staged_copy I (rx_staged x) (take m (in_bytes (rx_input x))) (rx_pool x) =
           (Inr (), staged, pool)"
        "\<not> is_err (consume_check I (length p)
           (in_used (rx_input x) - (in_len (rx_input x) - m)))"
        "res = Inr (input_place N p (promoted m staged pool x))"
proof (cases "reader_fill_buf N (native (rx_conn x))")
  case (Inl e)
  show thesis
  proof (cases "e = WouldBlock")
    case True
    with run Inl at_end show thesis by (simp add: copy_step_def)
  next
    case False
    with run Inl io_fail [of e] show thesis by (simp add: copy_step_def)
  qed
next
  case fb: (Inr p)
  show thesis
  proof (cases "p = []")
    case True
    with fb run at_end show thesis by (simp add: copy_step_def)
  next
    case ne: False
    show thesis
    proof (cases "is_err (consume_check I (length p) (in_used (rx_input x) - in_len (rx_input x)))")
      case False
      with fb ne run place show thesis by (simp add: copy_step_def)
    next
      case full: True
      obtain r staged pool where sc: "staged_copy I (rx_staged x)
          (if in_len (rx_input x) = 0 then p
           else take (min (in_len (rx_input x)) MAX_PLAINTEXT) (in_bytes (rx_input x)))
          (rx_pool x) = (r, staged, pool)" using prod_cases3 by blast
      show thesis
      proof (cases r)
        case (Inl e)
        show thesis
          by (rule stage_fail [OF fb ne full refl sc [unfolded Inl]])
            (use run fb ne full sc Inl in \<open>auto simp: copy_step_def Let_def split: if_splits\<close>)
      next
        case (Inr u)
        then have sc: "staged_copy I (rx_staged x)
          (if in_len (rx_input x) = 0 then p
           else take (min (in_len (rx_input x)) MAX_PLAINTEXT) (in_bytes (rx_input x)))
          (rx_pool x) = (Inr (), staged, pool)" using sc by simp
        let ?m = "min (in_len (rx_input x)) MAX_PLAINTEXT"
        let ?bad = "is_err (consume_check I (length p)
           (in_used (rx_input x) - (in_len (rx_input x) - ?m)))"
        consider "in_len (rx_input x) = 0" | "0 < in_len (rx_input x)" ?bad
          | "0 < in_len (rx_input x)" "\<not> ?bad" by blast
        then show thesis
        proof cases
          case 1
          with sc have "staged_copy I (rx_staged x) p (rx_pool x) = (Inr (), staged, pool)"
            by simp
          from stage [OF fb ne full 1 this] run fb ne full 1 this show thesis
            by (simp add: copy_step_def Let_def)
        next
          case 2
          with sc have "staged_copy I (rx_staged x) (take ?m (in_bytes (rx_input x)))
              (rx_pool x) = (Inr (), staged, pool)" by simp
          from progress_fail [OF fb ne full refl 2(1) this 2(2)] run fb ne full 2 this
          show thesis by (simp add: copy_step_def Let_def promoted_def)
        next
          case 3
          with sc have "staged_copy I (rx_staged x) (take ?m (in_bytes (rx_input x)))
              (rx_pool x) = (Inr (), staged, pool)" by simp
          from promote [OF fb ne full refl 3(1) this 3(2)] run fb ne full 3 this
          show thesis by (simp add: copy_step_def Let_def promoted_def)
        qed
      qed
    qed
  qed
qed

lemma copy_step_returns:
  assumes laws: "recv_laws N I V content" and ok: "rx_ok I V content n0 x"
    and run: "copy_step N I x = Inl (r, y)"
  shows "rx_ok I V content n0 y \<and> rx_keeps I V x y \<and>
    (r = Inr () \<longrightarrow> y = x \<and> reader_fill_buf N (native (rx_conn x)) \<in> {Inr [], Inl WouldBlock})"
  using run
proof (cases rule: copy_step_cases)
  case (stage_fail p q e staged pool)
  with staged_err_ok [OF laws ok stage_fail(5)] show ?thesis by simp
next
  case (progress_fail p m staged pool)
  then have "m \<le> in_len (rx_input x)" "0 < m" by (simp_all add: MAX_PLAINTEXT_def)
  from promoted_ok [OF laws ok this progress_fail(6)] progress_fail show ?thesis by simp
qed (use ok in auto)

lemma copy_step_goes_on:
  assumes laws: "recv_laws N I V content" and ok: "rx_ok I V content n0 x"
    and run: "copy_step N I x = Inr y"
  shows "rx_ok I V content n0 y \<and> rx_keeps I V x y \<and>
    length (unread V (native (rx_conn y))) < length (unread V (native (rx_conn x)))"
  using run
proof (cases rule: copy_step_cases)
  case (place p)
  have "in_len (rx_input x) + length p \<le> in_used (rx_input x)"
    using place(3) ok unfolding recv_lawsD(5) [OF laws] rx_ok_def by linarith
  from place_ok [OF laws ok place(1) this] place show ?thesis by simp
next
  case (stage p staged pool)
  then have "y = x\<lparr>rx_staged := staged, rx_pool := pool, rx_conn := (rx_conn x)\<lparr>native :=
           reader_consume N (native (rx_conn x)) (length p)\<rparr>\<rparr>" by simp
  from staged_whole_ok [OF laws ok stage(1,2,4,5) this] stage(2) show ?thesis by simp
next
  case (promote p m staged pool)
  then have m: "m \<le> in_len (rx_input x)" "0 < m" by (simp_all add: MAX_PLAINTEXT_def)
  note pr = promoted_ok [OF laws ok m promote(6)]
  let ?x = "promoted m staged pool x"
  have fb: "reader_fill_buf N (native (rx_conn ?x)) = Inr p"
    using promote(1) by (simp add: promoted_def Let_def)
  have "in_len (rx_input ?x) + length p \<le> in_used (rx_input ?x)"
    using promote(7) pr(1) unfolding recv_lawsD(5) [OF laws] rx_ok_def
    by (simp add: promoted_def Let_def) linarith
  note pl = place_ok [OF laws pr(1) fb this]
  have "native (rx_conn ?x) = native (rx_conn x)" by (simp add: promoted_def Let_def)
  with pl(1,3) rx_keeps_trans [OF pr(2) pl(2)] promote(2,8) show ?thesis by simp
qed auto

text \<open>
  The loop as a whole, for any further invariant \<open>P\<close> of its rounds: it returns, and where it
  returns without an error the reader is drained.
\<close>

lemma copy_plain_run:
  assumes laws: "recv_laws N I V content"
    and goes_on: "\<And>x y. P x \<Longrightarrow> rx_ok I V content n0 x \<Longrightarrow> copy_step N I x = Inr y \<Longrightarrow> P y"
    and returns: "\<And>x r y. P x \<Longrightarrow> rx_ok I V content n0 x \<Longrightarrow>
      copy_step N I x = Inl (r, y) \<Longrightarrow> Z r y"
  shows "rx_ok I V content n0 x \<Longrightarrow> P x \<Longrightarrow>
    \<exists>r y. copy_plain N I x = Some (r, y) \<and> rx_ok I V content n0 y \<and> rx_keeps I V x y \<and>
      (r = Inr () \<longrightarrow> unread V (native (rx_conn y)) = []) \<and> Z r y"
proof (induction "length (unread V (native (rx_conn x)))" arbitrary: x rule: less_induct)
  case less
  show ?case
  proof (cases "copy_step N I x")
    case (Inl res)
    obtain r y where res: "res = (r, y)" by (cases res)
    note st = copy_step_returns [OF laws less.prems(1) Inl [unfolded res]]
    have "r = Inr () \<Longrightarrow> unread V (native (rx_conn y)) = []"
      using st rustls_in_lawsD(7,8) [OF recv_lawsD(1) [OF laws]] by auto
    with st returns [OF less.prems(2,1) Inl [unfolded res]] show ?thesis
      by (subst copy_plain_step) (simp add: Inl res)
  next
    case (Inr y)
    note st = copy_step_goes_on [OF laws less.prems(1) Inr]
    obtain r z where "copy_plain N I y = Some (r, z)" "rx_ok I V content n0 z"
      "rx_keeps I V y z" "r = Inr () \<longrightarrow> unread V (native (rx_conn z)) = []" "Z r z"
      using less.hyps [of y] st goes_on [OF less.prems(2,1) Inr] by blast
    with rx_keeps_trans st show ?thesis
      by (subst copy_plain_step) (auto simp: Inr)
  qed
qed

section \<open>One slot is enough\<close>

definition room_left :: "nat list \<Rightarrow> nat \<Rightarrow> input \<Rightarrow> ('r, 'k) staged \<Rightarrow> bool" where
  "room_left ns h inp staged \<longleftrightarrow>
     (case staged of
        StReady _ \<Rightarrow>
          in_len inp = 0 \<and> ns = [] \<or>
          in_len inp = 0 \<and> (\<exists>n ns'. ns = n # ns' \<and> sum_list ns' + h \<le> in_used inp) \<or>
          (\<exists>f\<le>MAX_PLAINTEXT. f \<le> in_len inp \<and> in_len inp + sum_list ns + h \<le> f + in_used inp)
      | StRetained _ \<Rightarrow> in_len inp + sum_list ns + h \<le> in_used inp
      | StReleased \<Rightarrow> False)"

text \<open>
  The records still in the reader fit. Before anything is staged, only the first record, which
  may have begun in earlier input, can exceed the ciphertext consumed from this one; after the
  promotion the rest fits.
\<close>

definition rx_fits ::
    "'c record_view \<Rightarrow> ('c, 'r, 'k, 'f, 'g) rx \<Rightarrow> bool" where
  "rx_fits Q x \<longleftrightarrow>
     (\<forall>p\<in>set (recs Q (native (rx_conn x))). length p \<le> MAX_PLAINTEXT) \<and>
     room_left (map length (recs Q (native (rx_conn x)))) (held Q (native (rx_conn x)))
       (rx_input x) (rx_staged x)"

lemma room_place:
  assumes "room_left (n # ns) h inp staged" and "in_len inp + n \<le> in_used inp"
    and "n \<le> MAX_PLAINTEXT" and "in_used inp' = in_used inp" and "in_len inp' = in_len inp + n"
  shows "room_left ns h inp' staged"
proof (cases staged)
  case (StReady r)
  from assms(1) StReady consider "in_len inp = 0" "sum_list ns + h \<le> in_used inp"
    | f where "f \<le> MAX_PLAINTEXT" "f \<le> in_len inp"
        "in_len inp + (n + sum_list ns) + h \<le> f + in_used inp"
    by (auto simp: room_left_def)
  then show ?thesis
  proof cases
    case 1
    then have "n \<le> MAX_PLAINTEXT \<and> n \<le> in_len inp' \<and>
        in_len inp' + sum_list ns + h \<le> n + in_used inp'" using assms by simp
    with StReady show ?thesis unfolding room_left_def by auto
  next
    case (2 f)
    then have "f \<le> MAX_PLAINTEXT \<and> f \<le> in_len inp' \<and>
        in_len inp' + sum_list ns + h \<le> f + in_used inp'" using assms by simp
    with StReady show ?thesis unfolding room_left_def by auto
  qed
qed (use assms in \<open>auto simp: room_left_def\<close>)

text \<open>A record that does not fit is met with the slot still unused, and promotion makes room.\<close>

lemma room_short:
  assumes "room_left (n # ns) h inp staged" and "in_used inp - in_len inp < n"
    and "in_len inp \<le> in_used inp"
  shows "\<exists>r. staged = StReady r"
    and "in_len inp = 0 \<Longrightarrow> sum_list ns + h \<le> in_used inp"
    and "in_len inp \<noteq> 0 \<Longrightarrow>
      in_len inp - min (in_len inp) MAX_PLAINTEXT + (n + sum_list ns) + h \<le> in_used inp"
  using assms by (auto simp: room_left_def split: staged.splits)

text \<open>A round keeps the records fitting, and fails only if the reader does.\<close>

lemma fits_goes_on:
  assumes laws: "recv_laws N I V content" and Q: "rustls_record_laws N Q"
    and ok: "rx_ok I V content n0 x" and fits: "rx_fits Q x"
    and run: "copy_step N I x = Inr y"
  shows "rx_fits Q y" and "held Q (native (rx_conn y)) = held Q (native (rx_conn x))"
    and "settled Q (native (rx_conn y)) = settled Q (native (rx_conn x))"
proof -
  obtain p where fb: "reader_fill_buf N (native (rx_conn x)) = Inr p" "p \<noteq> []"
    and y: "native (rx_conn y) = reader_consume N (native (rx_conn x)) (length p)"
    using run by (cases rule: copy_step_cases)
      (auto simp: input_place_def promoted_def Let_def)
  note rl = rustls_record_lawsD(1) [OF Q fb]
  show "held Q (native (rx_conn y)) = held Q (native (rx_conn x))"
    and "settled Q (native (rx_conn y)) = settled Q (native (rx_conn x))"
    using rl y by simp_all
  let ?ns = "map length (recs Q (native (rx_conn y)))"
  let ?h = "held Q (native (rx_conn x))"
  have small: "\<forall>p\<in>set (recs Q (native (rx_conn y))). length p \<le> MAX_PLAINTEXT"
    "length p \<le> MAX_PLAINTEXT"
    and room: "room_left (length p # ?ns) ?h (rx_input x) (rx_staged x)"
    using fits rl y by (simp_all add: rx_fits_def)
  have below: "in_len (rx_input x) \<le> in_used (rx_input x)" using ok by (simp add: rx_ok_def)
  have "room_left ?ns ?h (rx_input y) (rx_staged y)"
    using run
  proof (cases rule: copy_step_cases)
    case (place q)
    then have "q = p" using fb by simp
    moreover have "in_len (rx_input x) + length q \<le> in_used (rx_input x)"
      using place(3) below unfolding recv_lawsD(5) [OF laws] by linarith
    ultimately show ?thesis
      using room_place [OF room _ small(2), of "rx_input y"] place(4)
      by (simp add: input_place_def Let_def)
  next
    case (stage q staged pool)
    then have "q = p" using fb by simp
    have short: "in_used (rx_input x) - in_len (rx_input x) < length p"
      using stage(3) \<open>q = p\<close> unfolding recv_lawsD(5) [OF laws] by simp
    obtain k where "staged = StRetained k"
      using staged_copy_ok(7) [OF recv_lawsD(3) [OF laws] _ stage(5)] ok
      by (auto simp: rx_ok_def)
    with room_short(2) [OF room short below stage(4)] stage(4,6) show ?thesis
      by (simp add: room_left_def)
  next
    case (promote q m staged pool)
    then have "q = p" using fb by simp
    have short: "in_used (rx_input x) - in_len (rx_input x) < length p"
      using promote(3) \<open>q = p\<close> unfolding recv_lawsD(5) [OF laws] by simp
    obtain k where "staged = StRetained k"
      using staged_copy_ok(7) [OF recv_lawsD(3) [OF laws] _ promote(6)] ok
      by (auto simp: rx_ok_def)
    with room_short(3) [OF room short below] promote(4,5,8) \<open>q = p\<close> show ?thesis
      by (simp add: room_left_def input_place_def promoted_def Let_def)
  qed auto
  with small rl y show "rx_fits Q y" by (simp add: rx_fits_def)
qed

lemma fits_returns:
  assumes laws: "recv_laws N I V content" and Q: "rustls_record_laws N Q"
    and ok: "rx_ok I V content n0 x" and fits: "rx_fits Q x"
    and run: "copy_step N I x = Inl (r, y)"
  shows "y = x" and "r = Inr () \<and> recs Q (native (rx_conn x)) = [] \<or> (\<exists>e. r = Inl (Io e))"
proof -
  have "y = x \<and> (r = Inr () \<and> recs Q (native (rx_conn x)) = [] \<or> (\<exists>e. r = Inl (Io e)))"
    using run
  proof (cases rule: copy_step_cases)
    case at_end
    then show ?thesis using rustls_record_lawsD(2,3) [OF Q] by auto
  next
    case (stage_fail p q e staged pool)
    note rl = rustls_record_lawsD(1) [OF Q stage_fail(1,2)]
    have room: "room_left (length p # map length (recs Q (reader_consume N (native (rx_conn x))
        (length p)))) (held Q (native (rx_conn x))) (rx_input x) (rx_staged x)"
      and "length p \<le> MAX_PLAINTEXT"
      using fits rl by (simp_all add: rx_fits_def)
    then have "length q \<le> MAX_PLAINTEXT" using stage_fail(4) by (simp add: min.coboundedI2)
    moreover have "\<exists>r. rx_staged x = StReady r"
      using room_short(1) [OF room] stage_fail(3) ok
      unfolding recv_lawsD(5) [OF laws] by (simp add: rx_ok_def)
    then obtain r where r: "rx_staged x = StReady r" by blast
    moreover have "content r = []" using ok r by (simp add: rx_ok_def)
    ultimately show ?thesis
      using staged_copy_fits [OF recv_lawsD(3) [OF laws], of r q "rx_pool x"] stage_fail(5) by auto
  next
    case (progress_fail p m staged pool)
    note rl = rustls_record_lawsD(1) [OF Q progress_fail(1,2)]
    have room: "room_left (length p # map length (recs Q (reader_consume N (native (rx_conn x))
        (length p)))) (held Q (native (rx_conn x))) (rx_input x) (rx_staged x)"
      using fits rl by (simp add: rx_fits_def)
    have "in_len (rx_input x) - m + length p \<le> in_used (rx_input x)"
      using room_short(3) [OF room] progress_fail(3,4,5) ok
      unfolding recv_lawsD(5) [OF laws] by (simp add: rx_ok_def)
    with progress_fail(7) have False unfolding recv_lawsD(5) [OF laws] by linarith
    then show ?thesis ..
  qed auto
  then show "y = x" and
    "r = Inr () \<and> recs Q (native (rx_conn x)) = [] \<or> (\<exists>e. r = Inl (Io e))" by auto
qed

section \<open>Processing\<close>

lemma wire_producesD:
  assumes "rustls_wire_laws N V"
  shows "process_new_packets N c = (q, c') \<Longrightarrow> produces V c c'"
    and "writer_write N c xs = (w, c') \<Longrightarrow> produces V c c'"
    and "read_tls N c xs = (n, c') \<Longrightarrow> produces V c c'"
  using assms unfolding rustls_wire_laws_def by (metis snd_conv)+

text \<open>
  \<open>process\<close> authenticates more plaintext and may raise \<open>peer_closed\<close>; it fails only as the native
  connection does.
\<close>

lemma process_run:
  assumes run: "process N I conn = (r, conn')"
    and pr: "process_new_packets N (native conn) = (q, c1)" and wr: "writer_write N c1 [] = (w, c2)"
  shows "native conn' \<in> {c1, c2} \<and> failed conn' = failed conn \<and>
      local_closed conn' = local_closed conn \<and> conn_lease conn' = conn_lease conn \<and>
      (peer_closed conn \<longrightarrow> peer_closed conn') \<and> (is_err q \<longrightarrow> is_err r) \<and>
      (r = Inr () \<or> (\<exists>e. r = Inl (Tls e)) \<or> (\<exists>e. r = Inl (Io e)) \<or>
       (\<exists>n. w = Inr n \<and> is_err (consume_check I n 0)))"
  using run unfolding process_def pr prod.case Let_def
  by (auto simp: wr error_from_tls_def error_from_io_def split: sum.splits if_splits)

lemma process_spec:
  assumes laws: "recv_laws N I V content"
    and run: "process N I conn = (r, conn')"
  shows "\<exists>d. got V (native conn') = got V (native conn) @ d \<and>
      nread V (native conn') = nread V (native conn)"
    and "produces V (native conn) (native conn')"
    and "failed conn' = failed conn" and "local_closed conn' = local_closed conn"
    and "conn_lease conn' = conn_lease conn" and "peer_closed conn \<Longrightarrow> peer_closed conn'"
    and "rustls_writer_laws N V \<Longrightarrow> r = Inr () \<or> (\<exists>e. r = Inl (Tls e)) \<or> (\<exists>e. r = Inl (Io e))"
proof -
  note in_laws = recv_lawsD(1) [OF laws]
  obtain q c1 where pr: "process_new_packets N (native conn) = (q, c1)" by fastforce
  obtain w c2 where wr: "writer_write N c1 [] = (w, c2)" by fastforce
  have c1: "prefix (got V (native conn)) (got V c1)" "nread V c1 = nread V (native conn)"
    "produces V (native conn) c1"
    using rustls_in_lawsD(4) [OF in_laws pr] wire_producesD(1) [OF recv_lawsD(2) [OF laws] pr]
    by simp_all
  have c2: "got V c2 = got V c1" "nread V c2 = nread V c1" "produces V c1 c2"
    using rustls_in_lawsD(5) [OF in_laws wr] wire_producesD(2) [OF recv_lawsD(2) [OF laws] wr]
    by simp_all
  note run = process_run [OF run pr wr]
  from run have n: "native conn' = c1 \<or> native conn' = c2" by simp
  show "\<exists>d. got V (native conn') = got V (native conn) @ d \<and>
      nread V (native conn') = nread V (native conn)"
    using n c1(1,2) c2(1,2) by (elim disjE) (simp_all add: prefix_def)
  show "produces V (native conn) (native conn')"
    using n c1(3) produces_trans [OF c1(3) c2(3)] by (elim disjE) simp_all
  show "failed conn' = failed conn" "local_closed conn' = local_closed conn"
    "conn_lease conn' = conn_lease conn" "peer_closed conn \<Longrightarrow> peer_closed conn'"
    using run by simp_all
  show "r = Inr () \<or> (\<exists>e. r = Inl (Tls e)) \<or> (\<exists>e. r = Inl (Io e))" if "rustls_writer_laws N V"
  proof -
    have "\<not> is_err (consume_check I n 0)" if w: "w = Inr n" for n
    proof -
      have "n \<le> length ([] :: bytes)"
        using \<open>rustls_writer_laws N V\<close> wr [unfolded w] unfolding rustls_writer_laws_def by blast
      then show ?thesis unfolding recv_lawsD(5) [OF laws] by simp
    qed
    with run show ?thesis by blast
  qed
qed

lemma process_records:
  assumes Q: "rustls_record_laws N Q"
    and pre: "settled Q (native conn)" "recs Q (native conn) = []"
    and rd: "read_tls N (native conn) xs = (Inr n, c')"
    and run: "process N I (conn\<lparr>native := c'\<rparr>) = (r, conn')"
  shows "\<exists>ws. recs Q (native conn') = filter (\<lambda>p. p \<noteq> []) (map fst ws) \<and>
           (\<forall>(p, w)\<in>set ws. length p \<le> w \<and> length p \<le> MAX_PLAINTEXT) \<and>
           held Q (native conn') + sum_list (map snd ws) \<le> held Q (native conn) + n \<and>
           (ws \<noteq> [] \<longrightarrow> held Q (native conn) \<le> snd (hd ws)) \<and>
           (\<not> is_err r \<longrightarrow> settled Q (native conn'))"
proof -
  obtain q c1 where pr: "process_new_packets N c' = (q, c1)" by fastforce
  obtain w c2 where wr: "writer_write N c1 [] = (w, c2)" by fastforce
  have "native conn' = c1 \<or> native conn' = c2" and err: "is_err q \<Longrightarrow> is_err r"
    using process_run [OF run _ wr, of q] pr by auto
  then have same: "recs Q (native conn') = recs Q c1" "held Q (native conn') = held Q c1"
    "settled Q (native conn') = settled Q c1"
    using rustls_record_lawsD(4) [OF Q wr] by auto
  show ?thesis
    unfolding same using rustls_record_lawsD(6) [OF Q pre rd pr] err by blast
qed

text \<open>The records a read completes fit, whatever part of the first one was held before.\<close>

lemma sum_list_bound:
  "\<forall>(p, w)\<in>set ws. length p \<le> w \<Longrightarrow>
     sum_list (map length (filter (\<lambda>p. p \<noteq> []) (map fst ws))) \<le> sum_list (map snd ws)"
proof (induction ws)
  case (Cons a ws)
  then show ?case by (cases a) (auto simp: add_mono trans_le_add2)
qed simp

lemma room_process:
  assumes room: "room_left [] h inp staged"
    and small: "\<forall>(p, w)\<in>set ws. length p \<le> w \<and> length p \<le> MAX_PLAINTEXT"
    and sum: "h' + sum_list (map snd ws) \<le> h + n"
    and first: "ws \<noteq> [] \<longrightarrow> h \<le> snd (hd ws)"
    and inp: "in_used inp' = in_used inp + n" "in_len inp' = in_len inp"
  shows "room_left (map length (filter (\<lambda>p. p \<noteq> []) (map fst ws))) h' inp' staged"
proof -
  let ?ns = "map length (filter (\<lambda>p. p \<noteq> []) (map fst ws))"
  have total: "sum_list ?ns \<le> sum_list (map snd ws)"
    using small by (intro sum_list_bound) auto
  show ?thesis
  proof (cases staged)
    case (StReady r)
    show ?thesis
    proof (cases "in_len inp = 0")
      case True
      show ?thesis
      proof (cases ws)
        case Nil
        with StReady True inp show ?thesis by (simp add: room_left_def)
      next
        case (Cons a ws')
        obtain p w where a: "a = (p, w)" by fastforce
        let ?ns' = "map length (filter (\<lambda>p. p \<noteq> []) (map fst ws'))"
        have "sum_list ?ns' \<le> sum_list (map snd ws')"
          using small Cons by (intro sum_list_bound) auto
        then have "sum_list ?ns' + h' \<le> in_used inp'"
          using sum first Cons a inp by simp
        moreover have "?ns = (if p = [] then ?ns' else length p # ?ns')"
          using Cons a by simp
        ultimately show ?thesis using StReady True inp by (auto simp: room_left_def)
      qed
    next
      case False
      then obtain f where "f \<le> MAX_PLAINTEXT" "f \<le> in_len inp" "in_len inp + h \<le> f + in_used inp"
        using room StReady by (auto simp: room_left_def)
      then have "f \<le> MAX_PLAINTEXT \<and> f \<le> in_len inp' \<and>
          in_len inp' + sum_list ?ns + h' \<le> f + in_used inp'"
        using total sum inp by simp
      with StReady show ?thesis unfolding room_left_def by auto
    qed
  qed (use room total sum inp in \<open>auto simp: room_left_def\<close>)
qed

section \<open>The read loop\<close>

definition rx_moves ::
    "('r, 'k, 'f, 'g) ingress_ops \<Rightarrow> 'c rustls_view \<Rightarrow>
     ('c, 'r, 'k, 'f, 'g) rx \<Rightarrow> ('c, 'r, 'k, 'f, 'g) rx \<Rightarrow> bool" where
  "rx_moves I V x y \<longleftrightarrow>
     in_used (rx_input x) \<le> in_used (rx_input y) \<and>
     length (in_bytes (rx_input y)) = length (in_bytes (rx_input x)) \<and>
     drop (in_used (rx_input y)) (in_bytes (rx_input y)) =
       drop (in_used (rx_input y)) (in_bytes (rx_input x)) \<and>
     prefix (got V (native (rx_conn x))) (got V (native (rx_conn y))) \<and>
     rx_slots I y = rx_slots I x \<and>
     produces V (native (rx_conn x)) (native (rx_conn y)) \<and>
     failed (rx_conn y) = failed (rx_conn x) \<and> latch_le (rx_conn x) (rx_conn y) \<and>
     local_closed (rx_conn y) = local_closed (rx_conn x)"

lemma rx_moves_refl [simp]: "rx_moves I V x x"
  by (simp add: rx_moves_def)

lemma rx_moves_trans:
  assumes xy: "rx_moves I V x y" and yz: "rx_moves I V y z"
  shows "rx_moves I V x z"
proof -
  have "drop (in_used (rx_input z)) (in_bytes (rx_input y)) =
      drop (in_used (rx_input z)) (in_bytes (rx_input x))"
    using xy yz unfolding rx_moves_def
    by (metis (no_types, lifting) drop_drop le_add_diff_inverse2)
  then show ?thesis
    using assms unfolding rx_moves_def
    by (auto intro: produces_trans prefix_order.trans latch_le_trans)
qed

lemma rx_keeps_moves: "rx_keeps I V x y \<Longrightarrow> rx_moves I V x y"
  by (simp add: rx_keeps_def rx_moves_def latch_le_def)

text \<open>Between reads the reader is drained and no record is complete.\<close>

definition at_rest :: "'c record_view \<Rightarrow> ('c, 'r, 'k, 'f, 'g) rx \<Rightarrow> bool" where
  "at_rest Q x \<longleftrightarrow>
     recs Q (native (rx_conn x)) = [] \<and> settled Q (native (rx_conn x)) \<and>
     room_left [] (held Q (native (rx_conn x))) (rx_input x) (rx_staged x)"

definition reads_on :: "('c, 's) rustls \<Rightarrow> bool" where
  "reads_on N \<longleftrightarrow> (\<forall>c xs c'. xs \<noteq> [] \<longrightarrow> read_tls N c xs \<noteq> (Inr 0, c'))"

text \<open>One read and the processing of what it brought.\<close>

lemma read_step:
  assumes laws: "recv_laws N I V content" and ok: "rx_ok I V content n0 x"
    and drained: "unread V (native (rx_conn x)) = []"
    and rd: "read_tls N (native (rx_conn x)) (drop (in_used (rx_input x)) (in_bytes (rx_input x))) =
      (Inr n, c')"
    and pr: "process N I ((rx_conn x)\<lparr>native := c'\<rparr>) = (r, conn)"
    and y: "y = x\<lparr>rx_input := (rx_input x)\<lparr>in_used := in_used (rx_input x) + n\<rparr>, rx_conn := conn\<rparr>"
  shows "rx_ok I V content n0 y" and "rx_moves I V x y"
    and "in_used (rx_input y) = in_used (rx_input x) + n"
    and "rustls_record_laws N Q \<Longrightarrow> at_rest Q x \<Longrightarrow>
      rx_fits Q y \<and> (\<not> is_err r \<longrightarrow> settled Q (native (rx_conn y)))"
proof -
  note in_laws = recv_lawsD(1) [OF laws]
  have c': "got V c' = got V (native (rx_conn x))" "nread V c' = nread V (native (rx_conn x))"
    using rustls_in_lawsD(2) [OF in_laws rd] by simp_all
  have n: "in_used (rx_input x) + n \<le> length (in_bytes (rx_input x))"
    using rustls_in_lawsD(3) [OF in_laws rd] ok unfolding rx_ok_def length_drop by linarith
  obtain d where d: "got V (native conn) = got V (native (rx_conn x)) @ d"
    "nread V (native conn) = nread V (native (rx_conn x))"
    using process_spec(1) [OF laws pr] c' by auto
  have unread: "unread V (native conn) = d"
    using d drained rustls_in_lawsD(1) [OF in_laws, of "native (rx_conn x)"]
    by (simp add: unread_def)
  show "in_used (rx_input y) = in_used (rx_input x) + n" by (simp add: y)
  show "rx_ok I V content n0 y"
    using ok n d unread drained by (simp add: rx_ok_def y delivered_in_def)
  have "produces V (native (rx_conn x)) (native conn)"
    using produces_trans [OF wire_producesD(3) [OF recv_lawsD(2) [OF laws] rd]
        process_spec(2) [OF laws pr, simplified]] .
  then show "rx_moves I V x y"
    using d process_spec(3-6) [OF laws pr] n
    by (simp add: rx_moves_def y rx_slots_def latch_le_def)
  assume Q: "rustls_record_laws N Q" and rest: "at_rest Q x"
  then obtain ws where ws: "recs Q (native conn) = filter (\<lambda>p. p \<noteq> []) (map fst ws)"
      "\<forall>(p, w)\<in>set ws. length p \<le> w \<and> length p \<le> MAX_PLAINTEXT"
      "held Q (native conn) + sum_list (map snd ws) \<le> held Q (native (rx_conn x)) + n"
      "ws \<noteq> [] \<longrightarrow> held Q (native (rx_conn x)) \<le> snd (hd ws)"
      "\<not> is_err r \<longrightarrow> settled Q (native conn)"
    using process_records [OF Q _ _ rd pr] unfolding at_rest_def by blast
  have "room_left [] (held Q (native (rx_conn x))) (rx_input x) (rx_staged x)"
    using rest by (simp add: at_rest_def)
  from room_process [OF this ws(2-4), of "rx_input y"] ws(1,2,5)
  show "rx_fits Q y \<and> (\<not> is_err r \<longrightarrow> settled Q (native (rx_conn y)))"
    by (auto simp: rx_fits_def y)
qed

text \<open>
  The promise of the loop; \<open>b\<close> tells whether the laws of the record layer are assumed too, in which
  case the loop fails only as the native connection does.
\<close>

definition loop_ok ::
    "bool \<Rightarrow> ('c, 's) rustls \<Rightarrow> 'c rustls_view \<Rightarrow> 'c record_view \<Rightarrow> (error + unit) \<Rightarrow>
     ('c, 'r, 'k, 'f, 'g) rx \<Rightarrow> bool" where
  "loop_ok b N V Q r y \<longleftrightarrow>
     (r = Inr () \<longrightarrow> unread V (native (rx_conn y)) = [] \<and> (b \<longrightarrow> at_rest Q y) \<and>
        (reads_on N \<longrightarrow> in_used (rx_input y) = length (in_bytes (rx_input y)) \<or>
           peer_closed (rx_conn y) \<or> failed (rx_conn y))) \<and>
     (b \<longrightarrow> r = Inr () \<or> (\<exists>e. r = Inl (Tls e)) \<or> (\<exists>e. r = Inl (Io e)))"

lemma copy_plain_fits:
  assumes laws: "recv_laws N I V content" and b: "b \<Longrightarrow> rustls_record_laws N Q"
    and ok: "rx_ok I V content n0 x" and fits: "b \<Longrightarrow> rx_fits Q x"
  obtains r y where "copy_plain N I x = Some (r, y)" and "rx_ok I V content n0 y"
    and "rx_keeps I V x y" and "r = Inr () \<Longrightarrow> unread V (native (rx_conn y)) = []"
    and "b \<Longrightarrow> r = Inr () \<or> (\<exists>e. r = Inl (Io e))"
    and "b \<Longrightarrow> r = Inr () \<Longrightarrow> settled Q (native (rx_conn x)) \<Longrightarrow> at_rest Q y"
proof -
  let ?P = "\<lambda>z. b \<longrightarrow> rx_fits Q z \<and> settled Q (native (rx_conn z)) = settled Q (native (rx_conn x))"
  let ?Z = "\<lambda>r z. b \<longrightarrow> (?P z \<and> (r = Inr () \<and> recs Q (native (rx_conn z)) = [] \<or>
      (\<exists>e. r = Inl (Io e))))"
  have goes: "?P z" if "?P y" "rx_ok I V content n0 y" "copy_step N I y = Inr z" for y z
    using fits_goes_on [OF laws b that(2) _ that(3)] that(1) by blast
  have ret: "?Z r z" if "?P y" "rx_ok I V content n0 y" "copy_step N I y = Inl (r, z)" for y r z
    using fits_returns [OF laws b that(2) _ that(3)] that(1) by blast
  have "?P x" using fits by simp
  then have "\<exists>r y. copy_plain N I x = Some (r, y) \<and> rx_ok I V content n0 y \<and> rx_keeps I V x y \<and>
      (r = Inr () \<longrightarrow> unread V (native (rx_conn y)) = []) \<and> ?Z r y"
    by (rule copy_plain_run [where P = ?P and Z = ?Z, OF laws _ _ ok, rotated 2])
      (rule goes ret; assumption)+
  then obtain r y where y: "copy_plain N I x = Some (r, y)" "rx_ok I V content n0 y"
    "rx_keeps I V x y" "r = Inr () \<longrightarrow> unread V (native (rx_conn y)) = []" "?Z r y" by blast
  have "at_rest Q y" if "b" "r = Inr ()" "settled Q (native (rx_conn x))"
    using y(5) that by (auto simp: at_rest_def rx_fits_def)
  with y that [of r y] show thesis by blast
qed

text \<open>A read that takes nothing ends the loop at rest.\<close>

lemma owned_zero:
  assumes rd: "read_tls N (native (rx_conn x)) (drop (in_used (rx_input x)) (in_bytes (rx_input x))) =
      (Inr 0, c')"
    and below: "in_used (rx_input x) < length (in_bytes (rx_input x))" and none: "unread V c' = []"
    and b: "b \<Longrightarrow> rustls_record_laws N Q" and rest: "b \<Longrightarrow> at_rest Q x"
  shows "loop_ok b N V Q (Inr ()) (x\<lparr>rx_conn := (rx_conn x)\<lparr>native := c'\<rparr>\<rparr>)"
proof -
  have "at_rest Q (x\<lparr>rx_conn := (rx_conn x)\<lparr>native := c'\<rparr>\<rparr>)" if b
    using rustls_record_lawsD(5) [OF b rd] rest that by (simp add: at_rest_def)
  moreover have "drop (in_used (rx_input x)) (in_bytes (rx_input x)) \<noteq> []" using below by simp
  with rd have "\<not> reads_on N" unfolding reads_on_def by blast
  ultimately show ?thesis using none by (simp add: loop_ok_def)
qed

text \<open>One turn of the loop, from a read of \<open>n\<close> bytes to the copy of what they completed.\<close>

lemma owned_turn:
  assumes laws: "recv_laws N I V content"
    and b: "b \<Longrightarrow> rustls_record_laws N Q \<and> rustls_writer_laws N V"
    and ok: "rx_ok I V content n0 x" "unread V (native (rx_conn x)) = []" and rest: "b \<Longrightarrow> at_rest Q x"
    and rd: "read_tls N (native (rx_conn x)) (drop (in_used (rx_input x)) (in_bytes (rx_input x))) =
      (Inr n, c')"
    and pr: "process N I ((rx_conn x)\<lparr>native := c'\<rparr>) = (q, conn)"
  obtains r y where "copy_plain N I (x\<lparr>rx_input := (rx_input x)\<lparr>in_used := in_used (rx_input x) + n\<rparr>,
      rx_conn := conn\<rparr>) = Some (r, y)"
    and "rx_ok I V content n0 y" and "rx_moves I V x y"
    and "is_err (result_and q r) \<Longrightarrow> loop_ok b N V Q (result_and q r) y"
    and "\<not> is_err (result_and q r) \<Longrightarrow> unread V (native (rx_conn y)) = [] \<and> (b \<longrightarrow> at_rest Q y)"
    and "in_used (rx_input y) = in_used (rx_input x) + n"
    and "length (in_bytes (rx_input y)) = length (in_bytes (rx_input x))"
proof -
  define x1 where "x1 = x\<lparr>rx_input := (rx_input x)\<lparr>in_used := in_used (rx_input x) + n\<rparr>,
    rx_conn := conn\<rparr>"
  note st = read_step [OF laws ok rd pr x1_def]
  have fits: "rx_fits Q x1" if b using st(4) b rest that by blast
  obtain r y where y: "copy_plain N I x1 = Some (r, y)" "rx_ok I V content n0 y"
    "rx_keeps I V x1 y" "r = Inr () \<Longrightarrow> unread V (native (rx_conn y)) = []"
    "b \<Longrightarrow> r = Inr () \<or> (\<exists>e. r = Inl (Io e))"
    "b \<Longrightarrow> r = Inr () \<Longrightarrow> settled Q (native (rx_conn x1)) \<Longrightarrow> at_rest Q y"
    using copy_plain_fits [OF laws, of b Q n0 x1] b st(1) fits by blast
  have q: "b \<Longrightarrow> q = Inr () \<or> (\<exists>e. q = Inl (Tls e)) \<or> (\<exists>e. q = Inl (Io e))"
    using process_spec(7) [OF laws pr] b by blast
  have err: "loop_ok b N V Q (result_and q r) y" if "is_err (result_and q r)"
    using q y(5) that by (cases q; cases r) (auto simp: loop_ok_def)
  have fine: "unread V (native (rx_conn y)) = [] \<and> (b \<longrightarrow> at_rest Q y)" if "\<not> is_err (result_and q r)"
  proof -
    from that have "\<not> is_err q" "r = Inr ()" by (cases r; simp)+
    with y(4,6) st(4) b rest show ?thesis by blast
  qed
  show thesis
    by (rule that [OF y(1) [unfolded x1_def] y(2) rx_moves_trans [OF st(2) rx_keeps_moves [OF y(3)]]
          err fine])
      (use rx_keepsD(1,2) [OF y(3)] in \<open>simp_all add: x1_def\<close>)
qed

lemma owned_loop_run:
  assumes laws: "recv_laws N I V content"
    and b: "b \<Longrightarrow> rustls_record_laws N Q \<and> rustls_writer_laws N V"
  shows "rx_ok I V content n0 x \<Longrightarrow> unread V (native (rx_conn x)) = [] \<Longrightarrow> (b \<longrightarrow> at_rest Q x) \<Longrightarrow>
    \<exists>r y. owned_loop N I x = Some (r, y) \<and> rx_ok I V content n0 y \<and> rx_moves I V x y \<and>
      loop_ok b N V Q r y"
proof (induction "length (in_bytes (rx_input x)) - in_used (rx_input x)" arbitrary: x
    rule: less_induct)
  case less
  note ok = less.prems(1)
  define go where "go \<longleftrightarrow> in_used (rx_input x) \<noteq> length (in_bytes (rx_input x)) \<and>
    \<not> peer_closed (rx_conn x) \<and> \<not> failed (rx_conn x)"
  note unf = owned_loop.simps [of N I x, unfolded Let_def, folded go_def]
  show ?case
  proof (cases go)
    case False
    then have "loop_ok b N V Q (Inr ()) x"
      using less.prems by (auto simp: loop_ok_def go_def)
    with ok show ?thesis by (subst unf) (simp add: False)
  next
    case True
    then have below: "in_used (rx_input x) < length (in_bytes (rx_input x))"
      using ok by (simp add: rx_ok_def go_def)
    obtain res c' where rd: "read_tls N (native (rx_conn x))
        (drop (in_used (rx_input x)) (in_bytes (rx_input x))) = (res, c')" by fastforce
    have stay: "rx_ok I V content n0 (x\<lparr>rx_conn := (rx_conn x)\<lparr>native := c'\<rparr>\<rparr>)"
      "rx_moves I V x (x\<lparr>rx_conn := (rx_conn x)\<lparr>native := c'\<rparr>\<rparr>)" "unread V c' = []"
      using ok rustls_in_lawsD(2) [OF recv_lawsD(1) [OF laws] rd]
        wire_producesD(3) [OF recv_lawsD(2) [OF laws] rd] less.prems(2)
      by (simp_all add: rx_ok_def delivered_in_def unread_def rx_moves_def rx_slots_def)
    consider (bad) e where "res = Inl e" | (zero) "res = Inr 0" | (more) n where "res = Inr n" "n \<noteq> 0"
      by (cases res) auto
    then show ?thesis
    proof cases
      case bad
      with stay show ?thesis by (subst unf) (simp add: True rd loop_ok_def)
    next
      case zero
      have "loop_ok b N V Q (Inr ()) (x\<lparr>rx_conn := (rx_conn x)\<lparr>native := c'\<rparr>\<rparr>)"
        using owned_zero [OF rd [unfolded zero] below stay(3)] b less.prems(3) by blast
      with stay(1,2) show ?thesis by (subst unf) (simp add: True rd zero)
    next
      case more
      note rd = rd [unfolded more(1)]
      obtain q conn where pr: "process N I ((rx_conn x)\<lparr>native := c'\<rparr>) = (q, conn)" by fastforce
      obtain r y where cp: "copy_plain N I (x\<lparr>rx_input := (rx_input x)\<lparr>in_used := in_used (rx_input x) + n\<rparr>,
          rx_conn := conn\<rparr>) = Some (r, y)"
        and y: "rx_ok I V content n0 y" "rx_moves I V x y"
          "is_err (result_and q r) \<Longrightarrow> loop_ok b N V Q (result_and q r) y"
          "\<not> is_err (result_and q r) \<Longrightarrow> unread V (native (rx_conn y)) = [] \<and> (b \<longrightarrow> at_rest Q y)"
          "in_used (rx_input y) = in_used (rx_input x) + n"
          "length (in_bytes (rx_input y)) = length (in_bytes (rx_input x))"
        by (rule owned_turn [OF laws b ok less.prems(2) _ rd pr]) (use less.prems(3) in blast)+
      have run: "owned_loop N I x = (if is_err (result_and q r) then Some (result_and q r, y)
          else owned_loop N I y)"
        by (subst unf) (simp add: True rd more(2) pr cp)
      have "length (in_bytes (rx_input y)) - in_used (rx_input y) <
          length (in_bytes (rx_input x)) - in_used (rx_input x)"
        using y(5,6) more(2) below by simp
      note next_turn = less.hyps [OF this y(1)]
      show ?thesis
      proof (cases "is_err (result_and q r)")
        case True
        with y(1-3) show ?thesis unfolding run if_P [OF True] by blast
      next
        case False
        with next_turn y(4) rx_moves_trans [OF y(2)] show ?thesis unfolding run if_not_P [OF False] by blast
      qed
    qed
  qed
qed

section \<open>One input\<close>

definition chunk_of :: "('r, 'k, 'f, 'g) ingress_ops \<Rightarrow> 'k option \<Rightarrow> bytes" where
  "chunk_of I chunk = (case chunk of None \<Rightarrow> [] | Some k \<Rightarrow> chunk_bytes I k)"

definition plain_of :: "plain \<Rightarrow> bytes" where
  "plain_of p = take (pl_len p) (pl_bytes p)"

lemma into_chunk_plain_of:
  "pl_len p \<le> length (pl_bytes p) \<Longrightarrow>
     into_chunk p = (if plain_of p = [] then None else Some (plain_of p))"
  by (auto simp: into_chunk_def plain_of_def)

text \<open>
  What \<open>owned\<close> promises: the plaintext handed out is what was authenticated, in order, and the rest
  is still in the reader; the staged chunk is never empty; the ciphertext not consumed is intact,
  and nothing of it is left behind by a success while the peer may still send; the slot is
  released or retained with the chunk; only an error raises \<open>failed\<close>.
\<close>

definition received ::
    "('c, 's) rustls \<Rightarrow> ('r, 'k, 'f, 'g) ingress_ops \<Rightarrow> 'c rustls_view \<Rightarrow> 'c connection \<Rightarrow> bytes \<Rightarrow>
     ('f, 'g) receive \<Rightarrow> 'k staged_output \<Rightarrow> plain \<Rightarrow> 'c connection \<Rightarrow> ('f, 'g) receive \<Rightarrow> bool" where
  "received N I V conn bs pool out pl conn' pool' \<longleftrightarrow>
     got V (native conn') = got V (native conn) @ chunk_of I (so_chunk out) @ plain_of pl @
       unread V (native conn') \<and>
     (so_control out = Inr () \<longrightarrow> unread V (native conn') = []) \<and>
     (\<forall>k. so_chunk out = Some k \<longrightarrow> chunk_bytes I k \<noteq> []) \<and>
     (\<exists>used. pl_len pl \<le> used \<and> used \<le> length bs \<and> length (pl_bytes pl) = length bs \<and>
        drop used (pl_bytes pl) = drop used bs \<and>
        (so_control out = Inr () \<and> reads_on N \<longrightarrow>
           used = length bs \<or> peer_closed conn' \<or> failed conn)) \<and>
     (so_released out = RelRetained \<longleftrightarrow> so_chunk out \<noteq> None) \<and>
     recv_available I pool' + of_bool (so_released out = RelRetained) =
       Suc (recv_available I pool) \<and>
     failed conn' = (failed conn \<or> is_err (so_control out)) \<and>
     local_closed conn' = local_closed conn \<and> latch_le conn conn' \<and>
     produces V (native conn) (native conn')"

lemma receivedD:
  assumes "received N I V conn bs pool out pl conn' pool'"
  shows "got V (native conn') = got V (native conn) @ chunk_of I (so_chunk out) @ plain_of pl @
       unread V (native conn')"
    and "so_control out = Inr () \<longrightarrow> unread V (native conn') = []"
    and "\<forall>k. so_chunk out = Some k \<longrightarrow> chunk_bytes I k \<noteq> []"
    and "so_released out = RelRetained \<longleftrightarrow> so_chunk out \<noteq> None"
    and "recv_available I pool' + of_bool (so_released out = RelRetained) =
       Suc (recv_available I pool)"
    and "failed conn' = (failed conn \<or> is_err (so_control out))"
    and "local_closed conn' = local_closed conn" and "latch_le conn conn'"
    and "produces V (native conn) (native conn')"
  using assms unfolding received_def by - (elim conjE, assumption)+

lemma owned_run:
  fixes I :: "('r, 'k, 'f, 'g) ingress_ops"
  assumes laws: "recv_laws N I V content" and fresh: "content recv = []"
    and drained: "unread V (native conn) = []"
    and b: "b \<Longrightarrow> rustls_record_laws N Q \<and> rustls_writer_laws N V \<and>
      recs Q (native conn) = [] \<and> settled Q (native conn)"
  shows "\<exists>out pl conn' pool'. owned N I conn bs recv pool = Some (out, pl, conn', pool') \<and>
    received N I V conn bs pool out pl conn' pool' \<and>
    (b \<longrightarrow> (so_control out = Inr () \<and> recs Q (native conn') = [] \<and> settled Q (native conn')) \<or>
       (\<exists>e. so_control out = Inl (Tls e)) \<or> (\<exists>e. so_control out = Inl (Io e)))"
proof -
  define x where "x = \<lparr> rx_conn = conn, rx_input = \<lparr> in_bytes = bs, in_used = 0, in_len = 0 \<rparr>,
         rx_staged = (StReady recv :: ('r, 'k) staged), rx_pool = pool \<rparr>"
  have "length (got V (native conn)) \<le> nread V (native conn)"
    using drained by (simp add: unread_def)
  then have ok: "rx_ok I V content (length (got V (native conn))) x"
    using fresh drained by (simp add: rx_ok_def x_def delivered_in_def staged_full_def)
  have rest: "b \<longrightarrow> at_rest Q x"
    using b by (simp add: at_rest_def x_def room_left_def)
  obtain r y where y: "owned_loop N I x = Some (r, y)"
    "rx_ok I V content (length (got V (native conn))) y" "rx_moves I V x y" "loop_ok b N V Q r y"
    using owned_loop_run [OF laws, of b Q "length (got V (native conn))" x] b ok drained rest
    by (auto simp: x_def)
  define conn' where "conn' = (rx_conn y)\<lparr>failed := failed (rx_conn y) \<or> is_err r\<rparr>"
  obtain chunk rel pool' where fin: "(case rx_staged y of
               StReady recv \<Rightarrow> (None, RelReleased, recv_return I recv (rx_pool y))
             | StRetained chunk \<Rightarrow> (Some chunk, RelRetained, rx_pool y)
             | StReleased \<Rightarrow> (None, RelReleased, rx_pool y)) = (chunk, rel, pool')"
    using prod_cases3 by blast
  define out where "out = \<lparr> so_chunk = chunk, so_control = r, so_released = rel \<rparr>"
  define pl where "pl = \<lparr> pl_bytes = in_bytes (rx_input y), pl_len = in_len (rx_input y) \<rparr>"
  have run: "owned N I conn bs recv pool = Some (out, pl, conn', pool')"
    by (simp add: owned_def x_def [symmetric] y(1) fin Let_def out_def pl_def conn'_def)
  have slots: "recv_available I (rx_pool y) + staged_slots (rx_staged y) =
      Suc (recv_available I pool)"
    using y(3) by (simp add: rx_moves_def rx_slots_def x_def)
  have rel: "(rel = RelRetained \<longleftrightarrow> chunk \<noteq> None) \<and>
      recv_available I pool' + of_bool (rel = RelRetained) = Suc (recv_available I pool) \<and>
      chunk_of I chunk = staged_bytes I (rx_staged y) \<and>
      (\<forall>k. chunk = Some k \<longrightarrow> chunk_bytes I k \<noteq> [])"
    using fin slots y(2) recv_return_available(1) [OF recv_lawsD(4) [OF laws]]
    by (cases "rx_staged y") (auto simp: chunk_of_def rx_ok_def staged_full_def)
  have native: "native conn' = native (rx_conn y)" by (simp add: conn'_def)
  obtain d where d: "got V (native (rx_conn y)) = got V (native conn) @ d"
    using y(3) by (auto simp: rx_moves_def x_def prefix_def)
  have "got V (native conn') = got V (native conn) @ chunk_of I chunk @ plain_of pl @
      unread V (native conn')"
    using y(2) d rel by (simp add: native rx_ok_def delivered_in_def plain_of_def pl_def)
  moreover have "pl_len pl \<le> in_used (rx_input y) \<and> in_used (rx_input y) \<le> length bs \<and>
      length (pl_bytes pl) = length bs \<and>
      drop (in_used (rx_input y)) (pl_bytes pl) = drop (in_used (rx_input y)) bs"
    using y(2,3) by (simp add: rx_ok_def rx_moves_def x_def pl_def)
  moreover have "latch_le conn conn'"
    using y(3) by (simp add: conn'_def rx_moves_def x_def) (simp add: latch_le_def)
  moreover have "failed (rx_conn y) = failed conn" "local_closed conn' = local_closed conn"
    "produces V (native conn) (native conn')" "peer_closed conn' =
     peer_closed (rx_conn y)"
    using y(3) by (simp_all add: rx_moves_def x_def conn'_def)
  moreover note y(4)
  ultimately have "received N I V conn bs pool out pl conn' pool'"
    unfolding received_def using rel
    by (auto simp: out_def native conn'_def loop_ok_def pl_def)
  moreover have "b \<longrightarrow> (r = Inr () \<and> recs Q (native conn') = [] \<and> settled Q (native conn')) \<or>
       (\<exists>e. r = Inl (Tls e)) \<or> (\<exists>e. r = Inl (Io e))"
    using y(4) by (auto simp: loop_ok_def at_rest_def native)
  ultimately show ?thesis using run by (auto simp: out_def)
qed

text \<open>
  C9. Receiving one input is exact. From a drained reader and an unused slot, \<open>owned\<close> always returns;
  the staged chunk followed by the input's prefix is exactly the plaintext authenticated from this
  input that has left the reader, in order and also where it ends in an error; on success nothing
  is left in the reader. The prefix written never passes the ciphertext consumed and the rest of
  the input is untouched; the slot is either free again or held by a chunk that is not empty; an
  error, and only an error, raises \<open>failed\<close>.
\<close>

theorem owned_exact:
  assumes "recv_laws N I V content" and "content recv = []" and "unread V (native conn) = []"
  shows "\<exists>out pl conn' pool'. owned N I conn bs recv pool = Some (out, pl, conn', pool') \<and>
    received N I V conn bs pool out pl conn' pool'"
  using owned_run [OF assms, of False undefined bs pool] by auto

text \<open>
  C10. One pool slot is always enough. Where the records of the connection hold at most
  \<open>MAX_PLAINTEXT\<close> bytes and only the first of them can have begun in earlier input, no read ends in
  \<open>InvalidBufferProgress\<close> or in a refused append: \<open>owned\<close> fails only with an error of the native
  connection, and a success leaves the record layer as the next read needs it.
\<close>

theorem owned_one_slot:
  assumes "recv_laws N I V content" and "content recv = []" and "unread V (native conn) = []"
    and "rustls_record_laws N Q" and "rustls_writer_laws N V"
    and "recs Q (native conn) = []" and "settled Q (native conn)"
  shows "\<exists>out pl conn' pool'. owned N I conn bs recv pool = Some (out, pl, conn', pool') \<and>
    ((so_control out = Inr () \<and> recs Q (native conn') = [] \<and> settled Q (native conn')) \<or>
     (\<exists>e. so_control out = Inl (Tls e)) \<or> (\<exists>e. so_control out = Inl (Io e)))"
  using owned_run [OF assms(1-3), of True Q bs pool] assms(4-7) by blast

text \<open>A record of six bytes of which five were held before, then one of two bytes.\<close>

definition ref_rx_conn :: "ref_conn connection" where
  "ref_rx_conn = \<lparr> native = ref_idle\<lparr>rc_held := [6, 1, 2, 3, 4, 5]\<rparr>, peer_closed = False,
      local_closed = False, failed = False, conn_lease = Lease 0 \<rparr>"

lemma ref_recv_laws: "recv_laws ref_rustls ref_ingress ref_view id"
  by (simp add: recv_laws_def ref_rustls_in_laws ref_rustls_wire_laws ref_check_law ref_span_laws
      ref_slot_laws)

lemma ref_rx_conn_rest:
  "unread ref_view (native ref_rx_conn) = []" "recs ref_records (native ref_rx_conn) = []"
  "settled ref_records (native ref_rx_conn)"
  by (simp_all add: ref_unread ref_rx_conn_def ref_records_def ref_queue_def ref_idle_def)

theorem owned_exact_witness:
  "\<exists>out pl conn' pool'.
     owned ref_rustls ref_ingress ref_rx_conn [6, 2, 7, 8] [] (Fixed 3) =
       Some (out, pl, conn', pool') \<and>
     got ref_view (native conn') =
       chunk_of ref_ingress (so_chunk out) @ plain_of pl @ unread ref_view (native conn') \<and>
     recv_available ref_ingress pool' + of_bool (so_released out = RelRetained) = 4"
  using owned_exact [OF ref_recv_laws _ ref_rx_conn_rest(1), of "[]" "[6, 2, 7, 8]" "Fixed 3"]
  by (fastforce simp: received_def ref_rx_conn_def ref_view_def ref_idle_def ref_queue_def
      ref_ingress_def)

theorem owned_one_slot_witness:
  "\<exists>out pl conn' pool'.
     owned (ref_rustls :: (ref_conn, unit) rustls) ref_ingress
       ref_rx_conn [6, 2, 7, 8] [] (Fixed 3) =
       Some (out, pl, conn', pool') \<and>
     so_control out \<noteq> Inl InvalidBufferProgress"
proof -
  obtain out pl conn' pool' where run: "owned (ref_rustls :: (ref_conn, unit) rustls) ref_ingress
       ref_rx_conn [6, 2, 7, 8] [] (Fixed 3) =
       Some (out, pl, conn', pool')"
    and ctl: "(so_control out = Inr () \<and> recs ref_records (native conn') = [] \<and>
        settled ref_records (native conn')) \<or>
      (\<exists>e. so_control out = Inl (Tls e)) \<or> (\<exists>e. so_control out = Inl (Io e))"
    using owned_one_slot [OF ref_recv_laws _ ref_rx_conn_rest(1) ref_rustls_record_laws
      ref_rustls_writer_laws ref_rx_conn_rest(2,3), of "[]" "[6, 2, 7, 8]" "Fixed 3"]
    by (metis id_apply)
  from ctl have "so_control out \<noteq> Inl InvalidBufferProgress" by auto
  with run show ?thesis by blast
qed

text \<open>On that input the first record is promoted and the second stays in the input's prefix.\<close>

lemma owned_promotes:
  "map_option (\<lambda>(out, pl, _). (so_chunk out, into_chunk pl, so_control out))
     (owned ref_rustls ref_ingress ref_rx_conn [6, 2, 7, 8] [] (Fixed 3)) =
   Some (Some [1, 2, 3, 4, 5, 6], Some [7, 8], Inr ())"
  by code_simp

end
