(* ===== verification/Source.thy ===== *)
theory Source
  imports Input_Correct
begin

text \<open>
  The plaintext prefix of a retained input (\<open>src/state/direct/source.rs\<close>): \<open>Cursor\<close> keeps the
  authenticated end and what is left before it, a \<open>Head\<close> is an exclusive reader of that rest whose
  progress reaches the cursor at \<open>commit\<close>. The contract of \<open>o3\<close>'s \<open>Consume\<close> trait, which the
  readers of this crate implement, is the locale \<open>consume\<close>.
\<close>

section \<open>Library parameters\<close>

datatype range_error = RangeError nat nat nat

text \<open>
  Views of byte slices (\<open>buffer::Cursor::try_get\<close>, \<open>buffer::Read::try_split\<close>), the cursor \<open>'h\<close> of a
  pooled chunk (\<open>bytes::Cursor\<close>), and the bounded lengths of \<open>dope\<close> (\<open>bounded::Usize::try_add\<close>,
  \<open>transfer::Len::prefix\<close>).
\<close>

record ('k, 'h) segment_ops =
  view_try_get :: "bytes \<Rightarrow> nat \<Rightarrow> nat \<Rightarrow> range_error + bytes"
  view_try_split :: "nat \<Rightarrow> bytes \<Rightarrow> consume_error + (bytes \<times> bytes)"
  chunk_is_empty :: "'k \<Rightarrow> bool"
  chunk_remaining :: "'k \<Rightarrow> nat"
  scur_new :: "'k \<Rightarrow> 'h"
  scur_view :: "'h \<Rightarrow> bytes"
  scur_try_get :: "'h \<Rightarrow> nat \<Rightarrow> nat \<Rightarrow> range_error + bytes"
  scur_try_consume :: "'h \<Rightarrow> nat \<Rightarrow> (consume_error + unit) \<times> 'h"
  scur_consume_max :: "'h \<Rightarrow> nat \<Rightarrow> nat \<times> 'h"
  scur_consume :: "'h \<Rightarrow> nat \<Rightarrow> 'h"
  scur_commit :: "'h \<Rightarrow> nat \<times> 'k"
  len_try_add :: "nat \<Rightarrow> nat \<Rightarrow> bounded_error + nat"
  xfer_prefix :: "nat \<Rightarrow> nat \<Rightarrow> nat"

text \<open>
  A view is cut in range and split where it is long enough; a chunk cursor shows the chunk, drops
  what is consumed, and commits the rest as the chunk with the count \<open>taken\<close>; a length adds up to
  \<open>cap\<close>.
\<close>

definition view_laws :: "('k, 'h) segment_ops \<Rightarrow> bool" where
  "view_laws G \<longleftrightarrow>
     (\<forall>xs i j. i \<le> j \<longrightarrow> j \<le> length xs \<longrightarrow> view_try_get G xs i j = Inr (take (j - i) (drop i xs))) \<and>
     (\<forall>xs i j. \<not> (i \<le> j \<and> j \<le> length xs) \<longrightarrow> is_err (view_try_get G xs i j)) \<and>
     (\<forall>n xs. n \<le> length xs \<longrightarrow> view_try_split G n xs = Inr (take n xs, drop n xs)) \<and>
     (\<forall>n xs. length xs < n \<longrightarrow> is_err (view_try_split G n xs))"

definition segment_laws ::
    "('r, 'k, 'f, 'g) ingress_ops \<Rightarrow> ('k, 'h) segment_ops \<Rightarrow> ('h \<Rightarrow> nat) \<Rightarrow> nat \<Rightarrow> bool" where
  "segment_laws I G taken cap \<longleftrightarrow>
     (\<forall>k. chunk_is_empty G k \<longleftrightarrow> chunk_bytes I k = []) \<and>
     (\<forall>k. chunk_remaining G k = length (chunk_bytes I k)) \<and>
     (\<forall>k. scur_view G (scur_new G k) = chunk_bytes I k \<and> taken (scur_new G k) = 0) \<and>
     (\<forall>h n. n \<le> length (scur_view G h) \<longrightarrow> (\<exists>h'. scur_try_consume G h n = (Inr (), h') \<and>
        scur_view G h' = drop n (scur_view G h) \<and> taken h' = taken h + n)) \<and>
     (\<forall>h n. length (scur_view G h) < n \<longrightarrow> (\<exists>e. scur_try_consume G h n = (Inl e, h))) \<and>
     (\<forall>h n. \<exists>h'. scur_consume_max G h n = (min n (length (scur_view G h)), h') \<and>
        scur_view G h' = drop n (scur_view G h) \<and>
        taken h' = taken h + min n (length (scur_view G h))) \<and>
     (\<forall>h n. n \<le> length (scur_view G h) \<longrightarrow>
        scur_view G (scur_consume G h n) = drop n (scur_view G h) \<and>
        taken (scur_consume G h n) = taken h + n) \<and>
     (\<forall>h. fst (scur_commit G h) = taken h \<and> chunk_bytes I (snd (scur_commit G h)) = scur_view G h) \<and>
     (\<forall>h i j. scur_try_get G h i j = view_try_get G (scur_view G h) i j) \<and>
     (\<forall>a b. a + b \<le> cap \<longrightarrow> len_try_add G a b = Inr (a + b)) \<and>
     (\<forall>a b. cap < a + b \<longrightarrow> is_err (len_try_add G a b)) \<and>
     (\<forall>n m. n \<le> m \<longrightarrow> xfer_prefix G n m = n)"

section \<open>State and operations\<close>

record cursor =
  cu_bytes :: bytes
  cu_end :: nat
  cu_len :: nat

record head =
  hd_cursor :: cursor
  hd_remaining :: nat

text \<open>The free function \<open>view\<close>: the last \<open>left\<close> bytes before the end.\<close>

definition source_view :: "cursor \<Rightarrow> nat \<Rightarrow> bytes" where
  "source_view c n = (let start = cu_end c - n in take (cu_end c - start) (drop start (cu_bytes c)))"

definition cursor_new :: "plain \<Rightarrow> cursor" where
  "cursor_new p = \<lparr> cu_bytes = pl_bytes p, cu_end = pl_len p, cu_len = pl_len p \<rparr>"

definition cursor_remaining :: "cursor \<Rightarrow> nat" where
  "cursor_remaining c = cu_len c"

definition cursor_view :: "cursor \<Rightarrow> bytes" where
  "cursor_view c = source_view c (cu_len c)"

definition cursor_as_slice :: "cursor \<Rightarrow> bytes" where
  "cursor_as_slice c = source_view c (cu_len c)"

definition cursor_head :: "cursor \<Rightarrow> head option" where
  "cursor_head c =
     (if cu_len c = 0 then None else Some \<lparr> hd_cursor = c, hd_remaining = cu_len c \<rparr>)"

definition head_remaining :: "head \<Rightarrow> nat" where
  "head_remaining h = hd_remaining h"

definition head_view :: "head \<Rightarrow> bytes" where
  "head_view h = source_view (hd_cursor h) (hd_remaining h)"

definition head_try_get ::
    "('k, 'h) segment_ops \<Rightarrow> head \<Rightarrow> nat \<Rightarrow> nat \<Rightarrow> range_error + bytes" where
  "head_try_get G h i j = view_try_get G (head_view h) i j"

definition head_left :: "head \<Rightarrow> nat" where
  "head_left h = hd_remaining h"

definition head_try_consume ::
    "('r, 'k, 'f, 'g) ingress_ops \<Rightarrow> head \<Rightarrow> nat \<Rightarrow> (consume_error + unit) \<times> head" where
  "head_try_consume I h amount =
     (case consume_check I amount (hd_remaining h) of
        Inl e \<Rightarrow> (Inl e, h)
      | Inr _ \<Rightarrow> (Inr (), h\<lparr>hd_remaining := hd_remaining h - amount\<rparr>))"

definition head_consume_max :: "head \<Rightarrow> nat \<Rightarrow> nat \<times> head" where
  "head_consume_max h m =
     (let amount = min m (hd_remaining h)
      in (amount, h\<lparr>hd_remaining := hd_remaining h - amount\<rparr>))"

text \<open>\<open>raw::Consume::consume\<close> of a prefix already admitted.\<close>

definition head_consume :: "head \<Rightarrow> nat \<Rightarrow> head" where
  "head_consume h n = h\<lparr>hd_remaining := hd_remaining h - n\<rparr>"

text \<open>\<open>commit\<close> writes the progress to the borrowed cursor and returns the count consumed.\<close>

definition head_commit :: "head \<Rightarrow> nat \<times> cursor" where
  "head_commit h =
     (cu_len (hd_cursor h) - hd_remaining h, (hd_cursor h)\<lparr>cu_len := hd_remaining h\<rparr>)"

section \<open>The contract of a consumer\<close>

text \<open>
  \<open>content\<close> is all that is left to read, \<open>window\<close> the part of it shown at once. Consuming within the
  window drops exactly that much, consuming past it is refused and changes nothing.
\<close>

locale consume =
  fixes inv :: "'h \<Rightarrow> bool"
    and content :: "'h \<Rightarrow> bytes"
    and window :: "'h \<Rightarrow> bytes"
    and remaining :: "'h \<Rightarrow> nat"
    and try_consume :: "'h \<Rightarrow> nat \<Rightarrow> (consume_error + unit) \<times> 'h"
    and consume_max :: "'h \<Rightarrow> nat \<Rightarrow> nat \<times> 'h"
  assumes window_prefix: "inv h \<Longrightarrow> prefix (window h) (content h)"
    and window_shows: "inv h \<Longrightarrow> content h \<noteq> [] \<Longrightarrow> window h \<noteq> []"
    and remaining_window: "inv h \<Longrightarrow> remaining h = length (window h)"
    and try_in: "inv h \<Longrightarrow> n \<le> length (window h) \<Longrightarrow>
        \<exists>h'. try_consume h n = (Inr (), h') \<and> inv h' \<and> content h' = drop n (content h)"
    and try_out: "inv h \<Longrightarrow> length (window h) < n \<Longrightarrow> \<exists>e. try_consume h n = (Inl e, h)"
    and max_drops: "inv h \<Longrightarrow>
        \<exists>h'. consume_max h m = (min m (length (window h)), h') \<and> inv h' \<and>
          content h' = drop (min m (length (window h))) (content h)"

text \<open>A client that consumes up to \<open>m\<close> bytes of the window at a time, for each \<open>m\<close> of a list.\<close>

fun read_out ::
    "('h \<Rightarrow> bytes) \<Rightarrow> ('h \<Rightarrow> nat \<Rightarrow> nat \<times> 'h) \<Rightarrow> nat list \<Rightarrow> 'h \<Rightarrow> bytes \<times> 'h" where
  "read_out window consume_max [] h = ([], h)"
| "read_out window consume_max (m # ms) h =
     (let (n, h') = consume_max h m; (xs, h'') = read_out window consume_max ms h'
      in (take n (window h) @ xs, h''))"

context consume
begin

lemma window_le: "inv h \<Longrightarrow> length (window h) \<le> length (content h)"
  using window_prefix prefix_length_le by blast

lemma window_take: "inv h \<Longrightarrow> n \<le> length (window h) \<Longrightarrow> take n (window h) = take n (content h)"
  using window_prefix [of h] by (auto elim!: prefixE)

text \<open>What is read and what is left are the content, whatever the sizes asked for.\<close>

lemma read_out_splits:
  "inv h \<Longrightarrow> read_out window consume_max ms h = (xs, h') \<Longrightarrow>
     inv h' \<and> content h = xs @ content h'"
proof (induction ms arbitrary: h xs h')
  case (Cons m ms)
  obtain h1 where h1: "consume_max h m = (min m (length (window h)), h1)" "inv h1"
    "content h1 = drop (min m (length (window h))) (content h)"
    using max_drops [OF Cons.prems(1)] by blast
  obtain ys h2 where ys: "read_out window consume_max ms h1 = (ys, h2)" by fastforce
  have "take (min m (length (window h))) (window h) = take (min m (length (window h))) (content h)"
    by (rule window_take [OF Cons.prems(1)]) simp
  with Cons.IH [OF h1(2) ys] Cons.prems(2) h1 ys show ?case
    by (auto simp: Let_def) (metis append_take_drop_id append.assoc)
qed simp

text \<open>Enough rounds that each ask for something read everything.\<close>

lemma read_out_all:
  "inv h \<Longrightarrow> 0 \<notin> set ms \<Longrightarrow> length (content h) \<le> length ms \<Longrightarrow>
     fst (read_out window consume_max ms h) = content h"
proof (induction ms arbitrary: h)
  case (Cons m ms)
  obtain h1 where h1: "consume_max h m = (min m (length (window h)), h1)" "inv h1"
    "content h1 = drop (min m (length (window h))) (content h)"
    using max_drops [OF Cons.prems(1)] by blast
  have "length (content h1) \<le> length ms"
  proof (cases "content h = []")
    case False
    then have "0 < min m (length (window h))"
      using window_shows [OF Cons.prems(1)] Cons.prems(2) by simp
    moreover have "length (content h1) = length (content h) - min m (length (window h))"
      using h1(3) by simp
    ultimately show ?thesis using Cons.prems(3) unfolding length_Cons by linarith
  qed (simp add: h1)
  from Cons.IH [OF h1(2) _ this] Cons.prems(2)
  have "fst (read_out window consume_max ms h1) = content h1" by simp
  moreover have "take (min m (length (window h))) (window h) =
      take (min m (length (window h))) (content h)"
    by (rule window_take [OF Cons.prems(1)]) simp
  ultimately show ?case
    using h1 append_take_drop_id [of "min m (length (window h))" "content h"]
    by (auto simp: Let_def simp del: append_take_drop_id split: prod.splits)
qed simp

end

section \<open>A head is a consumer\<close>

definition cursor_ok :: "cursor \<Rightarrow> bool" where
  "cursor_ok c \<longleftrightarrow> cu_len c \<le> cu_end c \<and> cu_end c \<le> length (cu_bytes c)"

definition head_ok :: "head \<Rightarrow> bool" where
  "head_ok h \<longleftrightarrow> cursor_ok (hd_cursor h) \<and> hd_remaining h \<le> cu_len (hd_cursor h)"

lemma length_source_view:
  "n \<le> cu_end c \<Longrightarrow> cu_end c \<le> length (cu_bytes c) \<Longrightarrow> length (source_view c n) = n"
  by (simp add: source_view_def)

lemma source_view_drop:
  "n \<le> m \<Longrightarrow> m \<le> cu_end c \<Longrightarrow> cu_end c \<le> length (cu_bytes c) \<Longrightarrow>
     source_view c (m - n) = drop n (source_view c m)"
  by (simp add: source_view_def drop_take add.commute)

lemma source_view_len [simp]: "source_view (c\<lparr>cu_len := k\<rparr>) n = source_view c n"
  by (simp add: source_view_def)

lemma length_head_view: "head_ok h \<Longrightarrow> length (head_view h) = hd_remaining h"
  by (simp add: head_view_def head_ok_def cursor_ok_def length_source_view)

lemma head_drop:
  "head_ok h \<Longrightarrow> n \<le> hd_remaining h \<Longrightarrow>
     head_ok (h\<lparr>hd_remaining := hd_remaining h - n\<rparr>) \<and>
     head_view (h\<lparr>hd_remaining := hd_remaining h - n\<rparr>) = drop n (head_view h)"
  by (auto simp: head_ok_def head_view_def cursor_ok_def intro: source_view_drop)

definition head_inv :: "('r, 'k, 'f, 'g) ingress_ops \<Rightarrow> head \<Rightarrow> bool" where
  "head_inv I h \<longleftrightarrow> check_law I \<and> head_ok h"

interpretation source_head: consume "head_inv I" head_view head_view head_remaining
  "head_try_consume I" head_consume_max
proof
  fix h and n
  assume inv: "head_inv I h"
  then have ok: "head_ok h" and law: "check_law I" by (simp_all add: head_inv_def)
  show "head_remaining h = length (head_view h)"
    by (simp add: length_head_view [OF ok] head_remaining_def)
  show "\<exists>h'. head_try_consume I h n = (Inr (), h') \<and> head_inv I h' \<and>
      head_view h' = drop n (head_view h)" if "n \<le> length (head_view h)"
    using head_drop [OF ok, of n] that length_head_view [OF ok] law
    by (simp add: head_try_consume_def consume_check_ok head_inv_def)
  show "\<exists>e. head_try_consume I h n = (Inl e, h)" if "length (head_view h) < n"
    using consume_check_bad [OF law, of "hd_remaining h" n] that length_head_view [OF ok]
    by (auto simp: head_try_consume_def)
  show "\<exists>h'. head_consume_max h n = (min n (length (head_view h)), h') \<and> head_inv I h' \<and>
      head_view h' = drop (min n (length (head_view h))) (head_view h)"
    using head_drop [OF ok, of "min n (hd_remaining h)"] length_head_view [OF ok] law
    by (simp add: head_consume_max_def Let_def head_inv_def)
qed simp_all

text \<open>A commit leaves the cursor at what the head still showed.\<close>

lemma head_commit_ok:
  assumes "head_ok h" and "head_commit h = (n, c)"
  shows "cursor_ok c" and "cursor_view c = head_view h"
    and "n + cu_len c = cu_len (hd_cursor h)"
  using assms by (auto simp: head_commit_def head_ok_def cursor_ok_def cursor_view_def head_view_def)

lemma cursor_head_ok:
  "cursor_ok c \<Longrightarrow> cursor_head c = Some h \<Longrightarrow>
     head_ok h \<and> hd_cursor h = c \<and> head_view h = cursor_view c \<and> hd_remaining h = cu_len c"
  by (auto simp: cursor_head_def head_ok_def head_view_def cursor_view_def split: if_splits)

lemma length_cursor_view: "cursor_ok c \<Longrightarrow> length (cursor_view c) = cu_len c"
  by (simp add: cursor_view_def cursor_ok_def length_source_view)

lemma cursor_head_None: "cursor_ok c \<Longrightarrow> cursor_head c = None \<longleftrightarrow> cursor_view c = []"
  using length_cursor_view [of c] by (auto simp: cursor_head_def)

lemma cursor_new_ok:
  "pl_len p \<le> length (pl_bytes p) \<Longrightarrow> cursor_ok (cursor_new p) \<and> cursor_view (cursor_new p) = plain_of p"
  by (simp add: cursor_new_def cursor_ok_def cursor_view_def source_view_def plain_of_def)

end
