(* ===== verification/Stream.thy ===== *)
theory Stream
  imports Source
begin

text \<open>
  The retained stream of one input (\<open>src/tls/receive/stream.rs\<close>, \<open>src/tls/receive/raw.rs\<close>): a pooled
  chunk, then the input's plaintext prefix, read through one head at a time. A head borrows its
  source and the stream's length; \<open>commit\<close> ends the loan, so the model writes its result back with
  \<open>ret_put\<close>, and a head dropped before leaves the stream as it was.
\<close>

section \<open>State\<close>

record 'k retained =
  ret_staged :: "'k option"
  ret_plain :: "cursor option"
  ret_left :: nat

datatype backing = BackEmpty | BackStaged bytes | BackPlain bytes

record retention =
  rt_backing :: backing

datatype 'h head_backing = HeadStaged 'h | HeadPlain head

record 'h current =
  cr_backing :: "'h head_backing"
  cr_left :: nat

section \<open>Views\<close>

definition retention_as_slice :: "retention \<Rightarrow> bytes" where
  "retention_as_slice v =
     (case rt_backing v of BackEmpty \<Rightarrow> [] | BackStaged plan \<Rightarrow> plan | BackPlain plan \<Rightarrow> plan)"

definition retention_try_split ::
    "('k, 'h) segment_ops \<Rightarrow> nat \<Rightarrow> retention \<Rightarrow> consume_error + (bytes \<times> retention)" where
  "retention_try_split G n v =
     (case rt_backing v of
        BackEmpty \<Rightarrow>
          (case view_try_split G n [] of
             Inl e \<Rightarrow> Inl e
           | Inr (front, _) \<Rightarrow> Inr (front, \<lparr> rt_backing = BackEmpty \<rparr>))
      | BackStaged plan \<Rightarrow>
          (case view_try_split G n plan of
             Inl e \<Rightarrow> Inl e
           | Inr (front, tail) \<Rightarrow> Inr (front, \<lparr> rt_backing = BackStaged tail \<rparr>))
      | BackPlain plan \<Rightarrow>
          (case view_try_split G n plan of
             Inl e \<Rightarrow> Inl e
           | Inr (front, tail) \<Rightarrow> Inr (front, \<lparr> rt_backing = BackPlain tail \<rparr>)))"

section \<open>The current head\<close>

definition current_staged :: "('k, 'h) segment_ops \<Rightarrow> 'k \<Rightarrow> nat \<Rightarrow> 'h current" where
  "current_staged G staged n = \<lparr> cr_backing = HeadStaged (scur_new G staged), cr_left = n \<rparr>"

definition current_plain :: "head \<Rightarrow> nat \<Rightarrow> 'h current" where
  "current_plain h n = \<lparr> cr_backing = HeadPlain h, cr_left = n \<rparr>"

definition current_view :: "('k, 'h) segment_ops \<Rightarrow> 'h current \<Rightarrow> retention" where
  "current_view G c =
     \<lparr> rt_backing = (case cr_backing c of
         HeadStaged h \<Rightarrow> BackStaged (scur_view G h)
       | HeadPlain h \<Rightarrow> BackPlain (head_view h)) \<rparr>"

definition current_slice :: "('k, 'h) segment_ops \<Rightarrow> 'h current \<Rightarrow> bytes" where
  "current_slice G c = retention_as_slice (current_view G c)"

definition current_remaining :: "('k, 'h) segment_ops \<Rightarrow> 'h current \<Rightarrow> nat" where
  "current_remaining G c = length (current_slice G c)"

definition current_try_get ::
    "('k, 'h) segment_ops \<Rightarrow> 'h current \<Rightarrow> nat \<Rightarrow> nat \<Rightarrow> range_error + retention" where
  "current_try_get G c i j =
     (case cr_backing c of
        HeadStaged h \<Rightarrow>
          (case scur_try_get G h i j of
             Inl e \<Rightarrow> Inl e | Inr xs \<Rightarrow> Inr \<lparr> rt_backing = BackStaged xs \<rparr>)
      | HeadPlain h \<Rightarrow>
          (case head_try_get G h i j of
             Inl e \<Rightarrow> Inl e | Inr xs \<Rightarrow> Inr \<lparr> rt_backing = BackPlain xs \<rparr>))"

definition current_left :: "('k, 'h) segment_ops \<Rightarrow> 'h current \<Rightarrow> nat" where
  "current_left G c = length (current_slice G c)"

definition current_try_consume ::
    "('r, 'k, 'f, 'g) ingress_ops \<Rightarrow> ('k, 'h) segment_ops \<Rightarrow> 'h current \<Rightarrow> nat \<Rightarrow>
     (consume_error + unit) \<times> 'h current" where
  "current_try_consume I G c amount =
     (case cr_backing c of
        HeadStaged h \<Rightarrow>
          let (r, h') = scur_try_consume G h amount in (r, c\<lparr>cr_backing := HeadStaged h'\<rparr>)
      | HeadPlain h \<Rightarrow>
          let (r, h') = head_try_consume I h amount in (r, c\<lparr>cr_backing := HeadPlain h'\<rparr>))"

definition current_consume_max ::
    "('k, 'h) segment_ops \<Rightarrow> 'h current \<Rightarrow> nat \<Rightarrow> nat \<times> 'h current" where
  "current_consume_max G c m =
     (case cr_backing c of
        HeadStaged h \<Rightarrow>
          let (n, h') = scur_consume_max G h m in (n, c\<lparr>cr_backing := HeadStaged h'\<rparr>)
      | HeadPlain h \<Rightarrow>
          let (n, h') = head_consume_max h m in (n, c\<lparr>cr_backing := HeadPlain h'\<rparr>))"

definition current_consume :: "('k, 'h) segment_ops \<Rightarrow> 'h current \<Rightarrow> nat \<Rightarrow> 'h current" where
  "current_consume G c n =
     (case cr_backing c of
        HeadStaged h \<Rightarrow> c\<lparr>cr_backing := HeadStaged (scur_consume G h n)\<rparr>
      | HeadPlain h \<Rightarrow> c\<lparr>cr_backing := HeadPlain (head_consume h n)\<rparr>)"

text \<open>\<open>commit\<close>: the count consumed, the source given back, and the length left.\<close>

datatype 'k source = SrcStaged 'k | SrcPlain cursor

definition current_commit ::
    "('k, 'h) segment_ops \<Rightarrow> 'h current \<Rightarrow> nat \<times> 'k source \<times> nat" where
  "current_commit G c =
     (let (consumed, src) =
        (case cr_backing c of
           HeadStaged h \<Rightarrow> let (n, k) = scur_commit G h in (n, SrcStaged k)
         | HeadPlain h \<Rightarrow> let (n, cu) = head_commit h in (n, SrcPlain cu))
      in (consumed, src, xfer_prefix G (cr_left c - consumed) (cr_left c)))"

section \<open>The stream\<close>

definition retained_try_new ::
    "('k, 'h) segment_ops \<Rightarrow> 'k option \<Rightarrow> cursor \<Rightarrow> error + 'k retained option" where
  "retained_try_new G staged plain =
     (let staged' = (case staged of Some k \<Rightarrow> if chunk_is_empty G k then None else Some k
                     | None \<Rightarrow> None);
          body = cursor_remaining plain;
          plain' = (if body \<noteq> 0 then Some plain else None);
          stage = (case staged' of None \<Rightarrow> 0 | Some k \<Rightarrow> chunk_remaining G k)
      in case len_try_add G 0 stage of
           Inl e \<Rightarrow> Inl (StagedErr e)
         | Inr a \<Rightarrow>
             (case len_try_add G a body of
                Inl e \<Rightarrow> Inl (RetainedErr e)
              | Inr len \<Rightarrow>
                  if len = 0 then Inr None
                  else Inr (Some \<lparr> ret_staged = staged', ret_plain = plain', ret_left = len \<rparr>)))"

text \<open>The staged chunk while it has bytes left.\<close>

definition ret_staged_head :: "('k, 'h) segment_ops \<Rightarrow> 'k retained \<Rightarrow> 'k option" where
  "ret_staged_head G r =
     (case ret_staged r of Some k \<Rightarrow> if chunk_is_empty G k then None else Some k | None \<Rightarrow> None)"

definition ret_slice ::
    "('r, 'k, 'f, 'g) ingress_ops \<Rightarrow> ('k, 'h) segment_ops \<Rightarrow> 'k retained \<Rightarrow> bytes" where
  "ret_slice I G r =
     (case ret_staged_head G r of
        Some k \<Rightarrow> chunk_bytes I k
      | None \<Rightarrow> (case ret_plain r of None \<Rightarrow> [] | Some c \<Rightarrow> cursor_as_slice c))"

definition ret_view ::
    "('r, 'k, 'f, 'g) ingress_ops \<Rightarrow> ('k, 'h) segment_ops \<Rightarrow> 'k retained \<Rightarrow> retention" where
  "ret_view I G r =
     \<lparr> rt_backing = (case ret_staged_head G r of
         Some k \<Rightarrow> BackStaged (chunk_bytes I k)
       | None \<Rightarrow> (case ret_plain r of Some c \<Rightarrow> BackPlain (cursor_view c) | None \<Rightarrow> BackEmpty)) \<rparr>"

definition ret_try_get ::
    "('r, 'k, 'f, 'g) ingress_ops \<Rightarrow> ('k, 'h) segment_ops \<Rightarrow> 'k retained \<Rightarrow> nat \<Rightarrow> nat \<Rightarrow>
     range_error + retention" where
  "ret_try_get I G r i j =
     (case rt_backing (ret_view I G r) of
        BackStaged v \<Rightarrow>
          (case view_try_get G v i j of
             Inl e \<Rightarrow> Inl e | Inr xs \<Rightarrow> Inr \<lparr> rt_backing = BackStaged xs \<rparr>)
      | BackPlain v \<Rightarrow>
          (case view_try_get G v i j of
             Inl e \<Rightarrow> Inl e | Inr xs \<Rightarrow> Inr \<lparr> rt_backing = BackPlain xs \<rparr>)
      | BackEmpty \<Rightarrow>
          (case view_try_get G [] i j of
             Inl e \<Rightarrow> Inl e | Inr _ \<Rightarrow> Inr \<lparr> rt_backing = BackEmpty \<rparr>))"

text \<open>\<open>Source::remaining\<close> is the length of the whole stream, \<open>Consume::remaining\<close> that of its head.\<close>

definition ret_remaining :: "'k retained \<Rightarrow> nat" where
  "ret_remaining r = ret_left r"

definition ret_head_remaining ::
    "('r, 'k, 'f, 'g) ingress_ops \<Rightarrow> ('k, 'h) segment_ops \<Rightarrow> 'k retained \<Rightarrow> nat" where
  "ret_head_remaining I G r = length (ret_slice I G r)"

definition ret_next :: "('k, 'h) segment_ops \<Rightarrow> 'k retained \<Rightarrow> 'h current option" where
  "ret_next G r =
     (case ret_staged_head G r of
        Some k \<Rightarrow> Some (current_staged G k (ret_left r))
      | None \<Rightarrow>
          (case ret_plain r of
             None \<Rightarrow> None
           | Some c \<Rightarrow>
               (case cursor_head c of
                  None \<Rightarrow> None
                | Some h \<Rightarrow> Some (current_plain h (ret_left r)))))"

definition ret_put :: "'k source \<Rightarrow> nat \<Rightarrow> 'k retained \<Rightarrow> 'k retained" where
  "ret_put src n r =
     (case src of
        SrcStaged k \<Rightarrow> r\<lparr>ret_staged := Some k, ret_left := n\<rparr>
      | SrcPlain c \<Rightarrow> r\<lparr>ret_plain := Some c, ret_left := n\<rparr>)"

definition ret_commit ::
    "('k, 'h) segment_ops \<Rightarrow> 'h current \<Rightarrow> 'k retained \<Rightarrow> 'k retained" where
  "ret_commit G c r = (let (_, src, n) = current_commit G c in ret_put src n r)"

definition ret_try_consume ::
    "('r, 'k, 'f, 'g) ingress_ops \<Rightarrow> ('k, 'h) segment_ops \<Rightarrow> 'k retained \<Rightarrow> nat \<Rightarrow>
     (consume_error + unit) \<times> 'k retained" where
  "ret_try_consume I G r amount =
     (case ret_next G r of
        None \<Rightarrow> (consume_check I amount 0, r)
      | Some c \<Rightarrow>
          (case current_try_consume I G c amount of
             (Inl e, _) \<Rightarrow> (Inl e, r)
           | (Inr _, c') \<Rightarrow> (Inr (), ret_commit G c' r)))"

definition ret_consume_max ::
    "('k, 'h) segment_ops \<Rightarrow> 'k retained \<Rightarrow> nat \<Rightarrow> nat \<times> 'k retained" where
  "ret_consume_max G r m =
     (case ret_next G r of
        None \<Rightarrow> (0, r)
      | Some c \<Rightarrow> let (amount, c') = current_consume_max G c m in (amount, ret_commit G c' r))"

text \<open>\<open>raw::Consume::consume\<close>\<close>

definition ret_consume :: "('k, 'h) segment_ops \<Rightarrow> 'k retained \<Rightarrow> nat \<Rightarrow> 'k retained" where
  "ret_consume G r n =
     (case ret_next G r of
        None \<Rightarrow> r
      | Some c \<Rightarrow> ret_commit G (current_consume G c n) r)"

section \<open>Retention\<close>

text \<open>
  \<open>hold::raw::Retain\<close> at one budget: how the libraries copy, charge and retain a view of pooled
  bytes, a view of provided bytes, and nothing at all.
\<close>

record ('o, 'c, 't, 'e) retain_ops =
  owned_default :: 'o
  owned_from_slice :: "bytes \<Rightarrow> 'e + 'o"
  charge_none :: 'c
  staged_charge :: "bytes \<Rightarrow> 'c"
  shared_new :: 't
  staged_try_own :: "bytes \<Rightarrow> 'e + 't"
  plain_try_copy :: "bytes \<Rightarrow> 'e + 'o"
  plain_charge :: "bytes \<Rightarrow> 'c"
  plain_try_retain :: "bytes \<Rightarrow> 'e + 't"

definition head_try_copy :: "('o, 'c, 't, 'e) retain_ops \<Rightarrow> bytes \<Rightarrow> 'e + 'o" where
  "head_try_copy P plan = plain_try_copy P plan"

definition head_charge :: "('o, 'c, 't, 'e) retain_ops \<Rightarrow> bytes \<Rightarrow> 'c" where
  "head_charge P plan = plain_charge P plan"

definition head_try_retain :: "('o, 'c, 't, 'e) retain_ops \<Rightarrow> bytes \<Rightarrow> 'e + 't" where
  "head_try_retain P plan = plain_try_retain P plan"

definition current_try_copy :: "('o, 'c, 't, 'e) retain_ops \<Rightarrow> retention \<Rightarrow> 'e + 'o" where
  "current_try_copy P plan =
     (case rt_backing plan of
        BackEmpty \<Rightarrow> Inr (owned_default P)
      | BackStaged plan \<Rightarrow> owned_from_slice P plan
      | BackPlain plan \<Rightarrow> plain_try_copy P plan)"

definition current_charge :: "('o, 'c, 't, 'e) retain_ops \<Rightarrow> retention \<Rightarrow> 'c" where
  "current_charge P plan =
     (case rt_backing plan of
        BackEmpty \<Rightarrow> charge_none P
      | BackStaged plan \<Rightarrow> staged_charge P plan
      | BackPlain plan \<Rightarrow> plain_charge P plan)"

definition current_try_retain :: "('o, 'c, 't, 'e) retain_ops \<Rightarrow> retention \<Rightarrow> 'e + 't" where
  "current_try_retain P plan =
     (case rt_backing plan of
        BackEmpty \<Rightarrow> Inr (shared_new P)
      | BackStaged plan \<Rightarrow> staged_try_own P plan
      | BackPlain plan \<Rightarrow> plain_try_retain P plan)"

definition ret_try_copy :: "('o, 'c, 't, 'e) retain_ops \<Rightarrow> retention \<Rightarrow> 'e + 'o" where
  "ret_try_copy P plan = current_try_copy P plan"

definition ret_charge :: "('o, 'c, 't, 'e) retain_ops \<Rightarrow> retention \<Rightarrow> 'c" where
  "ret_charge P plan = current_charge P plan"

definition ret_try_retain :: "('o, 'c, 't, 'e) retain_ops \<Rightarrow> retention \<Rightarrow> 'e + 't" where
  "ret_try_retain P plan = current_try_retain P plan"

section \<open>The batch of one read\<close>

record 'k batch =
  bt_owned :: "'k option"
  bt_plain :: "bytes option"

datatype 'k item = ItemOwned 'k | ItemBorrowed bytes

definition MAX_ITEMS :: nat where
  "MAX_ITEMS = 1 + 1"

definition batch_len :: "'k batch \<Rightarrow> nat" where
  "batch_len b = of_bool (bt_owned b \<noteq> None) + of_bool (bt_plain b \<noteq> None)"

definition batch_next :: "'k batch \<Rightarrow> 'k item option \<times> 'k batch" where
  "batch_next b =
     (case bt_owned b of
        Some k \<Rightarrow> (Some (ItemOwned k), b\<lparr>bt_owned := None\<rparr>)
      | None \<Rightarrow>
          (case bt_plain b of
             None \<Rightarrow> (None, b)
           | Some xs \<Rightarrow> (Some (ItemBorrowed xs), b\<lparr>bt_plain := None\<rparr>)))"

text \<open>The driver's iteration over a batch.\<close>

function batch_items :: "'k batch \<Rightarrow> 'k item list" where
  "batch_items b =
     (case batch_next b of (None, _) \<Rightarrow> [] | (Some item, b') \<Rightarrow> item # batch_items b')"
  by auto

termination
  by (relation "measure batch_len") (auto simp: batch_next_def batch_len_def split: option.splits)

declare batch_items.simps [simp del]

end
