(* ===== verification/Stream_Correct.thy ===== *)
theory Stream_Correct
  imports Stream
begin

text \<open>
  The retained stream is a queue of bytes: what it holds is the staged chunk followed by the
  input's prefix, its length is exact, and every consumer operation drops from the front. The
  locale \<open>consume\<close> is interpreted on the current head and on the stream.
\<close>

section \<open>Laws and invariants\<close>

definition stream_laws ::
    "('r, 'k, 'f, 'g) ingress_ops \<Rightarrow> ('k, 'h) segment_ops \<Rightarrow> ('h \<Rightarrow> nat) \<Rightarrow> nat \<Rightarrow> bool" where
  "stream_laws I G taken cap \<longleftrightarrow> check_law I \<and> view_laws G \<and> segment_laws I G taken cap"

lemma stream_lawsD:
  assumes "stream_laws I G taken cap"
  shows "check_law I" "view_laws G"
    and "chunk_is_empty G k \<longleftrightarrow> chunk_bytes I k = []"
    and "chunk_remaining G k = length (chunk_bytes I k)"
    and "scur_view G (scur_new G k) = chunk_bytes I k" and "taken (scur_new G k) = 0"
    and "n \<le> length (scur_view G h) \<Longrightarrow> \<exists>h'. scur_try_consume G h n = (Inr (), h') \<and>
        scur_view G h' = drop n (scur_view G h) \<and> taken h' = taken h + n"
    and "length (scur_view G h) < n \<Longrightarrow> \<exists>e. scur_try_consume G h n = (Inl e, h)"
    and "\<exists>h'. scur_consume_max G h n = (min n (length (scur_view G h)), h') \<and>
        scur_view G h' = drop n (scur_view G h) \<and>
        taken h' = taken h + min n (length (scur_view G h))"
    and "n \<le> length (scur_view G h) \<Longrightarrow> scur_view G (scur_consume G h n) = drop n (scur_view G h)"
    and "n \<le> length (scur_view G h) \<Longrightarrow> taken (scur_consume G h n) = taken h + n"
    and "fst (scur_commit G h) = taken h" "chunk_bytes I (snd (scur_commit G h)) = scur_view G h"
    and "scur_try_get G h i j = view_try_get G (scur_view G h) i j"
    and "a + b \<le> cap \<Longrightarrow> len_try_add G a b = Inr (a + b)"
    and "cap < a + b \<Longrightarrow> is_err (len_try_add G a b)"
    and "m \<le> m' \<Longrightarrow> xfer_prefix G m m' = m"
  using assms unfolding stream_laws_def segment_laws_def by (elim conjE, assumption | meson)+

definition opt_cursor :: "cursor option \<Rightarrow> bytes" where
  "opt_cursor c = (case c of None \<Rightarrow> [] | Some c \<Rightarrow> cursor_view c)"

text \<open>The stream as a queue of bytes.\<close>

definition ret_content :: "('r, 'k, 'f, 'g) ingress_ops \<Rightarrow> 'k retained \<Rightarrow> bytes" where
  "ret_content I r = chunk_of I (ret_staged r) @ opt_cursor (ret_plain r)"

definition ret_ok :: "('r, 'k, 'f, 'g) ingress_ops \<Rightarrow> 'k retained \<Rightarrow> bool" where
  "ret_ok I r \<longleftrightarrow> ret_left r = length (ret_content I r) \<and>
     (\<forall>c. ret_plain r = Some c \<longrightarrow> cursor_ok c)"

definition current_inv ::
    "('r, 'k, 'f, 'g) ingress_ops \<Rightarrow> ('k, 'h) segment_ops \<Rightarrow> ('h \<Rightarrow> nat) \<Rightarrow> nat \<Rightarrow> 'h current \<Rightarrow> bool" where
  "current_inv I G taken cap c \<longleftrightarrow> stream_laws I G taken cap \<and>
     (\<forall>h. cr_backing c = HeadPlain h \<longrightarrow> head_ok h)"

definition ret_inv ::
    "('r, 'k, 'f, 'g) ingress_ops \<Rightarrow> ('k, 'h) segment_ops \<Rightarrow> ('h \<Rightarrow> nat) \<Rightarrow> nat \<Rightarrow> 'k retained \<Rightarrow> bool" where
  "ret_inv I G taken cap r \<longleftrightarrow> stream_laws I G taken cap \<and> ret_ok I r"

section \<open>The current head\<close>

text \<open>The head after \<open>n\<close> more bytes were consumed of it.\<close>

definition current_moved ::
    "('k, 'h) segment_ops \<Rightarrow> ('h \<Rightarrow> nat) \<Rightarrow> nat \<Rightarrow> 'h current \<Rightarrow> 'h current \<Rightarrow> bool" where
  "current_moved G taken n c c' \<longleftrightarrow> cr_left c' = cr_left c \<and>
     (case (cr_backing c, cr_backing c') of
        (HeadStaged a, HeadStaged b) \<Rightarrow>
          n \<le> length (scur_view G a) \<and> scur_view G b = drop n (scur_view G a) \<and>
          taken b = taken a + n
      | (HeadPlain a, HeadPlain b) \<Rightarrow>
          n \<le> hd_remaining a \<and> b = a\<lparr>hd_remaining := hd_remaining a - n\<rparr>
      | _ \<Rightarrow> False)"

lemma current_slice_simps:
  "cr_backing c = HeadStaged h \<Longrightarrow> current_slice G c = scur_view G h"
  "cr_backing c = HeadPlain p \<Longrightarrow> current_slice G c = head_view p"
  by (simp_all add: current_slice_def current_view_def retention_as_slice_def)

lemma moved_slice:
  assumes "current_inv I G taken cap c" and "current_moved G taken n c c'"
  shows "current_inv I G taken cap c'" and "current_slice G c' = drop n (current_slice G c)"
    and "n \<le> length (current_slice G c)"
proof -
  have "current_inv I G taken cap c' \<and> current_slice G c' = drop n (current_slice G c) \<and>
      n \<le> length (current_slice G c)"
  proof (cases "cr_backing c")
    case (HeadStaged h)
    with assms show ?thesis
      by (auto simp: current_moved_def current_inv_def current_slice_simps
          split: head_backing.splits)
  next
    case (HeadPlain p)
    with assms have ok: "head_ok p" by (simp add: current_inv_def)
    from HeadPlain assms have c': "cr_backing c' = HeadPlain (p\<lparr>hd_remaining := hd_remaining p - n\<rparr>)"
      "n \<le> hd_remaining p"
      by (auto simp: current_moved_def split: head_backing.splits)
    with head_drop [OF ok c'(2)] length_head_view [OF ok] HeadPlain assms(1) show ?thesis
      by (simp add: current_inv_def current_slice_simps)
  qed
  then show "current_inv I G taken cap c'" "current_slice G c' = drop n (current_slice G c)"
    "n \<le> length (current_slice G c)" by simp_all
qed

lemma current_try_in:
  assumes inv: "current_inv I G taken cap c" and n: "n \<le> length (current_slice G c)"
  shows "\<exists>c'. current_try_consume I G c n = (Inr (), c') \<and> current_moved G taken n c c'"
proof (cases "cr_backing c")
  case (HeadStaged h)
  with stream_lawsD(7) [of I G taken cap n h] inv n show ?thesis
    by (fastforce simp: current_inv_def current_try_consume_def current_moved_def
        current_slice_simps)
next
  case (HeadPlain p)
  with inv have "head_ok p" "check_law I" by (simp_all add: current_inv_def stream_laws_def)
  with length_head_view [of p] HeadPlain n show ?thesis
    by (simp add: current_try_consume_def head_try_consume_def current_moved_def
        current_slice_simps consume_check_ok)
qed

lemma current_try_out:
  assumes inv: "current_inv I G taken cap c" and n: "length (current_slice G c) < n"
  shows "\<exists>e. current_try_consume I G c n = (Inl e, c)"
proof (cases "cr_backing c")
  case (HeadStaged h)
  with stream_lawsD(8) [of I G taken cap h n] inv n show ?thesis
    by (fastforce simp: current_inv_def current_try_consume_def current_slice_simps)
next
  case (HeadPlain p)
  with inv have ok: "head_ok p" "check_law I" by (simp_all add: current_inv_def stream_laws_def)
  from consume_check_bad [OF ok(2), of "hd_remaining p" n] length_head_view [OF ok(1)] HeadPlain n
  show ?thesis
    by (auto simp: current_try_consume_def head_try_consume_def current_slice_simps)
qed

lemma current_max:
  assumes inv: "current_inv I G taken cap c"
  shows "\<exists>c'. current_consume_max G c m = (min m (length (current_slice G c)), c') \<and>
    current_moved G taken (min m (length (current_slice G c))) c c'"
proof (cases "cr_backing c")
  case (HeadStaged h)
  obtain h' where "scur_consume_max G h m = (min m (length (scur_view G h)), h')"
    "scur_view G h' = drop m (scur_view G h)"
    "taken h' = taken h + min m (length (scur_view G h))"
    using stream_lawsD(9) [of I G taken cap h m] inv by (auto simp: current_inv_def)
  with HeadStaged show ?thesis
    by (auto simp: current_consume_max_def current_moved_def current_slice_simps min_def)
next
  case (HeadPlain p)
  with inv have "head_ok p" by (simp add: current_inv_def)
  with length_head_view [of p] HeadPlain show ?thesis
    by (simp add: current_consume_max_def head_consume_max_def current_moved_def
        current_slice_simps Let_def)
qed

lemma current_raw:
  assumes inv: "current_inv I G taken cap c" and n: "n \<le> length (current_slice G c)"
  shows "current_moved G taken n c (current_consume G c n)"
proof (cases "cr_backing c")
  case (HeadStaged h)
  with stream_lawsD(10,11) [of I G taken cap n h] inv n show ?thesis
    by (simp add: current_inv_def current_consume_def current_moved_def current_slice_simps)
next
  case (HeadPlain p)
  with inv have "head_ok p" by (simp add: current_inv_def)
  with length_head_view [of p] HeadPlain n show ?thesis
    by (simp add: current_consume_def head_consume_def current_moved_def current_slice_simps)
qed

interpretation current_head: consume "current_inv I G taken cap" "current_slice G"
  "current_slice G" "current_remaining G" "current_try_consume I G" "current_consume_max G"
proof
  fix c and n
  assume inv: "current_inv I G taken cap c"
  show "\<exists>c'. current_try_consume I G c n = (Inr (), c') \<and> current_inv I G taken cap c' \<and>
      current_slice G c' = drop n (current_slice G c)" if "n \<le> length (current_slice G c)"
    using current_try_in [OF inv that] moved_slice [OF inv] by blast
  show "\<exists>e. current_try_consume I G c n = (Inl e, c)" if "length (current_slice G c) < n"
    using current_try_out [OF inv that] .
  show "\<exists>c'. current_consume_max G c n = (min n (length (current_slice G c)), c') \<and>
      current_inv I G taken cap c' \<and>
      current_slice G c' = drop (min n (length (current_slice G c))) (current_slice G c)"
    using current_max [OF inv, of n] moved_slice [OF inv] by blast
qed (simp_all add: current_remaining_def)

section \<open>The stream\<close>

lemma ret_staged_head_simps:
  assumes "stream_laws I G taken cap"
  shows "ret_staged_head G r = Some k \<longleftrightarrow> ret_staged r = Some k \<and> chunk_bytes I k \<noteq> []"
    and "ret_staged_head G r = None \<longleftrightarrow> chunk_of I (ret_staged r) = []"
  using stream_lawsD(3) [OF assms]
  by (auto simp: ret_staged_head_def chunk_of_def split: option.splits)

lemma ret_slice_prefix:
  assumes "ret_inv I G taken cap r"
  shows "prefix (ret_slice I G r) (ret_content I r)"
    and "ret_slice I G r = [] \<longleftrightarrow> ret_content I r = []"
proof -
  have laws: "stream_laws I G taken cap" using assms by (simp add: ret_inv_def)
  have "prefix (ret_slice I G r) (ret_content I r) \<and>
      (ret_slice I G r = [] \<longleftrightarrow> ret_content I r = [])"
  proof (cases "ret_staged_head G r")
    case None
    note empty = None [unfolded ret_staged_head_simps(2) [OF laws]]
    from None empty show ?thesis
      by (cases "ret_plain r") (simp_all add: ret_slice_def ret_content_def opt_cursor_def
          cursor_as_slice_def cursor_view_def)
  next
    case (Some k)
    then show ?thesis
      using ret_staged_head_simps(1) [OF laws, of r k]
      by (simp add: ret_slice_def ret_content_def chunk_of_def)
  qed
  then show "prefix (ret_slice I G r) (ret_content I r)"
    "ret_slice I G r = [] \<longleftrightarrow> ret_content I r = []" by simp_all
qed

text \<open>\<open>next\<close> lends a head exactly while there is content, and the head shows what \<open>as_ref\<close> does.\<close>

lemma ret_next_None:
  assumes "ret_inv I G taken cap r"
  shows "ret_next G r = None \<longleftrightarrow> ret_content I r = []"
proof -
  have laws: "stream_laws I G taken cap" and ok: "\<And>c. ret_plain r = Some c \<Longrightarrow> cursor_ok c"
    using assms by (simp_all add: ret_inv_def ret_ok_def)
  show ?thesis
  proof (cases "ret_staged_head G r")
    case None
    note empty = None [unfolded ret_staged_head_simps(2) [OF laws]]
    show ?thesis
    proof (cases "ret_plain r")
      case (Some c)
      from cursor_head_None [OF ok [OF this]] None empty Some show ?thesis
        by (cases "cursor_head c") (simp_all add: ret_next_def ret_content_def opt_cursor_def)
    qed (use None empty in \<open>simp add: ret_next_def ret_content_def opt_cursor_def\<close>)
  next
    case (Some k)
    then show ?thesis
      using ret_staged_head_simps(1) [OF laws, of r k]
      by (simp add: ret_next_def ret_content_def chunk_of_def)
  qed
qed

text \<open>
  The loan: a head taken from the stream, moved on by \<open>n\<close> and committed, drops \<open>n\<close> bytes from the
  front of the stream and keeps its length exact.
\<close>

lemma commit_staged:
  assumes inv: "ret_inv I G taken cap r" and k: "ret_staged r = Some k"
    and moved: "current_moved G taken n (current_staged G k (ret_left r)) c'"
  shows "ret_inv I G taken cap (ret_commit G c' r)"
    and "ret_content I (ret_commit G c' r) = drop n (ret_content I r)"
proof -
  have laws: "stream_laws I G taken cap" and ok: "\<And>c. ret_plain r = Some c \<Longrightarrow> cursor_ok c"
    and left: "ret_left r = length (ret_content I r)"
    using inv by (simp_all add: ret_inv_def ret_ok_def)
  obtain h where h: "cr_backing c' = HeadStaged h" "cr_left c' = ret_left r"
    "scur_view G h = drop n (chunk_bytes I k)" "taken h = n" "n \<le> length (chunk_bytes I k)"
    using moved stream_lawsD(5,6) [OF laws, of k]
    by (auto simp: current_moved_def current_staged_def split: head_backing.splits)
  obtain k' where cm: "scur_commit G h = (n, k')" "chunk_bytes I k' = drop n (chunk_bytes I k)"
    using stream_lawsD(12,13) [OF laws, of h] h by (cases "scur_commit G h") auto
  have "ret_commit G c' r = r\<lparr>ret_staged := Some k', ret_left := ret_left r - n\<rparr>"
    using h cm stream_lawsD(17) [OF laws, of "ret_left r - n" "ret_left r"]
    by (simp add: ret_commit_def current_commit_def ret_put_def Let_def)
  with laws ok left k cm h(5) show "ret_inv I G taken cap (ret_commit G c' r)"
    "ret_content I (ret_commit G c' r) = drop n (ret_content I r)"
    by (simp_all add: ret_inv_def ret_ok_def ret_content_def chunk_of_def)
qed

lemma commit_plain:
  assumes inv: "ret_inv I G taken cap r" and cu: "ret_plain r = Some cu" "cursor_head cu = Some h"
    and empty: "chunk_of I (ret_staged r) = []"
    and moved: "current_moved G taken n (current_plain h (ret_left r)) c'"
  shows "ret_inv I G taken cap (ret_commit G c' r)"
    and "ret_content I (ret_commit G c' r) = drop n (ret_content I r)"
proof -
  have laws: "stream_laws I G taken cap" and ok: "cursor_ok cu"
    and left: "ret_left r = length (ret_content I r)"
    using inv cu(1) by (simp_all add: ret_inv_def ret_ok_def)
  note hd = cursor_head_ok [OF ok cu(2)]
  have h: "cr_backing c' = HeadPlain (h\<lparr>hd_remaining := hd_remaining h - n\<rparr>)"
    "cr_left c' = ret_left r" and n: "n \<le> hd_remaining h"
    using moved by (auto simp: current_moved_def current_plain_def split: head_backing.splits)
  obtain m cu' where cm: "head_commit (h\<lparr>hd_remaining := hd_remaining h - n\<rparr>) = (m, cu')"
    by fastforce
  have "head_ok h" using hd by simp
  note hd' = head_drop [OF this n]
  have cu': "cursor_ok cu'" "cursor_view cu' = drop n (cursor_view cu)"
    using head_commit_ok [OF _ cm] hd hd' by simp_all
  have "m = n" using cm hd n by (auto simp: head_commit_def)
  then have "ret_commit G c' r = r\<lparr>ret_plain := Some cu', ret_left := ret_left r - n\<rparr>"
    using h cm stream_lawsD(17) [OF laws, of "ret_left r - n" "ret_left r"]
    by (simp add: ret_commit_def current_commit_def ret_put_def Let_def)
  with laws left cu' cu empty n hd show "ret_inv I G taken cap (ret_commit G c' r)"
    "ret_content I (ret_commit G c' r) = drop n (ret_content I r)"
    by (simp_all add: ret_inv_def ret_ok_def ret_content_def opt_cursor_def chunk_of_def)
qed

lemma ret_loan:
  assumes inv: "ret_inv I G taken cap r" and nxt: "ret_next G r = Some c"
  shows "current_inv I G taken cap c" and "current_slice G c = ret_slice I G r"
    and "current_moved G taken n c c' \<Longrightarrow> ret_inv I G taken cap (ret_commit G c' r) \<and>
      ret_content I (ret_commit G c' r) = drop n (ret_content I r)"
proof -
  have laws: "stream_laws I G taken cap" and ok: "\<And>c. ret_plain r = Some c \<Longrightarrow> cursor_ok c"
    and left: "ret_left r = length (ret_content I r)"
    using inv by (simp_all add: ret_inv_def ret_ok_def)
  have "current_inv I G taken cap c \<and> current_slice G c = ret_slice I G r \<and>
    (current_moved G taken n c c' \<longrightarrow> ret_inv I G taken cap (ret_commit G c' r) \<and>
      ret_content I (ret_commit G c' r) = drop n (ret_content I r))"
  proof (cases "ret_staged_head G r")
    case (Some k)
    then have k: "ret_staged r = Some k" and c: "c = current_staged G k (ret_left r)"
      using ret_staged_head_simps(1) [OF laws, of r k] nxt by (simp_all add: ret_next_def)
    note moved = commit_staged [OF inv k, folded c]
    from c laws Some moved show ?thesis
      using stream_lawsD(5) [OF laws, of k]
      by (simp add: current_inv_def current_staged_def current_slice_simps ret_slice_def)
  next
    case None
    then obtain cu h where cu: "ret_plain r = Some cu" "cursor_head cu = Some h"
      and c: "c = current_plain h (ret_left r)" and empty: "chunk_of I (ret_staged r) = []"
      using ret_staged_head_simps(2) [OF laws, of r] nxt
      by (auto simp: ret_next_def split: option.splits)
    note hd = cursor_head_ok [OF ok [OF cu(1)] cu(2)]
    note moved = commit_plain [OF inv cu empty, folded c]
    from c laws hd None cu moved show ?thesis
      by (simp add: current_inv_def current_plain_def current_slice_simps ret_slice_def
          cursor_as_slice_def cursor_view_def)
  qed
  then show "current_inv I G taken cap c" "current_slice G c = ret_slice I G r"
    "current_moved G taken n c c' \<Longrightarrow> ret_inv I G taken cap (ret_commit G c' r) \<and>
      ret_content I (ret_commit G c' r) = drop n (ret_content I r)" by blast+
qed

lemma ret_empty:
  assumes "ret_inv I G taken cap r" and "ret_next G r = None"
  shows "ret_slice I G r = []" and "ret_content I r = []"
  using ret_next_None [OF assms(1)] ret_slice_prefix(2) [OF assms(1)] assms(2) by simp_all

interpretation stream: consume "ret_inv I G taken cap" "ret_content I" "ret_slice I G"
  "ret_head_remaining I G" "ret_try_consume I G" "ret_consume_max G"
proof
  fix r and n
  assume inv: "ret_inv I G taken cap r"
  then have law: "check_law I" by (simp add: ret_inv_def stream_laws_def)
  show "prefix (ret_slice I G r) (ret_content I r)" using ret_slice_prefix(1) [OF inv] .
  show "ret_slice I G r \<noteq> []" if "ret_content I r \<noteq> []"
    using ret_slice_prefix(2) [OF inv] that by simp
  show "\<exists>r'. ret_try_consume I G r n = (Inr (), r') \<and> ret_inv I G taken cap r' \<and>
      ret_content I r' = drop n (ret_content I r)" if n: "n \<le> length (ret_slice I G r)"
  proof (cases "ret_next G r")
    case None
    with ret_empty [OF inv None] n consume_check_ok [OF law, of 0 0] inv show ?thesis
      by (simp add: ret_try_consume_def)
  next
    case (Some c)
    note loan = ret_loan [OF inv Some]
    from n loan(2) obtain c' where "current_try_consume I G c n = (Inr (), c')"
      "current_moved G taken n c c'" using current_try_in [OF loan(1), of n] by auto
    with loan(3) Some show ?thesis by (simp add: ret_try_consume_def)
  qed
  show "\<exists>e. ret_try_consume I G r n = (Inl e, r)" if n: "length (ret_slice I G r) < n"
  proof (cases "ret_next G r")
    case None
    with ret_empty [OF inv None] n consume_check_bad [OF law, of 0 n] show ?thesis
      by (auto simp: ret_try_consume_def)
  next
    case (Some c)
    note loan = ret_loan [OF inv Some]
    from n loan(2) current_try_out [OF loan(1), of n] Some show ?thesis
      by (auto simp: ret_try_consume_def)
  qed
  show "\<exists>r'. ret_consume_max G r n = (min n (length (ret_slice I G r)), r') \<and>
      ret_inv I G taken cap r' \<and>
      ret_content I r' = drop (min n (length (ret_slice I G r))) (ret_content I r)"
  proof (cases "ret_next G r")
    case None
    with ret_empty [OF inv None] inv show ?thesis by (simp add: ret_consume_max_def)
  next
    case (Some c)
    note loan = ret_loan [OF inv Some]
    obtain c' where "current_consume_max G c n = (min n (length (current_slice G c)), c')"
      "current_moved G taken (min n (length (current_slice G c))) c c'"
      using current_max [OF loan(1), of n] by blast
    with loan(2,3) Some show ?thesis by (simp add: ret_consume_max_def)
  qed
qed (simp_all add: ret_head_remaining_def)

section \<open>Construction\<close>

lemma retained_try_new_cases:
  fixes staged :: "'k option"
  assumes laws: "stream_laws I G taken cap" and ok: "cursor_ok plain"
  defines "stage \<equiv> length (chunk_of I staged)" and "body \<equiv> length (cursor_view plain)"
  shows "cap < stage \<Longrightarrow> \<exists>e. retained_try_new G staged plain = Inl (StagedErr e)"
    and "stage \<le> cap \<Longrightarrow> cap < stage + body \<Longrightarrow>
      \<exists>e. retained_try_new G staged plain = Inl (RetainedErr e)"
    and "stage + body \<le> cap \<Longrightarrow> stage + body = 0 \<Longrightarrow> retained_try_new G staged plain = Inr None"
    and "stage + body \<le> cap \<Longrightarrow> stage + body \<noteq> 0 \<Longrightarrow>
      \<exists>r. retained_try_new G staged plain = Inr (Some r) \<and> ret_inv I G taken cap r \<and>
        ret_content I r = chunk_of I staged @ cursor_view plain"
proof -
  define staged' where "staged' = (case staged of
      Some k \<Rightarrow> if chunk_is_empty G k then None else Some k | None \<Rightarrow> None)"
  define plain' where "plain' = (if cursor_remaining plain \<noteq> 0 then Some plain else None)"
  have staged': "chunk_of I staged' = chunk_of I staged"
    "(case staged' of None \<Rightarrow> 0 | Some k \<Rightarrow> chunk_remaining G k) = stage"
    using stream_lawsD(3,4) [OF laws]
    by (auto simp: staged'_def chunk_of_def stage_def split: option.split)
  have body: "cursor_remaining plain = body"
    by (simp add: cursor_remaining_def body_def length_cursor_view [OF ok])
  have plain': "opt_cursor plain' = cursor_view plain"
    by (simp add: plain'_def opt_cursor_def body body_def)
  have new: "retained_try_new G staged plain =
      (case len_try_add G 0 stage of Inl e \<Rightarrow> Inl (StagedErr e)
       | Inr a \<Rightarrow> (case len_try_add G a body of Inl e \<Rightarrow> Inl (RetainedErr e)
         | Inr len \<Rightarrow> if len = 0 then Inr None else
             Inr (Some \<lparr> ret_staged = staged', ret_plain = plain', ret_left = len \<rparr>)))"
    unfolding retained_try_new_def Let_def staged'_def [symmetric] plain'_def [symmetric]
    by (simp only: staged'(2) body)
  note add = stream_lawsD(15,16) [OF laws]
  show "\<exists>e. retained_try_new G staged plain = Inl (StagedErr e)" if "cap < stage"
    using add(2) [of 0 stage] that by (cases "len_try_add G 0 stage") (simp_all add: new)
  show "\<exists>e. retained_try_new G staged plain = Inl (RetainedErr e)"
    if "stage \<le> cap" "cap < stage + body"
    using add(1) [of 0 stage] add(2) [of stage body] that
    by (cases "len_try_add G stage body") (simp_all add: new)
  show "retained_try_new G staged plain = Inr None" if "stage + body \<le> cap" "stage + body = 0"
    using add(1) [of 0 stage] add(1) [of stage body] that by (simp add: new)
  show "\<exists>r. retained_try_new G staged plain = Inr (Some r) \<and> ret_inv I G taken cap r \<and>
        ret_content I r = chunk_of I staged @ cursor_view plain"
    if "stage + body \<le> cap" "stage + body \<noteq> 0"
    using add(1) [of 0 stage] add(1) [of stage body] that ok laws
    by (simp add: new ret_inv_def ret_ok_def ret_content_def staged'(1) plain')
      (auto simp: stage_def body_def plain'_def)
qed

section \<open>Views\<close>

lemma ret_view_slice: "retention_as_slice (ret_view I G r) = ret_slice I G r"
  by (simp add: ret_view_def ret_slice_def retention_as_slice_def cursor_as_slice_def
      cursor_view_def split: option.split)

lemma view_lawsD:
  assumes "view_laws G"
  shows "i \<le> j \<Longrightarrow> j \<le> length xs \<Longrightarrow> view_try_get G xs i j = Inr (take (j - i) (drop i xs))"
    and "\<not> (i \<le> j \<and> j \<le> length xs) \<Longrightarrow> \<exists>e. view_try_get G xs i j = Inl e"
    and "n \<le> length xs \<Longrightarrow> view_try_split G n xs = Inr (take n xs, drop n xs)"
    and "length xs < n \<Longrightarrow> \<exists>e. view_try_split G n xs = Inl e"
  using assms unfolding view_laws_def by (metis is_err_simps(2) sumE)+

lemma ret_try_get_eq:
  "ret_try_get I G r i j =
     (case view_try_get G (ret_slice I G r) i j of
        Inl e \<Rightarrow> Inl e
      | Inr xs \<Rightarrow> Inr \<lparr> rt_backing = (case rt_backing (ret_view I G r) of
          BackStaged _ \<Rightarrow> BackStaged xs | BackPlain _ \<Rightarrow> BackPlain xs | BackEmpty \<Rightarrow> BackEmpty) \<rparr>)"
  using ret_view_slice [of I G r]
  by (auto simp: ret_try_get_def retention_as_slice_def split: backing.splits sum.splits)

lemma current_try_get_eq:
  assumes "stream_laws I G taken cap"
  shows "current_try_get G c i j =
     (case view_try_get G (current_slice G c) i j of
        Inl e \<Rightarrow> Inl e
      | Inr xs \<Rightarrow> Inr \<lparr> rt_backing =
          (case cr_backing c of HeadStaged _ \<Rightarrow> BackStaged xs | HeadPlain _ \<Rightarrow> BackPlain xs) \<rparr>)"
  using stream_lawsD(14) [OF assms]
  by (cases "cr_backing c")
    (simp_all add: current_try_get_def current_slice_simps head_try_get_def split: sum.split)

lemma retention_split_eq:
  assumes "view_laws G"
  shows "n \<le> length (retention_as_slice v) \<Longrightarrow>
      \<exists>v'. retention_try_split G n v = Inr (take n (retention_as_slice v), v') \<and>
        retention_as_slice v' = drop n (retention_as_slice v)"
    and "length (retention_as_slice v) < n \<Longrightarrow> \<exists>e. retention_try_split G n v = Inl e"
proof -
  show "\<exists>v'. retention_try_split G n v = Inr (take n (retention_as_slice v), v') \<and>
        retention_as_slice v' = drop n (retention_as_slice v)"
    if "n \<le> length (retention_as_slice v)"
    using view_lawsD(3) [OF assms, of n "retention_as_slice v"] that
    by (cases "rt_backing v") (simp_all add: retention_try_split_def retention_as_slice_def)
  show "\<exists>e. retention_try_split G n v = Inl e" if "length (retention_as_slice v) < n"
    using view_lawsD(4) [OF assms, of "retention_as_slice v" n] that
    by (cases "rt_backing v") (auto simp: retention_try_split_def retention_as_slice_def)
qed

section \<open>Batches\<close>

fun item_bytes :: "('r, 'k, 'f, 'g) ingress_ops \<Rightarrow> 'k item \<Rightarrow> bytes" where
  "item_bytes I (ItemOwned k) = chunk_bytes I k"
| "item_bytes I (ItemBorrowed xs) = xs"

lemma batch_items_eq:
  "batch_items b = (case bt_owned b of None \<Rightarrow> [] | Some k \<Rightarrow> [ItemOwned k]) @
     (case bt_plain b of None \<Rightarrow> [] | Some xs \<Rightarrow> [ItemBorrowed xs])"
proof -
  have one: "batch_items \<lparr> bt_owned = None, bt_plain = p \<rparr> =
      (case p of None \<Rightarrow> [] | Some xs \<Rightarrow> [ItemBorrowed xs])" for p :: "bytes option"
    by (subst batch_items.simps, cases p) (simp_all add: batch_next_def batch_items.simps)
  obtain k p where b: "b = \<lparr> bt_owned = k, bt_plain = p \<rparr>" by (cases b)
  show ?thesis
    unfolding b by (subst batch_items.simps, cases k) (simp_all add: batch_next_def one split: option.split)
qed



section \<open>Properties of the stream\<close>


text \<open>
  C12. Building a retained stream is refused exactly where its length passes the transfer bound:
  with \<open>Staged\<close> where the chunk alone does, with \<open>Retained\<close> where the prefix makes it; there is no
  stream exactly where there is no byte, and otherwise it holds every byte and its exact length.
\<close>

theorem retained_try_new_bounds:
  assumes "stream_laws I G taken cap" and "cursor_ok plain"
  shows "if cap < length (chunk_of I staged)
    then \<exists>e. retained_try_new G staged plain = Inl (StagedErr e)
    else if cap < length (chunk_of I staged) + cu_len plain
    then \<exists>e. retained_try_new G staged plain = Inl (RetainedErr e)
    else if length (chunk_of I staged) + cu_len plain = 0
    then retained_try_new G staged plain = Inr None
    else \<exists>r. retained_try_new G staged plain = Inr (Some r) \<and>
      ret_content I r = chunk_of I staged @ cursor_view plain \<and>
      ret_remaining r = length (chunk_of I staged) + cu_len plain"
  using retained_try_new_cases [OF assms, of staged] length_cursor_view [OF assms(2)]
  by (auto simp: ret_inv_def ret_ok_def ret_remaining_def not_less)


text \<open>
  C14. The stream and the head it lends agree on what they show: \<open>as_ref\<close>, the view and the lent
  head are the same bytes, never empty while bytes are left; a subrange of either is that part of
  those bytes, and is refused exactly when it is out of range.
\<close>

theorem stream_views_agree:
  assumes "ret_inv I G taken cap r" and "ret_next G r = Some c"
  shows "retention_as_slice (ret_view I G r) = ret_slice I G r \<and>
    retention_as_slice (current_view G c) = ret_slice I G r \<and> ret_slice I G r \<noteq> [] \<and>
    (if i \<le> j \<and> j \<le> length (ret_slice I G r)
     then \<exists>v w. ret_try_get I G r i j = Inr v \<and> current_try_get G c i j = Inr w \<and>
       retention_as_slice v = take (j - i) (drop i (ret_slice I G r)) \<and>
       retention_as_slice w = take (j - i) (drop i (ret_slice I G r))
     else is_err (ret_try_get I G r i j) \<and> is_err (current_try_get G c i j))"
proof -
  have laws: "stream_laws I G taken cap" using assms(1) by (simp add: ret_inv_def)
  note loan = ret_loan(2) [OF assms]
  have ne: "ret_slice I G r \<noteq> []"
    using ret_next_None [OF assms(1)] ret_slice_prefix(2) [OF assms(1)] assms(2) by simp
  note view = ret_view_slice [of I G r]
  have "rt_backing (ret_view I G r) \<noteq> BackEmpty"
    using ne view by (auto simp: retention_as_slice_def)
  then show ?thesis
    using view_lawsD(1,2) [OF stream_lawsD(2) [OF laws], of i j "ret_slice I G r"] view ne loan
    by (cases "rt_backing (ret_view I G r)"; cases "cr_backing c")
      (auto simp: ret_try_get_eq current_try_get_eq [OF laws] current_slice_def
        retention_as_slice_def)
qed

section \<open>A concrete stream\<close>

text \<open>A chunk cursor is the bytes left and the count taken; lengths are bounded by 100.\<close>

definition ref_segment :: "(bytes, bytes \<times> nat) segment_ops" where
  "ref_segment = \<lparr>
     view_try_get = (\<lambda>xs i j. if i \<le> j \<and> j \<le> length xs then Inr (take (j - i) (drop i xs))
        else Inl (RangeError i j (length xs))),
     view_try_split = (\<lambda>n xs. if n \<le> length xs then Inr (take n xs, drop n xs)
        else Inl (ConsumeError n (length xs))),
     chunk_is_empty = (\<lambda>k. k = []),
     chunk_remaining = length,
     scur_new = (\<lambda>k. (k, 0)),
     scur_view = fst,
     scur_try_get = (\<lambda>h i j. if i \<le> j \<and> j \<le> length (fst h)
        then Inr (take (j - i) (drop i (fst h))) else Inl (RangeError i j (length (fst h)))),
     scur_try_consume = (\<lambda>(xs, t) n. if n \<le> length xs then (Inr (), (drop n xs, t + n))
        else (Inl (ConsumeError n (length xs)), (xs, t))),
     scur_consume_max = (\<lambda>(xs, t) n.
        (min n (length xs), (drop n xs, t + min n (length xs)))),
     scur_consume = (\<lambda>(xs, t) n. (drop n xs, t + n)),
     scur_commit = (\<lambda>(xs, t). (t, xs)),
     len_try_add = (\<lambda>a b. if a + b \<le> 100 then Inr (a + b) else Inl (BoundedError (a + b) 100)),
     xfer_prefix = min \<rparr>"

lemma ref_stream_laws: "stream_laws ref_ingress ref_segment snd 100"
  by (simp add: stream_laws_def ref_check_law view_laws_def segment_laws_def)
    (auto simp: ref_segment_def ref_ingress_def)

definition ref_cursor :: cursor where
  "ref_cursor = \<lparr> cu_bytes = [7, 8, 9, 0], cu_end = 3, cu_len = 3 \<rparr>"

definition ref_retained :: "bytes retained" where
  "ref_retained = \<lparr> ret_staged = Some [5, 6], ret_plain = Some ref_cursor, ret_left = 5 \<rparr>"

lemma ref_cursor_view: "cursor_ok ref_cursor" "cursor_view ref_cursor = [7, 8, 9]"
  by (simp_all add: ref_cursor_def cursor_ok_def cursor_view_def source_view_def)

lemma ref_retained_new: "retained_try_new ref_segment (Some [5, 6]) ref_cursor = Inr (Some ref_retained)"
  by (simp add: retained_try_new_def ref_segment_def ref_retained_def ref_cursor_def
      cursor_remaining_def Let_def)

lemma ref_retained_inv: "ret_inv ref_ingress ref_segment snd 100 ref_retained"
  by (simp add: ret_inv_def ref_stream_laws ret_ok_def ret_content_def chunk_of_def opt_cursor_def
      ref_retained_def ref_cursor_view)
    (simp add: ref_ingress_def)


theorem retained_try_new_bounds_witness:
  "\<exists>e. retained_try_new ref_segment (Some (replicate 99 1)) ref_cursor = Inl (RetainedErr e)"
proof -
  have "chunk_of ref_ingress (Some (replicate 99 1)) = replicate 99 1"
    by (simp add: chunk_of_def ref_ingress_def)
  then show ?thesis
    using retained_try_new_bounds [OF ref_stream_laws ref_cursor_view(1), of "Some (replicate 99 1)"]
    by (simp add: ref_cursor_def)
qed


theorem stream_views_agree_witness:
  "\<exists>v. ret_try_get ref_ingress ref_segment ref_retained 1 2 = Inr v \<and> retention_as_slice v = [6]"
proof -
  have "ret_slice ref_ingress ref_segment ref_retained = [5, 6]"
    by (simp add: ret_slice_def ret_staged_head_def ref_retained_def ref_segment_def ref_ingress_def)
  moreover obtain c where "ret_next ref_segment ref_retained = Some c"
    by (simp add: ret_next_def ret_staged_head_def ref_retained_def ref_segment_def)
  ultimately show ?thesis using stream_views_agree [OF ref_retained_inv, of c 1 2] by auto
qed

end
