(* ===== verification/Ingress.thy ===== *)
theory Ingress
  imports Stream_Correct
begin

text \<open>
  One read of a connection (\<open>src/tls/receive/mod.rs\<close>, the producer of \<open>src/tls/receive/raw.rs\<close>): the
  plaintext of an input is handed out as a batch of borrowed items or as a retained stream.
\<close>

section \<open>Operations\<close>

text \<open>\<open>Ingress\<close>: a connection and the slot admitted for the read.\<close>

record ('c, 'r) ingress =
  ig_conn :: "'c connection"
  ig_recv :: 'r

definition ingress_new :: "'c connection \<Rightarrow> 'r \<Rightarrow> ('c, 'r) ingress" where
  "ingress_new conn recv = \<lparr> ig_conn = conn, ig_recv = recv \<rparr>"

definition produce ::
    "('c, 's) rustls \<Rightarrow> ('r, 'k, 'f, 'g) ingress_ops \<Rightarrow> ('c, 'r) ingress \<Rightarrow> bytes \<Rightarrow>
     ('f, 'g) receive \<Rightarrow>
     ('k batch \<times> ((error + unit) \<times> release) \<times> 'c connection \<times> ('f, 'g) receive) option" where
  "produce N I ing bs pool = do {
     (out, pl, conn, pool') \<leftarrow> owned N I (ig_conn ing) bs (ig_recv ing) pool;
     Some (\<lparr> bt_owned = so_chunk out, bt_plain = into_chunk pl \<rparr>,
           (so_control out, so_released out), conn, pool')
   }"

text \<open>The grant runs the producer once; \<open>control\<close> is what the producer left there.\<close>

definition read_batch ::
    "('c, 's) rustls \<Rightarrow> ('r, 'k, 'f, 'g) ingress_ops \<Rightarrow> ('c, 'r) ingress \<Rightarrow> bytes \<Rightarrow>
     ('f, 'g) receive \<Rightarrow>
     ('k batch \<times> (error + unit) \<times> release \<times> 'c connection \<times> ('f, 'g) receive) option" where
  "read_batch N I ing bs pool = do {
     (output, control, conn, pool') \<leftarrow> produce N I ing bs pool;
     Some (output, fst control, snd control, conn, pool')
   }"

text \<open>A chunk the stream does not keep is dropped, which returns its slot.\<close>

definition drop_unkept ::
    "('r, 'k, 'f, 'g) ingress_ops \<Rightarrow> 'k option \<Rightarrow> error + 'k retained option \<Rightarrow>
     ('f, 'g) receive \<Rightarrow> ('f, 'g) receive" where
  "drop_unkept I chunk result pool =
     (case chunk of
        None \<Rightarrow> pool
      | Some k \<Rightarrow>
          (case result of
             Inr (Some r) \<Rightarrow> if ret_staged r = None then recv_return_chunk I k pool else pool
           | _ \<Rightarrow> recv_return_chunk I k pool))"

definition retain ::
    "('c, 's) rustls \<Rightarrow> ('r, 'k, 'f, 'g) ingress_ops \<Rightarrow> ('k, 'h) segment_ops \<Rightarrow>
     ('c, 'r) ingress \<Rightarrow> bytes \<Rightarrow> ('f, 'g) receive \<Rightarrow>
     ('k retained option \<times> (error + unit) \<times> release \<times> 'c connection \<times> ('f, 'g) receive) option" where
  "retain N I G ing bs pool = do {
     (out, pl, conn, pool') \<leftarrow> owned N I (ig_conn ing) bs (ig_recv ing) pool;
     (let result = retained_try_new G (so_chunk out) (cursor_new pl);
          pool'' = drop_unkept I (so_chunk out) result pool'
      in case result of
           Inr output \<Rightarrow> Some (output, so_control out, so_released out, conn, pool'')
         | Inl cause \<Rightarrow>
             Some (None, if is_err (so_control out) then so_control out else Inl cause,
                   RelReleased, conn\<lparr>failed := True\<rparr>, pool''))
   }"

section \<open>Correctness\<close>

text \<open>
  What both reads do to the connection and to the pool, whatever they make of the plaintext: the slot
  is with the output exactly where \<open>Retained\<close> is reported and back in the pool otherwise, an error
  raises \<open>failed\<close>, the reader is drained unless there was one, and nothing is taken from the
  ciphertext queued for the peer.
\<close>

definition read_ok ::
    "('r, 'k, 'f, 'g) ingress_ops \<Rightarrow> 'c rustls_view \<Rightarrow> 'c connection \<Rightarrow> ('f, 'g) receive \<Rightarrow>
     error + unit \<Rightarrow> release \<Rightarrow> 'c connection \<Rightarrow> ('f, 'g) receive \<Rightarrow> bool" where
  "read_ok I V conn pool result rel conn' pool' \<longleftrightarrow>
     recv_available I pool' + of_bool (rel = RelRetained) = Suc (recv_available I pool) \<and>
     failed conn' = (failed conn \<or> is_err result) \<and> local_closed conn' = local_closed conn \<and>
     latch_le conn conn' \<and> (result = Inr () \<longrightarrow> unread V (native conn') = []) \<and>
     produces V (native conn) (native conn')"

lemma received_read_ok:
  "received N I V conn bs pool out pl conn' pool' \<Longrightarrow>
     read_ok I V conn pool (so_control out) (so_released out) conn' pool'"
  unfolding read_ok_def by (intro conjI; rule receivedD; assumption)

text \<open>What a batch holds of the plaintext authenticated by the read.\<close>

definition batch_holds ::
    "('r, 'k, 'f, 'g) ingress_ops \<Rightarrow> 'c rustls_view \<Rightarrow> 'c connection \<Rightarrow> 'k batch \<Rightarrow> release \<Rightarrow>
     'c connection \<Rightarrow> bool" where
  "batch_holds I V conn b rel conn' \<longleftrightarrow>
     got V (native conn') = got V (native conn) @ concat (map (item_bytes I) (batch_items b)) @
       unread V (native conn') \<and>
     (\<forall>item\<in>set (batch_items b). item_bytes I item \<noteq> []) \<and>
     length (batch_items b) = batch_len b \<and> batch_len b \<le> MAX_ITEMS \<and>
     (rel = RelRetained \<longleftrightarrow> bt_owned b \<noteq> None)"

lemma read_batch_run:
  assumes "recv_laws N I V content" and "content recv = []" and "unread V (native conn) = []"
  shows "\<exists>b result rel conn' pool'.
    read_batch N I (ingress_new conn recv) bs pool = Some (b, result, rel, conn', pool') \<and>
    batch_holds I V conn b rel conn' \<and> read_ok I V conn pool result rel conn' pool'"
proof -
  obtain out pl conn' pool' where run: "owned N I conn bs recv pool = Some (out, pl, conn', pool')"
    and rc: "received N I V conn bs pool out pl conn' pool'"
    using owned_run [OF assms, of False undefined bs pool] by auto
  have pl: "into_chunk pl = (if plain_of pl = [] then None else Some (plain_of pl))"
    using rc by (intro into_chunk_plain_of) (auto simp: received_def)
  define b where "b = \<lparr> bt_owned = so_chunk out, bt_plain = into_chunk pl \<rparr>"
  have "read_batch N I (ingress_new conn recv) bs pool =
      Some (b, so_control out, so_released out, conn', pool')"
    by (simp add: read_batch_def produce_def ingress_new_def run b_def)
  moreover have "concat (map (item_bytes I) (batch_items b)) = chunk_of I (so_chunk out) @ plain_of pl"
    by (simp add: batch_items_eq b_def pl chunk_of_def split: option.split)
  moreover have "(\<forall>item\<in>set (batch_items b). item_bytes I item \<noteq> []) \<and>
      length (batch_items b) = batch_len b \<and> batch_len b \<le> MAX_ITEMS"
    using rc by (auto simp: batch_items_eq b_def pl received_def batch_len_def MAX_ITEMS_def
        split: option.splits)
  moreover have "so_released out = RelRetained \<longleftrightarrow> bt_owned b \<noteq> None"
    using receivedD(4) [OF rc] by (simp add: b_def)
  ultimately show ?thesis
    using receivedD(1) [OF rc] received_read_ok [OF rc] by (auto simp: batch_holds_def)
qed

lemma retained_keeps_staged:
  assumes "stream_laws I G taken cap" and "cursor_ok plain"
    and "retained_try_new G staged plain = Inr (Some r)"
  shows "chunk_of I (ret_staged r) = chunk_of I staged"
    and "ret_staged r = None \<or> ret_staged r = staged"
    and "\<forall>k. staged = Some k \<longrightarrow> chunk_bytes I k \<noteq> [] \<Longrightarrow> ret_staged r = staged"
proof -
  have "ret_staged r = (case staged of Some k \<Rightarrow> if chunk_is_empty G k then None else Some k
      | None \<Rightarrow> None)"
    using assms(3) unfolding retained_try_new_def Let_def
    by (auto simp del: option.case_eq_if split: sum.splits if_split_asm)
  then have st: "ret_staged r = (case staged of Some k \<Rightarrow> if chunk_bytes I k = [] then None else Some k
      | None \<Rightarrow> None)"
    unfolding stream_lawsD(3) [OF assms(1)] .
  show "chunk_of I (ret_staged r) = chunk_of I staged" "ret_staged r = None \<or> ret_staged r = staged"
    by (simp_all add: st chunk_of_def split: option.split)
  show "ret_staged r = staged" if "\<forall>k. staged = Some k \<longrightarrow> chunk_bytes I k \<noteq> []"
    using that by (simp add: st split: option.split)
qed

text \<open>A stream is refused for its length, absent for no bytes, or holds all of them.\<close>

lemma retained_outcome:
  assumes sl: "stream_laws I G taken cap" and cu: "cursor_ok c"
  obtains (refused) e where "retained_try_new G staged c = Inl e"
      and "cap < length (chunk_of I staged @ cursor_view c)"
    | (empty) "retained_try_new G staged c = Inr None" and "chunk_of I staged @ cursor_view c = []"
    | (stream) r where "retained_try_new G staged c = Inr (Some r)" and "ret_inv I G taken cap r"
      and "ret_content I r = chunk_of I staged @ cursor_view c"
      and "chunk_of I staged @ cursor_view c \<noteq> []"
proof -
  let ?s = "length (chunk_of I staged)" and ?b = "length (cursor_view c)"
  note nu = retained_try_new_cases [OF sl cu, of staged]
  consider "cap < ?s" | "?s \<le> cap" "cap < ?s + ?b" | "?s + ?b \<le> cap" "?s + ?b = 0"
    | "?s + ?b \<le> cap" "?s + ?b \<noteq> 0" by linarith
  then show thesis
  proof cases
    case 1
    with nu(1) refused show thesis by (metis length_append trans_less_add1)
  next
    case 2
    with nu(2) refused show thesis by (metis length_append)
  next
    case 3
    with nu(3) empty show thesis by simp
  next
    case 4
    from nu(4) [OF 4] obtain r where "retained_try_new G staged c = Inr (Some r)"
      "ret_inv I G taken cap r" "ret_content I r = chunk_of I staged @ cursor_view c" by blast
    with 4(2) stream show thesis by simp
  qed
qed

text \<open>
  What a retained stream holds of it: exactly the plaintext that left the reader, unless its length
  is refused, which is an error.
\<close>

definition stream_holds ::
    "('r, 'k, 'f, 'g) ingress_ops \<Rightarrow> ('k, 'h) segment_ops \<Rightarrow> ('h \<Rightarrow> nat) \<Rightarrow> nat \<Rightarrow> 'c rustls_view \<Rightarrow>
     'c connection \<Rightarrow> 'k retained option \<Rightarrow> error + unit \<Rightarrow> release \<Rightarrow> 'c connection \<Rightarrow> bool" where
  "stream_holds I G taken cap V conn output result rel conn' \<longleftrightarrow>
     (case output of
        Some r \<Rightarrow> ret_inv I G taken cap r \<and> ret_content I r \<noteq> [] \<and>
          got V (native conn') = got V (native conn) @ ret_content I r @ unread V (native conn')
      | None \<Rightarrow> got V (native conn') = got V (native conn) @ unread V (native conn') \<or>
          (is_err result \<and> prefix (got V (native conn)) (got V (native conn')) \<and>
           cap < length (got V (native conn')) - length (got V (native conn)))) \<and>
     (rel = RelRetained \<longleftrightarrow> (\<exists>r. output = Some r \<and> ret_staged r \<noteq> None))"

lemma retain_run:
  assumes rl: "recv_laws N I V content" and "content recv = []" and "unread V (native conn) = []"
    and sl: "stream_laws I G taken cap"
  shows "\<exists>output result rel conn' pool'.
    retain N I G (ingress_new conn recv) bs pool = Some (output, result, rel, conn', pool') \<and>
    stream_holds I G taken cap V conn output result rel conn' \<and>
    read_ok I V conn pool result rel conn' pool'"
proof -
  obtain out pl conn1 pool1 where run: "owned N I conn bs recv pool = Some (out, pl, conn1, pool1)"
    and rc: "received N I V conn bs pool out pl conn1 pool1"
    using owned_run [OF assms(1-3), of False undefined bs pool] by auto
  have "pl_len pl \<le> length (pl_bytes pl)" using rc by (auto simp: received_def)
  note cu = cursor_new_ok [OF this]
  have got: "got V (native conn1) = got V (native conn) @
      (chunk_of I (so_chunk out) @ cursor_view (cursor_new pl)) @ unread V (native conn1)"
    using receivedD(1) [OF rc] cu by simp
  note full = receivedD(3) [OF rc] and rel = receivedD(4) [OF rc] and ok = received_read_ok [OF rc]
  note step = retain_def [of N I G "ingress_new conn recv" bs pool, simplified ingress_new_def
      ingress.select_convs run bind.bind_lunit prod.case Let_def, folded ingress_new_def]
  from sl conjunct1 [OF cu] show ?thesis
  proof (cases rule: retained_outcome [where staged = "so_chunk out"])
    case (refused e)
    define r where "r = (if is_err (so_control out) then so_control out else Inl e)"
    define pool' where "pool' = drop_unkept I (so_chunk out) (Inl e) pool1"
    have "retain N I G (ingress_new conn recv) bs pool =
        Some (None, r, RelReleased, conn1\<lparr>failed := True\<rparr>, pool')"
      unfolding step refused(1) by (simp add: r_def pool'_def)
    moreover have "recv_available I pool' = Suc (recv_available I pool)"
      using ok rel recv_return_available(2) [OF recv_lawsD(4) [OF rl]]
      by (cases "so_chunk out") (simp_all add: pool'_def drop_unkept_def read_ok_def)
    moreover have "is_err r" by (simp add: r_def)
    ultimately show ?thesis
      using ok refused(2) got by (auto simp: stream_holds_def read_ok_def)
  next
    case empty
    then have none: "so_chunk out = None" using full by (auto simp: chunk_of_def split: option.splits)
    then have "retain N I G (ingress_new conn recv) bs pool =
        Some (None, so_control out, so_released out, conn1, pool1)"
      unfolding step empty(1) by (simp add: drop_unkept_def)
    with none rel ok got empty(2) show ?thesis by (auto simp: stream_holds_def)
  next
    case (stream r)
    have st: "ret_staged r = so_chunk out"
      using retained_keeps_staged(3) [OF sl conjunct1 [OF cu] stream(1) full] .
    then have "retain N I G (ingress_new conn recv) bs pool =
        Some (Some r, so_control out, so_released out, conn1, pool1)"
      unfolding step stream(1) by (cases "so_chunk out") (simp_all add: drop_unkept_def)
    with st rel ok got stream(2-4) show ?thesis by (auto simp: stream_holds_def)
  qed
qed

section \<open>Properties\<close>

text \<open>
  C15. A batch read hands out the authenticated plaintext: at most two items, none empty, the pooled
  one first, whose bytes are exactly what was authenticated from this input and has left the reader;
  \<open>len\<close> is the number of items, and the reported release tells where the slot is.
\<close>

theorem read_batch_exact:
  assumes "recv_laws N I V content" and "content recv = []" and "unread V (native conn) = []"
  shows "\<exists>b result rel conn' pool'.
    read_batch N I (ingress_new conn recv) bs pool = Some (b, result, rel, conn', pool') \<and>
    got V (native conn') = got V (native conn) @ concat (map (item_bytes I) (batch_items b)) @
      unread V (native conn') \<and>
    (result = Inr () \<longrightarrow> unread V (native conn') = []) \<and>
    (\<forall>item\<in>set (batch_items b). item_bytes I item \<noteq> []) \<and>
    length (batch_items b) = batch_len b \<and> batch_len b \<le> MAX_ITEMS \<and>
    (rel = RelRetained \<longleftrightarrow> bt_owned b \<noteq> None) \<and>
    recv_available I pool' + of_bool (rel = RelRetained) = Suc (recv_available I pool) \<and>
    failed conn' = (failed conn \<or> is_err result) \<and> latch_le conn conn'"
  using read_batch_run [OF assms, of bs pool] unfolding batch_holds_def read_ok_def by metis

text \<open>
  C16. A retained read is exact: \<open>retain\<close> returns, and its stream is the authenticated plaintext in
  order, never an empty one; nothing is lost but by the transfer bound, which is reported as an
  error, raises \<open>failed\<close> and gives the slot back.
\<close>

theorem retain_exact:
  assumes "recv_laws N I V content" and "content recv = []" and "unread V (native conn) = []"
    and "stream_laws I G taken cap"
  shows "\<exists>output result rel conn' pool'.
    retain N I G (ingress_new conn recv) bs pool = Some (output, result, rel, conn', pool') \<and>
    stream_holds I G taken cap V conn output result rel conn' \<and>
    read_ok I V conn pool result rel conn' pool'"
  by (rule retain_run [OF assms])

theorem read_batch_exact_witness:
  "\<exists>b result rel conn' pool'.
    read_batch ref_rustls ref_ingress (ingress_new ref_rx_conn []) [6, 2, 7, 8] (Growing 1) =
      Some (b, result, rel, conn', pool') \<and> batch_len b \<le> 2 \<and>
    recv_available ref_ingress pool' + of_bool (rel = RelRetained) = 2"
  using read_batch_exact [OF ref_recv_laws _ ref_rx_conn_rest(1), of "[]" "[6, 2, 7, 8]" "Growing 1"]
  by (fastforce simp: MAX_ITEMS_def ref_ingress_def)

theorem retain_exact_witness:
  "\<exists>output result rel conn' pool'.
    retain ref_rustls ref_ingress ref_segment (ingress_new ref_rx_conn []) [6, 2, 7, 8] (Growing 1) =
      Some (output, result, rel, conn', pool') \<and>
    recv_available ref_ingress pool' + of_bool (rel = RelRetained) = 2"
  using retain_exact [OF ref_recv_laws _ ref_rx_conn_rest(1) ref_stream_laws,
      of "[]" "[6, 2, 7, 8]" "Growing 1"]
  by (fastforce simp: read_ok_def ref_ingress_def)

end
