(* ===== verification/Waiters.thy ===== *)
theory Waiters
  imports Prelude "HOL-Library.Multiset"
begin

text \<open>
  The waiters for receive slots and for handshake egress (\<open>src/tls/receive/waiters.rs\<close>): two FIFO
  lanes of receive credits over one index space. A registration is rolled back, and its credit
  cancelled, unless it is committed. What a credit is told is an event.
\<close>

section \<open>Library parameters\<close>

text \<open>A credit's identity: the slot of its connection and the rest of its key.\<close>

record credit_id =
  id_slot :: nat
  id_key :: nat

datatype entry_error = EntryError nat

text \<open>
  \<open>lanes::Fifo\<close>: FIFO lanes by number whose entries are indexed; an inserted entry is removed again by
  its rollback proof or kept by \<open>commit\<close>.
\<close>

record 'q lane_ops =
  lane_vacant :: "nat \<Rightarrow> nat \<Rightarrow> 'q \<Rightarrow> entry_error + unit"
  lane_insert :: "nat \<Rightarrow> nat \<Rightarrow> credit_id \<Rightarrow> 'q \<Rightarrow> 'q"
  lane_commit :: "nat \<Rightarrow> nat \<Rightarrow> 'q \<Rightarrow> 'q"
  lane_remove :: "nat \<Rightarrow> nat \<Rightarrow> 'q \<Rightarrow> credit_id \<times> 'q"
  lane_pop :: "nat \<Rightarrow> 'q \<Rightarrow> credit_id option \<times> 'q"
  lane_is_empty :: "nat \<Rightarrow> 'q \<Rightarrow> bool"
  lane_remove_if :: "nat \<Rightarrow> (credit_id \<Rightarrow> bool) \<Rightarrow> 'q \<Rightarrow> credit_id option \<times> 'q"

section \<open>State and operations\<close>

datatype resource = Recv | HandshakeEgress

primrec lane :: "resource \<Rightarrow> nat" where
  "lane Recv = 0"
| "lane HandshakeEgress = 1"

text \<open>What a held credit is told: to retry its receive, or that it is cancelled.\<close>

datatype event = Retry credit_id | Cancelled credit_id

text \<open>A registration is the proof of its insertion.\<close>

record registration =
  rg_proof :: "(resource \<times> nat) option"

definition waiters_register ::
    "'q lane_ops \<Rightarrow> resource \<Rightarrow> credit_id \<Rightarrow> 'q \<Rightarrow> (entry_error + registration) \<times> 'q" where
  "waiters_register L kind credit q =
     (let index = id_slot credit
      in case lane_vacant L (lane kind) index q of
           Inl e \<Rightarrow> (Inl e, q)
         | Inr _ \<Rightarrow>
             (Inr \<lparr> rg_proof = Some (kind, index) \<rparr>, lane_insert L (lane kind) index credit q))"

definition proof_commit :: "'q lane_ops \<Rightarrow> resource \<times> nat \<Rightarrow> 'q \<Rightarrow> 'q" where
  "proof_commit L p q = lane_commit L (lane (fst p)) (snd p) q"

definition proof_remove :: "'q lane_ops \<Rightarrow> resource \<times> nat \<Rightarrow> 'q \<Rightarrow> credit_id \<times> 'q" where
  "proof_remove L p q = lane_remove L (lane (fst p)) (snd p) q"

definition registration_commit :: "'q lane_ops \<Rightarrow> registration \<Rightarrow> 'q \<Rightarrow> registration \<times> 'q" where
  "registration_commit L rg q =
     (case rg_proof rg of
        Some p \<Rightarrow> (rg\<lparr>rg_proof := None\<rparr>, proof_commit L p q)
      | None \<Rightarrow> (rg, q))"

definition registration_drop :: "'q lane_ops \<Rightarrow> registration \<Rightarrow> 'q \<Rightarrow> event list \<times> 'q" where
  "registration_drop L rg q =
     (case rg_proof rg of
        Some p \<Rightarrow> let (guard, q') = proof_remove L p q in ([Cancelled guard], q')
      | None \<Rightarrow> ([], q))"

definition waiters_take :: "'q lane_ops \<Rightarrow> resource \<Rightarrow> 'q \<Rightarrow> credit_id option \<times> 'q" where
  "waiters_take L kind q = lane_pop L (lane kind) q"

definition waiters_wake :: "'q lane_ops \<Rightarrow> resource \<Rightarrow> 'q \<Rightarrow> event list \<times> 'q" where
  "waiters_wake L kind q =
     (case waiters_take L kind q of
        (Some guard, q') \<Rightarrow> ([Retry guard], q')
      | (None, q') \<Rightarrow> ([], q'))"

definition has_waiters :: "'q lane_ops \<Rightarrow> resource \<Rightarrow> 'q \<Rightarrow> bool" where
  "has_waiters L kind q \<longleftrightarrow> \<not> lane_is_empty L (lane kind) q"

definition waiters_cancel :: "'q lane_ops \<Rightarrow> credit_id \<Rightarrow> 'q \<Rightarrow> event list \<times> 'q" where
  "waiters_cancel L target q =
     (case lane_remove_if L (id_slot target) (\<lambda>guard. guard = target) q of
        (None, q') \<Rightarrow> ([], q')
      | (Some guard, q') \<Rightarrow> ([Cancelled guard], q'))"

text \<open>The resources in the order of their lanes.\<close>

instantiation resource :: linorder
begin

definition less_eq_resource :: "resource \<Rightarrow> resource \<Rightarrow> bool" where
  "less_eq_resource a b \<longleftrightarrow> lane a \<le> lane b"

definition less_resource :: "resource \<Rightarrow> resource \<Rightarrow> bool" where
  "less_resource a b \<longleftrightarrow> lane a < lane b"

instance
proof
  show "a \<le> b \<Longrightarrow> b \<le> a \<Longrightarrow> a = b" for a b :: resource
    by (cases a; cases b) (simp_all add: less_eq_resource_def)
qed (auto simp: less_eq_resource_def less_resource_def)

end

section \<open>Laws of the lanes\<close>

text \<open>
  \<open>entries q l\<close> is what lane \<open>l\<close> holds, in order. An index is vacant while it is in range and in no
  lane; insertion appends, \<open>pop\<close> takes the first, removal keeps the order of the rest.
\<close>

definition indices :: "('q \<Rightarrow> nat \<Rightarrow> (nat \<times> credit_id) list) \<Rightarrow> 'q \<Rightarrow> nat set" where
  "indices entries q = fst ` (set (entries q 0) \<union> set (entries q 1))"

definition lane_laws ::
    "'q lane_ops \<Rightarrow> ('q \<Rightarrow> nat \<Rightarrow> (nat \<times> credit_id) list) \<Rightarrow> nat \<Rightarrow> bool" where
  "lane_laws L entries cap \<longleftrightarrow>
     (\<forall>l i q. lane_vacant L l i q = Inr () \<longleftrightarrow> i < cap \<and> i \<notin> indices entries q) \<and>
     (\<forall>l i c q. entries (lane_insert L l i c q) = (entries q)(l := entries q l @ [(i, c)])) \<and>
     (\<forall>l i q. entries (lane_commit L l i q) = entries q) \<and>
     (\<forall>l i c q. (i, c) \<in> set (entries q l) \<longrightarrow> distinct (map fst (entries q l)) \<longrightarrow>
        (\<exists>q'. lane_remove L l i q = (c, q') \<and>
           entries q' = (entries q)(l := filter (\<lambda>e. fst e \<noteq> i) (entries q l)))) \<and>
     (\<forall>l q. entries q l = [] \<longrightarrow> (\<exists>q'. lane_pop L l q = (None, q') \<and> entries q' = entries q)) \<and>
     (\<forall>l q i c es. entries q l = (i, c) # es \<longrightarrow>
        (\<exists>q'. lane_pop L l q = (Some c, q') \<and> entries q' = (entries q)(l := es))) \<and>
     (\<forall>l q. lane_is_empty L l q \<longleftrightarrow> entries q l = []) \<and>
     (\<forall>i P q. (\<exists>q'. lane_remove_if L i P q = (None, q') \<and> entries q' = entries q \<and>
          (\<forall>l<2. \<forall>c. (i, c) \<in> set (entries q l) \<longrightarrow> \<not> P c)) \<or>
        (\<exists>l<2. \<exists>c q'. lane_remove_if L i P q = (Some c, q') \<and> (i, c) \<in> set (entries q l) \<and> P c \<and>
          entries q' = (entries q)(l := filter (\<lambda>e. fst e \<noteq> i) (entries q l))))"

text \<open>The credits that wait for a resource, first come first.\<close>

definition waiting ::
    "('q \<Rightarrow> nat \<Rightarrow> (nat \<times> credit_id) list) \<Rightarrow> resource \<Rightarrow> 'q \<Rightarrow> credit_id list" where
  "waiting entries kind q = map snd (entries q (lane kind))"

text \<open>Every index is waiting at most once, under the slot of its credit.\<close>

definition lanes_ok ::
    "'q lane_ops \<Rightarrow> ('q \<Rightarrow> nat \<Rightarrow> (nat \<times> credit_id) list) \<Rightarrow> nat \<Rightarrow> 'q \<Rightarrow> bool" where
  "lanes_ok L entries cap q \<longleftrightarrow> lane_laws L entries cap \<and>
     distinct (map fst (entries q 0 @ entries q 1)) \<and>
     (\<forall>k. \<forall>e\<in>set (entries q (lane k)). fst e = id_slot (snd e))"

lemma lane_laws_cases:
  assumes "lane_laws L entries cap"
  shows "lane_vacant L l i q = Inr () \<longleftrightarrow> i < cap \<and> i \<notin> indices entries q"
    and "entries (lane_insert L l i c q) = (entries q)(l := entries q l @ [(i, c)])"
    and "entries (lane_commit L l i q) = entries q"
    and "(i, c) \<in> set (entries q l) \<Longrightarrow> distinct (map fst (entries q l)) \<Longrightarrow>
        \<exists>q'. lane_remove L l i q = (c, q') \<and>
           entries q' = (entries q)(l := filter (\<lambda>e. fst e \<noteq> i) (entries q l))"
    and "entries q l = [] \<Longrightarrow> \<exists>q'. lane_pop L l q = (None, q') \<and> entries q' = entries q"
    and "entries q l = (i, c) # es \<Longrightarrow>
        \<exists>q'. lane_pop L l q = (Some c, q') \<and> entries q' = (entries q)(l := es)"
    and "lane_is_empty L l q \<longleftrightarrow> entries q l = []"
    and "(\<exists>q'. lane_remove_if L i P q = (None, q') \<and> entries q' = entries q \<and>
          (\<forall>l<2. \<forall>c. (i, c) \<in> set (entries q l) \<longrightarrow> \<not> P c)) \<or>
        (\<exists>l<2. \<exists>c q'. lane_remove_if L i P q = (Some c, q') \<and> (i, c) \<in> set (entries q l) \<and> P c \<and>
          entries q' = (entries q)(l := filter (\<lambda>e. fst e \<noteq> i) (entries q l)))"
proof -
  note laws = assms [unfolded lane_laws_def]
  show "lane_vacant L l i q = Inr () \<longleftrightarrow> i < cap \<and> i \<notin> indices entries q"
    "entries (lane_insert L l i c q) = (entries q)(l := entries q l @ [(i, c)])"
    "entries (lane_commit L l i q) = entries q" "lane_is_empty L l q \<longleftrightarrow> entries q l = []"
    using laws by (elim conjE, simp)+
  show "(i, c) \<in> set (entries q l) \<Longrightarrow> distinct (map fst (entries q l)) \<Longrightarrow>
        \<exists>q'. lane_remove L l i q = (c, q') \<and>
           entries q' = (entries q)(l := filter (\<lambda>e. fst e \<noteq> i) (entries q l))"
    "entries q l = [] \<Longrightarrow> \<exists>q'. lane_pop L l q = (None, q') \<and> entries q' = entries q"
    "entries q l = (i, c) # es \<Longrightarrow>
        \<exists>q'. lane_pop L l q = (Some c, q') \<and> entries q' = (entries q)(l := es)"
    using laws by (elim conjE, simp)+
  show "(\<exists>q'. lane_remove_if L i P q = (None, q') \<and> entries q' = entries q \<and>
          (\<forall>l<2. \<forall>c. (i, c) \<in> set (entries q l) \<longrightarrow> \<not> P c)) \<or>
        (\<exists>l<2. \<exists>c q'. lane_remove_if L i P q = (Some c, q') \<and> (i, c) \<in> set (entries q l) \<and> P c \<and>
          entries q' = (entries q)(l := filter (\<lambda>e. fst e \<noteq> i) (entries q l)))"
    using laws by (elim conjE) (erule_tac x = i in allE, erule_tac x = P in allE,
        erule_tac x = q in allE, assumption)
qed

section \<open>Operations on the waiting credits\<close>

lemma lane_lt: "lane k < 2" "lane k = lane k' \<longleftrightarrow> k = k'"
  by (cases k; cases k'; simp)+

lemma lane_cases: "l < 2 \<Longrightarrow> \<exists>k. l = lane k"
  by (cases "l = 0") (auto intro: exI [of _ Recv] exI [of _ HandshakeEgress])

lemma lanes_okD:
  assumes "lanes_ok L entries cap q"
  shows "lane_laws L entries cap" and "distinct (map fst (entries q (lane k)))"
    and "(i, c) \<in> set (entries q (lane k)) \<Longrightarrow> i = id_slot c"
    and "(i, c) \<in> set (entries q (lane k)) \<Longrightarrow> (i, c') \<in> set (entries q (lane k')) \<Longrightarrow>
      k = k' \<and> c = c'"
proof -
  show "lane_laws L entries cap" using assms by (simp add: lanes_ok_def)
  show dist: "distinct (map fst (entries q (lane k)))" for k
    using assms by (cases k) (simp_all add: lanes_ok_def)
  show "(i, c) \<in> set (entries q (lane k)) \<Longrightarrow> i = id_slot c"
    using assms by (force simp: lanes_ok_def)
  assume *: "(i, c) \<in> set (entries q (lane k))" "(i, c') \<in> set (entries q (lane k'))"
  have "i \<in> fst ` set (entries q (lane k)) \<inter> fst ` set (entries q (lane k'))"
    using * by force
  then have "k = k'" using assms by (cases k; cases k') (auto simp: lanes_ok_def)
  moreover have "c = c'" using * dist [of k] calculation by (auto dest: eq_key_imp_eq_value)
  ultimately show "k = k' \<and> c = c'" ..
qed

text \<open>Replacing a lane by a sublist of it keeps everything in order.\<close>

lemma lanes_ok_shrink:
  assumes ok: "lanes_ok L entries cap q" and q': "entries q' = (entries q)(lane k := es)"
    and sub: "set es \<subseteq> set (entries q (lane k))" and dist: "distinct (map fst es)"
  shows "lanes_ok L entries cap q'"
proof -
  have "fst ` set es \<subseteq> fst ` set (entries q (lane k))" using sub by auto
  moreover have "fst ` set (entries q 0) \<inter> fst ` set (entries q 1) = {}"
    using ok by (simp add: lanes_ok_def)
  ultimately have "distinct (map fst (entries q' 0 @ entries q' 1))"
    using dist lanes_okD(2) [OF ok, of Recv] lanes_okD(2) [OF ok, of HandshakeEgress]
    by (cases k) (auto simp: q')
  moreover have "fst e = id_slot (snd e)" if "e \<in> set (entries q' (lane j))" for e j
  proof -
    have "e \<in> set (entries q (lane j))" using that sub by (auto simp: q' lane_lt split: if_splits)
    with ok show ?thesis by (simp add: lanes_ok_def)
  qed
  ultimately show ?thesis using ok by (simp add: lanes_ok_def)
qed

lemma lanes_ok_same: "lanes_ok L entries cap q \<Longrightarrow> entries q' = entries q \<Longrightarrow> lanes_ok L entries cap q'"
  by (simp add: lanes_ok_def)

lemma waiting_upd:
  "entries q' = (entries q)(lane k := es) \<Longrightarrow>
     waiting entries k' q' = (if k' = k then map snd es else waiting entries k' q)"
  by (simp add: waiting_def lane_lt(2))

lemma waiting_same: "entries q' = entries q \<Longrightarrow> waiting entries k q' = waiting entries k q"
  by (simp add: waiting_def)

text \<open>The waiting credits with one of them removed, in place.\<close>

lemma filter_slot:
  assumes ok: "lanes_ok L entries cap q" and c: "(i, c) \<in> set (entries q (lane k))"
  shows "map snd (filter (\<lambda>e. fst e \<noteq> i) (entries q (lane k))) =
    filter (\<lambda>w. w \<noteq> c) (waiting entries k q)"
proof -
  have "fst e \<noteq> i \<longleftrightarrow> snd e \<noteq> c" if "e \<in> set (entries q (lane k))" for e
  proof
    assume "fst e \<noteq> i"
    then show "snd e \<noteq> c"
      using that c lanes_okD(3) [OF ok, of "fst e" "snd e" k] lanes_okD(3) [OF ok c] by auto
  next
    assume "snd e \<noteq> c"
    then show "fst e \<noteq> i"
      using that lanes_okD(4) [OF ok c, of "snd e" k] by (cases e) auto
  qed
  then have "filter (\<lambda>e. fst e \<noteq> i) (entries q (lane k)) =
      filter (\<lambda>e. snd e \<noteq> c) (entries q (lane k))" by (intro filter_cong refl)
  then show ?thesis by (simp add: waiting_def filter_map comp_def)
qed

lemma waiting_distinct:
  assumes "lanes_ok L entries cap q"
  shows "distinct (map id_slot (waiting entries k q))"
proof -
  have "map id_slot (waiting entries k q) = map fst (entries q (lane k))"
    using lanes_okD(3) [OF assms] by (auto simp: waiting_def)
  with lanes_okD(2) [OF assms] show ?thesis by simp
qed

lemma register_spec:
  assumes ok: "lanes_ok L entries cap q" and run: "waiters_register L k c q = (r, q')"
  shows "case r of
      Inl _ \<Rightarrow> q' = q \<and> (cap \<le> id_slot c \<or> (\<exists>k'. id_slot c \<in> id_slot ` set (waiting entries k' q)))
    | Inr rg \<Rightarrow> rg_proof rg = Some (k, id_slot c) \<and> lanes_ok L entries cap q' \<and>
        entries q' = (entries q)(lane k := entries q (lane k) @ [(id_slot c, c)]) \<and>
        id_slot c \<notin> indices entries q"
proof -
  note laws = lane_laws_cases [OF lanes_okD(1) [OF ok]]
  have ind: "indices entries q =
      id_slot ` (set (waiting entries Recv q) \<union> set (waiting entries HandshakeEgress q))"
    using lanes_okD(3) [OF ok, of _ _ Recv] lanes_okD(3) [OF ok, of _ _ HandshakeEgress]
    by (force simp: indices_def waiting_def image_iff)
  show ?thesis
  proof (cases "lane_vacant L (lane k) (id_slot c) q")
    case (Inl e)
    then have "\<not> (id_slot c < cap \<and> id_slot c \<notin> indices entries q)"
      using laws(1) [of "lane k" "id_slot c" q] by simp
    then have "cap \<le> id_slot c \<or> (\<exists>k'. id_slot c \<in> id_slot ` set (waiting entries k' q))"
      unfolding ind image_Un by (auto simp del: image_iff)
    moreover have "r = Inl e" "q' = q"
      using Inl run by (simp_all add: waiters_register_def Let_def)
    ultimately show ?thesis by simp
  next
    case (Inr u)
    then have new: "id_slot c \<notin> indices entries q"
      using laws(1) [of "lane k" "id_slot c" q] by simp
    have q': "q' = lane_insert L (lane k) (id_slot c) c q"
      and r: "r = Inr \<lparr> rg_proof = Some (k, id_slot c) \<rparr>"
      using run Inr by (auto simp: waiters_register_def Let_def)
    have ent: "entries q' = (entries q)(lane k := entries q (lane k) @ [(id_slot c, c)])"
      by (simp add: q' laws(2))
    have "\<forall>j. \<forall>e\<in>set (entries q' (lane j)). fst e = id_slot (snd e)"
      using ok by (simp add: lanes_ok_def ent lane_lt(2))
    moreover have "distinct (map fst (entries q' 0 @ entries q' 1))"
      using ok new by (cases k) (auto simp: lanes_ok_def ent indices_def)
    ultimately have "lanes_ok L entries cap q'" using ok by (simp add: lanes_ok_def)
    with r ent new show ?thesis by simp
  qed
qed

lemma commit_spec:
  assumes "lanes_ok L entries cap q" and "registration_commit L rg q = (rg', q')"
  shows "entries q' = entries q" and "lanes_ok L entries cap q'" and "rg_proof rg' = None"
proof -
  show "entries q' = entries q" "rg_proof rg' = None"
    using assms(2) lane_laws_cases(3) [OF lanes_okD(1) [OF assms(1)]]
    by (auto simp: registration_commit_def proof_commit_def split: option.splits)
  then show "lanes_ok L entries cap q'" using lanes_ok_same [OF assms(1)] by blast
qed

text \<open>A rollback right after the registration takes the same credit out again and cancels it.\<close>

lemma drop_spec:
  assumes ok: "lanes_ok L entries cap q" and reg: "waiters_register L k c q = (Inr rg, q1)"
    and drp: "registration_drop L rg q1 = (evs, q')"
  shows "evs = [Cancelled c]" and "entries q' = entries q" and "lanes_ok L entries cap q'"
proof -
  note r = register_spec [OF ok reg, simplified]
  note ok1 = conjunct1 [OF conjunct2 [OF r]]
  have "(id_slot c, c) \<in> set (entries q1 (lane k))" using r by simp
  then obtain q2 where q2: "lane_remove L (lane k) (id_slot c) q1 = (c, q2)"
    "entries q2 = (entries q1)(lane k := filter (\<lambda>e. fst e \<noteq> id_slot c) (entries q1 (lane k)))"
    using lane_laws_cases(4) [OF lanes_okD(1) [OF ok] _ lanes_okD(2) [OF ok1]] by blast
  have "\<forall>e\<in>set (entries q (lane k)). fst e \<noteq> id_slot c"
    using r by (cases k) (force simp: indices_def)+
  then have "filter (\<lambda>e. fst e \<noteq> id_slot c) (entries q (lane k)) = entries q (lane k)"
    by (simp add: filter_id_conv)
  then have "entries q2 = entries q" using q2(2) r by simp
  moreover have "evs = [Cancelled c] \<and> q' = q2"
    using drp r q2(1) by (simp add: registration_drop_def proof_remove_def)
  ultimately show "evs = [Cancelled c]" "entries q' = entries q" "lanes_ok L entries cap q'"
    using lanes_ok_same [OF ok] by auto
qed

lemma take_spec:
  assumes ok: "lanes_ok L entries cap q" and run: "waiters_take L k q = (oc, q')"
  shows "lanes_ok L entries cap q'"
    and "oc = (case waiting entries k q of [] \<Rightarrow> None | c # _ \<Rightarrow> Some c)"
    and "waiting entries k' q' = (if k' = k then tl (waiting entries k q) else waiting entries k' q)"
proof -
  note laws = lane_laws_cases [OF lanes_okD(1) [OF ok]]
  have "lanes_ok L entries cap q' \<and>
      oc = (case waiting entries k q of [] \<Rightarrow> None | c # _ \<Rightarrow> Some c) \<and>
      waiting entries k' q' = (if k' = k then tl (waiting entries k q) else waiting entries k' q)"
  proof (cases "entries q (lane k)")
    case Nil
    with laws(5) [of q "lane k"] run have "oc = None" "entries q' = entries q"
      by (auto simp: waiters_take_def)
    with Nil lanes_ok_same [OF ok] waiting_same [of entries q' q k'] show ?thesis
      by (auto simp: waiting_def)
  next
    case (Cons e es)
    obtain i c where e: "e = (i, c)" by fastforce
    with laws(6) [of q "lane k" i c es] Cons run
    have q': "oc = Some c" "entries q' = (entries q)(lane k := es)"
      by (auto simp: waiters_take_def)
    have "lanes_ok L entries cap q'"
      using lanes_ok_shrink [OF ok q'(2)] Cons lanes_okD(2) [OF ok, of k] by auto
    with q' Cons e waiting_upd [of entries q' q k es k'] show ?thesis by (simp add: waiting_def)
  qed
  then show "lanes_ok L entries cap q'"
    "oc = (case waiting entries k q of [] \<Rightarrow> None | c # _ \<Rightarrow> Some c)"
    "waiting entries k' q' = (if k' = k then tl (waiting entries k q) else waiting entries k' q)"
    by auto
qed

lemma cancel_spec:
  assumes ok: "lanes_ok L entries cap q" and run: "waiters_cancel L c q = (evs, q')"
  shows "lanes_ok L entries cap q'"
    and "evs = (if \<exists>k. c \<in> set (waiting entries k q) then [Cancelled c] else [])"
    and "waiting entries k' q' = filter (\<lambda>w. w \<noteq> c) (waiting entries k' q)"
proof -
  note laws = lane_laws_cases [OF lanes_okD(1) [OF ok]]
  have "lanes_ok L entries cap q' \<and>
      evs = (if \<exists>k. c \<in> set (waiting entries k q) then [Cancelled c] else []) \<and>
      waiting entries k' q' = filter (\<lambda>w. w \<noteq> c) (waiting entries k' q)"
    using laws(8) [of "id_slot c" "\<lambda>g. g = c" q]
  proof (elim disjE exE conjE)
    fix q1
    assume q1: "lane_remove_if L (id_slot c) (\<lambda>g. g = c) q = (None, q1)" "entries q1 = entries q"
      and none: "\<forall>l<2. \<forall>d. (id_slot c, d) \<in> set (entries q l) \<longrightarrow> d \<noteq> c"
    have out: "c \<notin> set (waiting entries k q)" for k
    proof
      assume "c \<in> set (waiting entries k q)"
      then obtain i where "(i, c) \<in> set (entries q (lane k))" by (auto simp: waiting_def)
      with lanes_okD(3) [OF ok this] none lane_lt(1) [of k] show False by blast
    qed
    have "evs = []" "q' = q1" using run q1(1) by (simp_all add: waiters_cancel_def)
    moreover have "filter (\<lambda>w. w \<noteq> c) (waiting entries k' q) = waiting entries k' q"
      using out [of k'] by (auto intro: filter_True)
    ultimately show ?thesis
      using out lanes_ok_same [OF ok q1(2)] waiting_same [OF q1(2), of k'] by auto
  next
    fix l d q1
    assume l: "l < 2" and q1: "lane_remove_if L (id_slot c) (\<lambda>g. g = c) q = (Some d, q1)" "d = c"
      "(id_slot c, d) \<in> set (entries q l)"
      "entries q1 = (entries q)(l := filter (\<lambda>e. fst e \<noteq> id_slot c) (entries q l))"
    from lane_cases [OF l] obtain k where k: "l = lane k" by blast
    have mem: "(id_slot c, c) \<in> set (entries q (lane k))" using q1 k by simp
    have ev: "evs = [Cancelled c]" "q' = q1" using run q1(1,2) by (simp_all add: waiters_cancel_def)
    have "lanes_ok L entries cap q1"
      using lanes_ok_shrink [OF ok q1(4) [unfolded k]] lanes_okD(2) [OF ok, of k]
      by (auto simp: distinct_map_filter)
    moreover have "c \<in> set (waiting entries k q)" using mem by (force simp: waiting_def)
    moreover have "waiting entries k' q1 = filter (\<lambda>w. w \<noteq> c) (waiting entries k' q)"
    proof (cases "k' = k")
      case True
      with waiting_upd [OF q1(4) [unfolded k], of k'] filter_slot [OF ok mem] show ?thesis by simp
    next
      case False
      have "c \<notin> set (waiting entries k' q)"
        using lanes_okD(3) [OF ok, of _ c k'] lanes_okD(4) [OF ok mem, of c k'] False
        by (auto simp: waiting_def)
      then have "filter (\<lambda>w. w \<noteq> c) (waiting entries k' q) = waiting entries k' q"
        by (auto intro: filter_True)
      with waiting_upd [OF q1(4) [unfolded k], of k'] False show ?thesis by simp
    qed
    ultimately show ?thesis using ev by auto
  qed
  then show "lanes_ok L entries cap q'"
    "evs = (if \<exists>k. c \<in> set (waiting entries k q) then [Cancelled c] else [])"
    "waiting entries k' q' = filter (\<lambda>w. w \<noteq> c) (waiting entries k' q)" by blast+
qed

end
