(* ===== verification/Waiters_Correct.thy ===== *)
theory Waiters_Correct
  imports Waiters
begin

text \<open>
  No waiter is lost, served twice or overtaken: the queue of waiters keeps every credit it admitted
  until it is retried, taken or cancelled, and serves each lane in the order of admission.
\<close>

section \<open>Serving in order\<close>

fun take_many :: "('q \<Rightarrow> 'w option \<times> 'q) \<Rightarrow> nat \<Rightarrow> 'q \<Rightarrow> 'w option list \<times> 'q" where
  "take_many serve 0 q = ([], q)"
| "take_many serve (Suc n) q =
     (let (w, q') = serve q; (ws, q'') = take_many serve n q' in (w # ws, q''))"

text \<open>The contract of a lane: it hands out its first waiter and keeps the rest.\<close>

locale wait_queue =
  fixes inv :: "'q \<Rightarrow> bool"
    and queue :: "'q \<Rightarrow> 'w list"
    and serve :: "'q \<Rightarrow> 'w option \<times> 'q"
  assumes serve_inv: "inv q \<Longrightarrow> inv (snd (serve q))"
    and serve_first: "inv q \<Longrightarrow> fst (serve q) = (case queue q of [] \<Rightarrow> None | w # _ \<Rightarrow> Some w)"
    and serve_rest: "inv q \<Longrightarrow> queue (snd (serve q)) = tl (queue q)"
begin

lemma take_many_serves:
  "inv q \<Longrightarrow> take_many serve n q = (ws, q') \<Longrightarrow>
     inv q' \<and> queue q' = drop n (queue q) \<and>
     ws = map Some (take n (queue q)) @ replicate (n - length (queue q)) None"
proof (induction n arbitrary: q ws q')
  case (Suc n)
  obtain w q1 where q1: "serve q = (w, q1)" by fastforce
  obtain ws1 q2 where q2: "take_many serve n q1 = (ws1, q2)" by fastforce
  have "inv q1" using serve_inv [OF Suc.prems(1)] q1 by simp
  from Suc.IH [OF this q2] Suc.prems(2) q1 q2
  have "inv q'" "queue q' = drop n (queue q1)"
    "ws = w # map Some (take n (queue q1)) @ replicate (n - length (queue q1)) None"
    by auto
  then show ?case
    using serve_first [OF Suc.prems(1)] serve_rest [OF Suc.prems(1)] q1
    by (cases "queue q") (simp_all add: replicate_Suc [symmetric] del: replicate_Suc)
qed simp

text \<open>Every waiter is served after those before it: the waiter at position \<open>i\<close> at turn \<open>i + 1\<close>.\<close>

lemma served_in_turn:
  "inv q \<Longrightarrow> i < length (queue q) \<Longrightarrow> fst (take_many serve (Suc i) q) ! i = Some (queue q ! i)"
  using take_many_serves [of q "Suc i"] by (cases "take_many serve (Suc i) q") (simp add: nth_append)

end

interpretation waiters_lane: wait_queue "lanes_ok L entries cap" "waiting entries k" "waiters_take L k"
proof
  fix q
  assume ok: "lanes_ok L entries cap q"
  obtain w q' where run: "waiters_take L k q = (w, q')" by fastforce
  from take_spec [OF ok run]
  show "lanes_ok L entries cap (snd (waiters_take L k q))"
    "fst (waiters_take L k q) = (case waiting entries k q of [] \<Rightarrow> None | w # _ \<Rightarrow> Some w)"
    "waiting entries k (snd (waiters_take L k q)) = tl (waiting entries k q)"
    by (simp_all add: run)
qed

fun wake_many :: "'q lane_ops \<Rightarrow> resource \<Rightarrow> nat \<Rightarrow> 'q \<Rightarrow> event list \<times> 'q" where
  "wake_many L k 0 q = ([], q)"
| "wake_many L k (Suc n) q =
     (let (evs, q') = waiters_wake L k q; (evs', q'') = wake_many L k n q' in (evs @ evs', q''))"

lemma wake_many_takes:
  "wake_many L k n q =
     (let (ws, q') = take_many (waiters_take L k) n q
      in (concat (map (\<lambda>w. case w of Some c \<Rightarrow> [Retry c] | None \<Rightarrow> []) ws), q'))"
  by (induction n arbitrary: q) (auto simp: waiters_wake_def Let_def split: prod.splits option.splits)

lemma take_many_other:
  "lanes_ok L entries cap q \<Longrightarrow> take_many (waiters_take L k) n q = (ws, q') \<Longrightarrow> k' \<noteq> k \<Longrightarrow>
     waiting entries k' q' = waiting entries k' q"
proof (induction n arbitrary: q ws q')
  case (Suc n)
  obtain w q1 where q1: "waiters_take L k q = (w, q1)" by fastforce
  obtain ws1 q2 where q2: "take_many (waiters_take L k) n q1 = (ws1, q2)" by fastforce
  note t = take_spec [OF Suc.prems(1) q1]
  from Suc.IH [OF t(1) q2 Suc.prems(3)] t(3) [of k'] Suc.prems(2,3) q1 q2 show ?case by auto
qed simp

section \<open>Conservation\<close>

text \<open>
  What the driver does with the queue: registers a credit and keeps or abandons the registration
  (which is dropped either way), takes or wakes the first waiter of a resource, cancels a credit.
\<close>

datatype wait_op =
    Join resource credit_id
  | Abandon resource credit_id
  | Serve resource
  | Wake resource
  | Revoke credit_id

primrec event_id :: "event \<Rightarrow> credit_id" where
  "event_id (Retry c) = c"
| "event_id (Cancelled c) = c"

text \<open>A step: the credits admitted, those let go, and the queue.\<close>

fun wait_step ::
    "'q lane_ops \<Rightarrow> wait_op \<Rightarrow> 'q \<Rightarrow> credit_id list \<times> credit_id list \<times> 'q" where
  "wait_step L (Join k c) q =
     (case waiters_register L k c q of
        (Inl _, q') \<Rightarrow> ([], [], q')
      | (Inr rg, q') \<Rightarrow>
          let (rg', q'') = registration_commit L rg q'; (evs, q3) = registration_drop L rg' q''
          in ([c], map event_id evs, q3))"
| "wait_step L (Abandon k c) q =
     (case waiters_register L k c q of
        (Inl _, q') \<Rightarrow> ([], [], q')
      | (Inr rg, q') \<Rightarrow> let (evs, q'') = registration_drop L rg q' in ([c], map event_id evs, q''))"
| "wait_step L (Serve k) q =
     (let (w, q') = waiters_take L k q in ([], case w of None \<Rightarrow> [] | Some c \<Rightarrow> [c], q'))"
| "wait_step L (Wake k) q = (let (evs, q') = waiters_wake L k q in ([], map event_id evs, q'))"
| "wait_step L (Revoke c) q = (let (evs, q') = waiters_cancel L c q in ([], map event_id evs, q'))"

fun wait_run ::
    "'q lane_ops \<Rightarrow> wait_op list \<Rightarrow> 'q \<Rightarrow> credit_id list \<times> credit_id list \<times> 'q" where
  "wait_run L [] q = ([], [], q)"
| "wait_run L (op # ops) q =
     (let (ins, outs, q') = wait_step L op q; (ins', outs', q'') = wait_run L ops q'
      in (ins @ ins', outs @ outs', q''))"

definition all_waiting ::
    "('q \<Rightarrow> nat \<Rightarrow> (nat \<times> credit_id) list) \<Rightarrow> 'q \<Rightarrow> credit_id multiset" where
  "all_waiting entries q = mset (waiting entries Recv q) + mset (waiting entries HandshakeEgress q)"

lemma all_waiting_same: "entries q' = entries q \<Longrightarrow> all_waiting entries q' = all_waiting entries q"
  by (simp add: all_waiting_def waiting_def)

lemma all_waiting_take:
  assumes ok: "lanes_ok L entries cap q" and run: "waiters_take L k q = (w, q')"
  shows "all_waiting entries q = mset (case w of None \<Rightarrow> [] | Some c \<Rightarrow> [c]) + all_waiting entries q'"
  using take_spec(2) [OF ok run] take_spec(3) [OF ok run, of Recv]
    take_spec(3) [OF ok run, of HandshakeEgress]
  by (cases k; cases "waiting entries k q") (auto simp: all_waiting_def)

lemma all_waiting_cancel:
  assumes ok: "lanes_ok L entries cap q" and run: "waiters_cancel L c q = (evs, q')"
  shows "all_waiting entries q = mset (map event_id evs) + all_waiting entries q'"
proof -
  note cs = cancel_spec [OF ok run]
  have one: "distinct (waiting entries k q)" for k
    using waiting_distinct [OF ok, of k] by (simp add: distinct_map)
  have disj: "c \<notin> set (waiting entries HandshakeEgress q)" if "c \<in> set (waiting entries Recv q)"
  proof
    assume "c \<in> set (waiting entries HandshakeEgress q)"
    with that obtain i j where "(i, c) \<in> set (entries q (lane Recv))"
      "(j, c) \<in> set (entries q (lane HandshakeEgress))" by (auto simp: waiting_def)
    with lanes_okD(3) [OF ok] lanes_okD(4) [OF ok] show False by blast
  qed
  have split: "mset xs = (if c \<in> set xs then {#c#} else {#}) + mset (filter (\<lambda>w. w \<noteq> c) xs)"
    if "distinct xs" for xs :: "credit_id list"
    using that by (induction xs) (auto simp: filter_id_conv)
  have ex: "(\<exists>k. c \<in> set (waiting entries k q)) \<longleftrightarrow>
      c \<in> set (waiting entries Recv q) \<or> c \<in> set (waiting entries HandshakeEgress q)"
    (is "(\<exists>k. ?P k) \<longleftrightarrow> _")
  proof
    assume "\<exists>k. ?P k"
    then obtain k where "?P k" ..
    then show "?P Recv \<or> ?P HandshakeEgress" by (cases k) simp_all
  qed auto
  have evs: "mset (map event_id evs) =
      (if c \<in> set (waiting entries Recv q) then {#c#} else {#}) +
      (if c \<in> set (waiting entries HandshakeEgress q) then {#c#} else {#})"
    unfolding cs(2) ex using disj by simp
  show ?thesis
    unfolding evs all_waiting_def cs(3) split [OF one [of Recv]] split [OF one [of HandshakeEgress]]
    by simp
qed

lemma wait_step_conserves:
  assumes ok: "lanes_ok L entries cap q" and run: "wait_step L op q = (ins, outs, q')"
  shows "lanes_ok L entries cap q' \<and>
    mset ins + all_waiting entries q = mset outs + all_waiting entries q'"
proof (cases op)
  case (Join k c)
  obtain r q1 where reg: "waiters_register L k c q = (r, q1)" by fastforce
  note rs = register_spec [OF ok reg]
  show ?thesis
  proof (cases r)
    case (Inl e)
    with rs run Join reg ok show ?thesis by simp
  next
    case (Inr rg)
    obtain rg' q2 where cm: "registration_commit L rg q1 = (rg', q2)" by fastforce
    from Inr rs have ok1: "lanes_ok L entries cap q1"
      and ent: "entries q1 = (entries q)(lane k := entries q (lane k) @ [(id_slot c, c)])" by simp_all
    note cs = commit_spec [OF ok1 cm]
    have "registration_drop L rg' q2 = ([], q2)" using cs(3) by (simp add: registration_drop_def)
    then have res: "ins = [c]" "outs = []" "q' = q2" using run Join reg Inr cm by auto
    have "all_waiting entries q1 = {#c#} + all_waiting entries q"
      using waiting_upd [OF ent, of Recv] waiting_upd [OF ent, of HandshakeEgress]
      by (cases k) (simp_all add: all_waiting_def waiting_def)
    with res cs(2) all_waiting_same [of entries q2 q1, OF cs(1)] show ?thesis by simp
  qed
next
  case (Abandon k c)
  obtain r q1 where reg: "waiters_register L k c q = (r, q1)" by fastforce
  show ?thesis
  proof (cases r)
    case (Inl e)
    with register_spec [OF ok reg] run Abandon reg ok show ?thesis by simp
  next
    case (Inr rg)
    obtain evs q2 where drp: "registration_drop L rg q1 = (evs, q2)" by fastforce
    note ds = drop_spec [OF ok reg [unfolded Inr] drp]
    with run Abandon reg Inr drp all_waiting_same [of entries q2 q] show ?thesis by auto
  qed
next
  case (Serve k)
  obtain w q1 where t: "waiters_take L k q = (w, q1)" by fastforce
  with take_spec(1) [OF ok t] all_waiting_take [OF ok t] run Serve show ?thesis by auto
next
  case (Wake k)
  obtain w q1 where t: "waiters_take L k q = (w, q1)" by fastforce
  with take_spec(1) [OF ok t] all_waiting_take [OF ok t] run Wake show ?thesis
    by (auto simp: waiters_wake_def split: option.splits)
next
  case (Revoke c)
  obtain evs q1 where t: "waiters_cancel L c q = (evs, q1)" by fastforce
  with cancel_spec(1) [OF ok t] all_waiting_cancel [OF ok t] run Revoke show ?thesis by auto
qed

lemma wait_run_conserves:
  "lanes_ok L entries cap q \<Longrightarrow> wait_run L ops q = (ins, outs, q') \<Longrightarrow>
     lanes_ok L entries cap q' \<and>
     mset ins + all_waiting entries q = mset outs + all_waiting entries q'"
proof (induction ops arbitrary: q ins outs q')
  case (Cons op ops)
  obtain i1 o1 q1 where s: "wait_step L op q = (i1, o1, q1)" using prod_cases3 by blast
  obtain i2 o2 q2 where r: "wait_run L ops q1 = (i2, o2, q2)" using prod_cases3 by blast
  note st = wait_step_conserves [OF Cons.prems(1) s]
  note ih = Cons.IH [OF conjunct1 [OF st] r]
  have "ins = i1 @ i2" "outs = o1 @ o2" "q' = q2" using Cons.prems(2) s r by auto
  then show ?case using st ih by (simp add: union_commute union_assoc) (metis union_assoc union_commute)
qed simp

text \<open>Two lanes as lists, with four indices: the lanes at work on concrete credits.\<close>

definition ref_lanes :: "(nat \<Rightarrow> (nat \<times> credit_id) list) lane_ops" where
  "ref_lanes = \<lparr>
     lane_vacant = (\<lambda>l i q. if i < 4 \<and> i \<notin> fst ` (set (q 0) \<union> set (q 1)) then Inr ()
       else Inl (EntryError i)),
     lane_insert = (\<lambda>l i c q. q(l := q l @ [(i, c)])),
     lane_commit = (\<lambda>l i q. q),
     lane_remove = (\<lambda>l i q. (the (map_of (q l) i), q(l := filter (\<lambda>e. fst e \<noteq> i) (q l)))),
     lane_pop = (\<lambda>l q. case q l of [] \<Rightarrow> (None, q) | (i, c) # es \<Rightarrow> (Some c, q(l := es))),
     lane_is_empty = (\<lambda>l q. q l = []),
     lane_remove_if = (\<lambda>i P q.
       if \<exists>e\<in>set (q 0). fst e = i \<and> P (snd e)
       then (Some (snd (the (find (\<lambda>e. fst e = i \<and> P (snd e)) (q 0)))),
             q(0 := filter (\<lambda>e. fst e \<noteq> i) (q 0)))
       else if \<exists>e\<in>set (q 1). fst e = i \<and> P (snd e)
       then (Some (snd (the (find (\<lambda>e. fst e = i \<and> P (snd e)) (q 1)))),
             q(1 := filter (\<lambda>e. fst e \<noteq> i) (q 1)))
       else (None, q)) \<rparr>"

lemma find_some:
  "\<exists>e\<in>set es. fst e = i \<and> P (snd e) \<Longrightarrow>
     \<exists>c. snd (the (find (\<lambda>e. fst e = i \<and> P (snd e)) es)) = c \<and> (i, c) \<in> set es \<and> P c"
  by (induction es) auto

lemma ref_lanes_remove_if:
  "(\<exists>q'. lane_remove_if ref_lanes i P q = (None, q') \<and> q' = q \<and>
       (\<forall>l<2. \<forall>c. (i, c) \<in> set (q l) \<longrightarrow> \<not> P c)) \<or>
   (\<exists>l<2. \<exists>c q'. lane_remove_if ref_lanes i P q = (Some c, q') \<and> (i, c) \<in> set (q l) \<and> P c \<and>
       q' = q(l := filter (\<lambda>e. fst e \<noteq> i) (q l)))"
proof (cases "\<exists>e\<in>set (q 0). fst e = i \<and> P (snd e)")
  case True
  with find_some [OF True] show ?thesis
    by (intro disjI2 exI [of _ 0]) (auto simp: ref_lanes_def)
next
  case no0: False
  show ?thesis
  proof (cases "\<exists>e\<in>set (q 1). fst e = i \<and> P (snd e)")
    case True
    with no0 find_some [OF True] show ?thesis
      by (intro disjI2 exI [of _ 1]) (auto simp: ref_lanes_def)
  next
    case False
    with no0 have "\<not> P c" if "(i, c) \<in> set (q l)" "l < 2" for l c
      using that(1) less_2_cases [OF that(2)] by force
    with no0 False show ?thesis by (intro disjI1) (auto simp: ref_lanes_def)
  qed
qed

lemma ref_lanes_laws: "lane_laws ref_lanes id 4"
  unfolding lane_laws_def
proof (intro conjI)
  show "\<forall>l i c q. (i, c) \<in> set (id q l) \<longrightarrow> distinct (map fst (id q l)) \<longrightarrow>
      (\<exists>q'. lane_remove ref_lanes l i q = (c, q') \<and>
         id q' = (id q)(l := filter (\<lambda>e. fst e \<noteq> i) (id q l)))"
    by (auto simp: ref_lanes_def)
  show "\<forall>i P q. (\<exists>q'. lane_remove_if ref_lanes i P q = (None, q') \<and> id q' = id q \<and>
          (\<forall>l<2. \<forall>c. (i, c) \<in> set (id q l) \<longrightarrow> \<not> P c)) \<or>
        (\<exists>l<2. \<exists>c q'. lane_remove_if ref_lanes i P q = (Some c, q') \<and> (i, c) \<in> set (id q l) \<and> P c \<and>
          id q' = (id q)(l := filter (\<lambda>e. fst e \<noteq> i) (id q l)))"
    using ref_lanes_remove_if by simp
qed (simp_all add: ref_lanes_def indices_def)

lemma ref_lanes_empty: "lanes_ok ref_lanes id 4 (\<lambda>_. [])"
  by (simp add: lanes_ok_def ref_lanes_laws)

section \<open>Properties\<close>

text \<open>
  C17. Waiters are served first come, first served: waking a resource \<open>n\<close> times tells exactly its
  first \<open>n\<close> waiters to retry, in the order of their admission, each once; the others keep their
  places and the waiters for the other resource are not touched.
\<close>

lemma waiters_served_in_order:
  assumes "lanes_ok L entries cap q" and "wake_many L k n q = (evs, q')"
  shows "evs = map Retry (take n (waiting entries k q)) \<and>
    waiting entries k q' = drop n (waiting entries k q) \<and>
    (\<forall>k'. k' \<noteq> k \<longrightarrow> waiting entries k' q' = waiting entries k' q) \<and> lanes_ok L entries cap q'"
proof -
  obtain ws q1 where run: "take_many (waiters_take L k) n q = (ws, q1)" by fastforce
  with assms(2) have evs: "evs = concat (map (\<lambda>w. case w of Some c \<Rightarrow> [Retry c] | None \<Rightarrow> []) ws)"
    and q1: "q1 = q'" by (simp_all add: wake_many_takes)
  note served = waiters_lane.take_many_serves [OF assms(1) run]
  have "concat (map (\<lambda>w. case w of Some c \<Rightarrow> [Retry c] | None \<Rightarrow> []) (map Some cs @ replicate m None))
      = map Retry cs" for cs m by (induction cs) (induction m, auto)
  with served evs have "evs = map Retry (take n (waiting entries k q))" by simp
  with served take_many_other [OF assms(1) run] q1 show ?thesis by simp
qed

lemma waiters_served_in_order_witness:
  defines "c \<equiv> \<lambda>i. \<lparr> id_slot = i, id_key = 7 \<rparr>"
  shows "fst (wake_many ref_lanes Recv 2
      ((\<lambda>_. [])(0 := [(2, c 2), (0, c 0), (3, c 3)], 1 := [(1, c 1)]))) = [Retry (c 2), Retry (c 0)]"
proof -
  let ?q = "(\<lambda>_. [])(0 := [(2, c 2), (0, c 0), (3, c 3)], 1 := [(1, c 1)])"
  have ok: "lanes_ok ref_lanes id 4 ?q"
    by (auto simp: lanes_ok_def ref_lanes_laws c_def split: if_splits)
  obtain evs q' where run: "wake_many ref_lanes Recv 2 ?q = (evs, q')" by fastforce
  with waiters_served_in_order [OF ok run] show ?thesis
    by (simp add: waiting_def numeral_2_eq_2)
qed

text \<open>
  C18. No credit is lost or served twice, whatever the order of operations: over every sequence of
  registrations, abandoned registrations, takes, wake-ups and cancellations, the credits admitted and
  those waiting before are, counted with multiplicity, those let go (retried, taken or cancelled) and
  those waiting after; no slot ever waits twice.
\<close>

lemma waiters_conserved:
  assumes "lanes_ok L entries cap q" and "wait_run L ops q = (ins, outs, q')"
  shows "mset ins + all_waiting entries q = mset outs + all_waiting entries q' \<and>
    (\<forall>k. distinct (map id_slot (waiting entries k q')))"
proof -
  note run = wait_run_conserves [OF assms]
  then show ?thesis by (simp add: waiting_distinct [of L entries cap q'])
qed

lemma waiters_conserved_witness:
  defines "c \<equiv> \<lambda>i. \<lparr> id_slot = i, id_key = 7 \<rparr>"
  shows "\<exists>outs q'. wait_run ref_lanes
      [Join Recv (c 1), Join HandshakeEgress (c 2), Join Recv (c 1), Abandon Recv (c 3), Wake Recv]
      (\<lambda>_. []) = ([c 1, c 2, c 3], outs, q') \<and> mset outs = {# c 1, c 3 #} \<and>
      all_waiting id q' = {# c 2 #}"
proof -
  let ?ops = "[Join Recv (c 1), Join HandshakeEgress (c 2), Join Recv (c 1), Abandon Recv (c 3), Wake Recv]"
  obtain outs q' where run: "wait_run ref_lanes ?ops (\<lambda>_. []) = ([c 1, c 2, c 3], outs, q')"
    and outs: "outs = [c 3, c 1]"
    by (simp add: c_def ref_lanes_def waiters_register_def registration_commit_def proof_commit_def
        registration_drop_def proof_remove_def waiters_wake_def waiters_take_def)
  from waiters_conserved [OF ref_lanes_empty run] outs
  have "{# c 1, c 2, c 3 #} = {# c 1, c 3 #} + all_waiting id q'"
    by (simp add: all_waiting_def waiting_def add_mset_commute)
  then have "all_waiting id q' = {# c 2 #}" by (simp add: add_mset_commute)
  with run outs show ?thesis by (auto simp: add_mset_commute)
qed

text \<open>
  C19. A registration is kept only by its commit: dropping it uncommitted restores the lanes exactly
  and cancels that credit alone; once committed, dropping it does nothing and the credit waits behind
  all the others. A refused registration changes nothing, and only a slot that is out of range or
  already waiting is refused.
\<close>

lemma registration_rolls_back:
  assumes ok: "lanes_ok L entries cap q" and reg: "waiters_register L k c q = (r, q1)"
  shows "case r of
      Inl _ \<Rightarrow> q1 = q \<and> (cap \<le> id_slot c \<or> (\<exists>k'. id_slot c \<in> id_slot ` set (waiting entries k' q)))
    | Inr rg \<Rightarrow>
        fst (registration_drop L rg q1) = [Cancelled c] \<and>
        (\<forall>k'. waiting entries k' (snd (registration_drop L rg q1)) = waiting entries k' q) \<and>
        (let (rg', q2) = registration_commit L rg q1
         in registration_drop L rg' q2 = ([], q2) \<and>
            waiting entries k q2 = waiting entries k q @ [c])"
proof (cases r)
  case (Inl e)
  with register_spec [OF ok reg] show ?thesis by simp
next
  case (Inr rg)
  note rs = register_spec [OF ok reg, unfolded Inr, simplified]
  obtain evs q3 where drp: "registration_drop L rg q1 = (evs, q3)" by fastforce
  obtain rg' q2 where cm: "registration_commit L rg q1 = (rg', q2)" by fastforce
  note ds = drop_spec [OF ok reg [unfolded Inr] drp]
  note cs = commit_spec [OF conjunct1 [OF conjunct2 [OF rs]] cm]
  have "waiting entries k q2 = waiting entries k q @ [c]"
    using cs(1) rs by (simp add: waiting_def)
  moreover have "registration_drop L rg' q2 = ([], q2)" using cs(3) by (simp add: registration_drop_def)
  ultimately show ?thesis using Inr drp cm ds waiting_same [OF ds(2)] by simp
qed

lemma registration_rolls_back_witness:
  defines "c \<equiv> \<lparr> id_slot = 3, id_key = 7 \<rparr>"
  shows "\<exists>rg q1. waiters_register ref_lanes HandshakeEgress c (\<lambda>_. []) = (Inr rg, q1) \<and>
    fst (registration_drop ref_lanes rg q1) = [Cancelled c]"
proof -
  obtain rg q1 where run: "waiters_register ref_lanes HandshakeEgress c (\<lambda>_. []) = (Inr rg, q1)"
    by (simp add: c_def ref_lanes_def waiters_register_def)
  with registration_rolls_back [OF ref_lanes_empty run] show ?thesis by auto
qed

end
