(* ===== verification/Policy.thy ===== *)
theory Policy
  imports Ingress Waiters_Correct
begin

text \<open>
  Admission of a receive (\<open>src/tls/receive/policy.rs\<close>): a transaction holds a receive slot and, while
  the connection is handshaking, the send cursor of the connection; where one of them is missing the
  credit waits for it. Completing the transaction gives the loans back and wakes those who wait. A
  worker's runtime is the record of \<open>src/tls/endpoint/mod.rs\<close>; the events of its waiters are returned.
\<close>

section \<open>The worker's state\<close>

record ('n, 'f, 'g, 'p) pools =
  po_sessions :: 'n
  po_recv :: "('f, 'g) receive"
  po_send :: 'p

record ('c, 'b, 'n, 'f, 'g, 'p, 'q, 'o) runtime =
  rn_pending :: "('c connection \<times> 'b send_state) option"
  rn_buffers :: "('n, 'f, 'g, 'p) pools"
  rn_waiters :: 'q
  rn_role :: 'o

text \<open>Access to the parts of a runtime that a transaction borrows.\<close>

abbreviation rn_recv where
  "rn_recv run \<equiv> po_recv (rn_buffers run)"

abbreviation rn_send where
  "rn_send run \<equiv> po_send (rn_buffers run)"

definition set_recv where
  "set_recv pool run = run\<lparr>rn_buffers := (rn_buffers run)\<lparr>po_recv := pool\<rparr>\<rparr>"

definition set_send where
  "set_send pool run = run\<lparr>rn_buffers := (rn_buffers run)\<lparr>po_send := pool\<rparr>\<rparr>"

lemma set_recv_simps [simp]:
  "rn_pending (set_recv pool run) = rn_pending run"
  "rn_waiters (set_recv pool run) = rn_waiters run"
  "rn_role (set_recv pool run) = rn_role run"
  "rn_recv (set_recv pool run) = pool"
  "rn_send (set_recv pool run) = rn_send run"
  "po_sessions (rn_buffers (set_recv pool run)) = po_sessions (rn_buffers run)"
  by (simp_all add: set_recv_def)

lemma set_send_simps [simp]:
  "rn_pending (set_send pool run) = rn_pending run"
  "rn_waiters (set_send pool run) = rn_waiters run"
  "rn_role (set_send pool run) = rn_role run"
  "rn_recv (set_send pool run) = rn_recv run"
  "rn_send (set_send pool run) = pool"
  "po_sessions (rn_buffers (set_send pool run)) = po_sessions (rn_buffers run)"
  by (simp_all add: set_send_def)

section \<open>Transactions\<close>

text \<open>
  \<open>tn_store\<close> is the send owner the driver lends, if it does; \<open>tn_send\<close> is the cursor taken out of it
  (the \<open>Buffered\<close> loan). \<open>'s\<close> is the admitted slot, then what became of it.
\<close>

record ('c, 'b, 'w, 's) transaction =
  tn_wire :: "'c connection"
  tn_store :: "'b send_state option"
  tn_send :: "'b option"
  tn_run :: 'w
  tn_recv :: 's

text \<open>What the driver gets back: the connection, its send owner, the runtime.\<close>

type_synonym ('c, 'b, 'w) parts = "'c connection \<times> 'b send_state option \<times> 'w"

text \<open>\<open>reserve::Outcome\<close>; \<open>Blocked\<close> is the struct with its kind.\<close>

datatype ('t, 'x) reserve_outcome =
    Ready 't
  | Blocked resource 'x
  | Failed error 'x

definition wake_in ::
    "'q lane_ops \<Rightarrow> resource \<Rightarrow> ('c, 'b, 'n, 'f, 'g, 'p, 'q, 'o) runtime \<Rightarrow>
     event list \<times> ('c, 'b, 'n, 'f, 'g, 'p, 'q, 'o) runtime" where
  "wake_in L kind run =
     (let (evs, q) = waiters_wake L kind (rn_waiters run) in (evs, run\<lparr>rn_waiters := q\<rparr>))"

definition try_reserve ::
    "('c, 's) rustls \<Rightarrow> ('b, 's, 'p) egress_ops \<Rightarrow> ('r, 'k, 'f, 'g) ingress_ops \<Rightarrow> 'q lane_ops \<Rightarrow>
     'c connection \<Rightarrow> 'b send_state option \<Rightarrow> ('c, 'b, 'n, 'f, 'g, 'p, 'q, 'o) runtime \<Rightarrow>
     event list \<times>
     (('c, 'b, ('c, 'b, 'n, 'f, 'g, 'p, 'q, 'o) runtime, 'r) transaction,
      ('c, 'b, ('c, 'b, 'n, 'f, 'g, 'p, 'q, 'o) runtime) parts) reserve_outcome" where
  "try_reserve N E I L wire send run =
     (case recv_try_reserve I (rn_recv run) of
        (Inr (Some recv), pool) \<Rightarrow>
          let run1 = set_recv pool run
          in (case (is_handshaking N (native wire), send) of
                (True, Some store) \<Rightarrow>
                  (case st_reserve E store (rn_send run1) of
                     (None, store', spool) \<Rightarrow>
                       let run2 = set_recv (recv_return I recv pool) (set_send spool run1);
                           (evs, run3) = wake_in L Recv run2
                       in (evs, Blocked HandshakeEgress (wire, Some store', run3))
                   | (Some out, store', spool) \<Rightarrow>
                       ([], Ready \<lparr> tn_wire = wire, tn_store = Some store', tn_send = Some out,
                                    tn_run = set_send spool run1, tn_recv = recv \<rparr>))
              | _ \<Rightarrow>
                  ([], Ready \<lparr> tn_wire = wire, tn_store = send, tn_send = None,
                               tn_run = run1, tn_recv = recv \<rparr>))
      | (Inr None, pool) \<Rightarrow> ([], Blocked Recv (wire, send, set_recv pool run))
      | (Inl cause, pool) \<Rightarrow>
          ([], Failed (error_from_exhausted cause)
             (wire\<lparr>failed := True\<rparr>, send, set_recv pool run)))"

definition txn_read ::
    "(('c, 's) ingress \<Rightarrow> ('f, 'g) receive \<Rightarrow>
        ('a \<times> (error + unit) \<times> release \<times> 'c connection \<times> ('f, 'g) receive) option) \<Rightarrow>
     ('c, 'b, ('c, 'b, 'n, 'f, 'g, 'p, 'q, 'o) runtime, 's) transaction \<Rightarrow>
     (('c, 'b, ('c, 'b, 'n, 'f, 'g, 'p, 'q, 'o) runtime, release) transaction \<times>
      'a \<times> (error + unit)) option" where
  "txn_read read txn = do {
     (output, result, recv, wire, pool) \<leftarrow>
       read (ingress_new (tn_wire txn) (tn_recv txn)) (rn_recv (tn_run txn));
     Some (\<lparr> tn_wire = wire, tn_store = tn_store txn, tn_send = tn_send txn,
             tn_run = set_recv pool (tn_run txn), tn_recv = recv \<rparr>, output, result)
   }"

definition is_peer_done :: "('c, 'b, 'w, release) transaction \<Rightarrow> bool" where
  "is_peer_done txn = peer_closed (tn_wire txn)"

definition txn_finish ::
    "('c, 's) rustls \<Rightarrow> ('b, 's, 'p) egress_ops \<Rightarrow> ('c, 'b, 'w, release) transaction \<Rightarrow>
     ((error + unit) \<times> ('c, 'b, 'w, release) transaction) option" where
  "txn_finish N E txn =
     (case tn_send txn of
        Some out \<Rightarrow> do {
          (result, wire, out') \<leftarrow> emit_into N E (tn_wire txn) out;
          Some (result, txn\<lparr>tn_wire := wire, tn_send := Some out'\<rparr>)
        }
      | None \<Rightarrow> Some (Inr (), txn))"

text \<open>
  \<open>release\<close>, with what the drop of the slot does to the receive pool. The loan ends in the send
  owner it was taken from.
\<close>

definition txn_release ::
    "('b, 's, 'p) egress_ops \<Rightarrow> 'q lane_ops \<Rightarrow> ('r \<Rightarrow> ('f, 'g) receive \<Rightarrow> ('f, 'g) receive) \<Rightarrow>
     ('c, 'b, ('c, 'b, 'n, 'f, 'g, 'p, 'q, 'o) runtime, 'r) transaction \<Rightarrow> release \<Rightarrow>
     event list \<times> ('c, 'b, ('c, 'b, 'n, 'f, 'g, 'p, 'q, 'o) runtime) parts" where
  "txn_release E L drop_slot txn recv =
     (let run = tn_run txn;
          run1 = set_recv (drop_slot (tn_recv txn) (rn_recv run)) run;
          (evs, run2) = (if recv = RelReleased then wake_in L Recv run1 else ([], run1))
      in case (tn_send txn, tn_store txn) of
           (Some out, Some store) \<Rightarrow>
             let (free, store', spool) = buffered_complete E out store (rn_send run2);
                 run3 = set_send spool run2;
                 (evs', run4) =
                   (if free = AvailReleased then wake_in L HandshakeEgress run3 else ([], run3))
             in (evs @ evs', tn_wire txn, Some store', run4)
         | _ \<Rightarrow> (evs, tn_wire txn, tn_store txn, run2))"

text \<open>The two completions: of a transaction that was not read, and of one that was.\<close>

definition complete_unread ::
    "('b, 's, 'p) egress_ops \<Rightarrow> ('r, 'k, 'f, 'g) ingress_ops \<Rightarrow> 'q lane_ops \<Rightarrow>
     ('c, 'b, ('c, 'b, 'n, 'f, 'g, 'p, 'q, 'o) runtime, 'r) transaction \<Rightarrow>
     event list \<times> ('c, 'b, ('c, 'b, 'n, 'f, 'g, 'p, 'q, 'o) runtime) parts" where
  "complete_unread E I L txn = txn_release E L (recv_return I) txn RelReleased"

definition complete_read ::
    "('b, 's, 'p) egress_ops \<Rightarrow> 'q lane_ops \<Rightarrow>
     ('c, 'b, ('c, 'b, 'n, 'f, 'g, 'p, 'q, 'o) runtime, release) transaction \<Rightarrow>
     event list \<times> ('c, 'b, ('c, 'b, 'n, 'f, 'g, 'p, 'q, 'o) runtime) parts" where
  "complete_read E L txn = txn_release E L (\<lambda>_ pool. pool) txn (tn_recv txn)"

section \<open>The driver's other calls\<close>

definition policy_cancel ::
    "'q lane_ops \<Rightarrow> ('c, 'b, 'n, 'f, 'g, 'p, 'q, 'o) runtime \<Rightarrow> credit_id \<Rightarrow>
     event list \<times> ('c, 'b, 'n, 'f, 'g, 'p, 'q, 'o) runtime" where
  "policy_cancel L run target =
     (let (evs, q) = waiters_cancel L target (rn_waiters run) in (evs, run\<lparr>rn_waiters := q\<rparr>))"

definition release_recv ::
    "'q lane_ops \<Rightarrow> ('c, 'b, 'n, 'f, 'g, 'p, 'q, 'o) runtime \<Rightarrow>
     event list \<times> ('c, 'b, 'n, 'f, 'g, 'p, 'q, 'o) runtime" where
  "release_recv L run = wake_in L Recv run"

definition release_send ::
    "'q lane_ops \<Rightarrow> ('c, 'b, 'n, 'f, 'g, 'p, 'q, 'o) runtime \<Rightarrow>
     event list \<times> ('c, 'b, 'n, 'f, 'g, 'p, 'q, 'o) runtime" where
  "release_send L run = wake_in L HandshakeEgress run"

text \<open>\<open>register\<close> of a blocked receive, at its kind.\<close>

definition blocked_register ::
    "'q lane_ops \<Rightarrow> resource \<Rightarrow> credit_id \<Rightarrow> ('c, 'b, 'n, 'f, 'g, 'p, 'q, 'o) runtime \<Rightarrow>
     (entry_error + registration) \<times> ('c, 'b, 'n, 'f, 'g, 'p, 'q, 'o) runtime" where
  "blocked_register L kind credit run =
     (let (r, q) = waiters_register L kind credit (rn_waiters run)
      in (r, run\<lparr>rn_waiters := q\<rparr>))"

end
