(* ===== verification/Senders.thy ===== *)
theory Senders
  imports Connection
begin

text \<open>
  The send side of a connection (\<open>src/tls/senders.rs\<close>): sealing plaintext of a send plan into the
  send cursor, refilling it after a native send, flushing and draining it. Every handler works on
  the connection, its send owner and the send pool (\<open>tx\<close>), and ends in what it hands to \<open>dope\<close>.
\<close>

section \<open>Outcomes handed to the driver\<close>

text \<open>\<open>end.output(x)\<close>, \<open>end.terminal(x, Failed(cause))\<close> and, for a receiver, \<open>end.eof(x)\<close>.\<close>

datatype 'a processed = Output 'a | Terminal 'a error | EofOutput 'a

primrec outcome :: "'a processed \<Rightarrow> 'a" where
  "outcome (Output x) = x"
| "outcome (Terminal x _) = x"
| "outcome (EofOutput x) = x"

primrec failure :: "'a processed \<Rightarrow> error option" where
  "failure (Output _) = None"
| "failure (Terminal _ e) = Some e"
| "failure (EofOutput _) = None"

text \<open>
  \<open>send::Prepared\<close>: whether buffered bytes are ready or a buffer is awaited, whether the transport
  closes afterwards, and how much plaintext the plan consumed.
\<close>

datatype readiness = Buffered | BufferWait

record prepared =
  pr_ready :: readiness
  pr_close :: bool
  pr_consumed :: nat

definition prep_buffered :: "nat \<Rightarrow> prepared" where
  "prep_buffered used = \<lparr> pr_ready = Buffered, pr_close = False, pr_consumed = used \<rparr>"

definition prep_wait :: prepared where
  "prep_wait = \<lparr> pr_ready = BufferWait, pr_close = False, pr_consumed = 0 \<rparr>"

definition close_after :: "prepared \<Rightarrow> prepared" where
  "close_after r = r\<lparr>pr_close := True\<rparr>"

record transition =
  tr_ready :: prepared
  tr_free :: availability

section \<open>Shared steps\<close>

definition finish :: "nat \<Rightarrow> bool \<Rightarrow> prepared" where
  "finish used close =
     (let ready = prep_buffered used in if close then close_after ready else ready)"

lemma finish_simps [simp]:
  "pr_ready (finish used close) = Buffered"
  "pr_close (finish used close) = close"
  "pr_consumed (finish used close) = used"
  by (simp_all add: finish_def prep_buffered_def close_after_def Let_def)

definition fail_with :: "'c connection \<Rightarrow> error \<Rightarrow> unit processed \<times> 'c connection" where
  "fail_with conn cause = (Terminal () cause, conn\<lparr>failed := True\<rparr>)"

definition terminate :: "'a \<Rightarrow> error option \<Rightarrow> 'a processed" where
  "terminate output cause =
     (case cause of Some e \<Rightarrow> Terminal output e | None \<Rightarrow> Output output)"

definition refill ::
    "('c, 's) rustls \<Rightarrow> ('b, 's, 'p) egress_ops \<Rightarrow> 'c connection \<Rightarrow> 'b \<Rightarrow>
     (error option \<times> 'c connection \<times> 'b) option" where
  "refill N E conn out =
     (if cursor_is_empty E out then conn_drain N E conn out else Some (None, conn, out))"

section \<open>Sealing plaintext\<close>

partial_function (option) encrypt_loop ::
    "('c, 's) rustls \<Rightarrow> ('b, 's, 'p) egress_ops \<Rightarrow> ('i, 't) progress_ops \<Rightarrow>
     'c connection \<Rightarrow> 'b \<Rightarrow> 'i \<Rightarrow> (unit processed \<times> 'c connection \<times> 'b \<times> 'i) option" where
  "encrypt_loop N E D conn out plain =
     (if \<not> in_is_empty D plain \<and> cursor_spare_len E out \<noteq> 0 \<and> \<not> wants_write N (native conn)
      then
        let part = in_take D plain MAX_PLAINTEXT
        in case writer_write N (native conn) (part_bytes D part) of
             (Inl cause, c') \<Rightarrow>
               let (result, conn') = fail_with (conn\<lparr>native := c'\<rparr>) (Io cause)
               in Some (result, conn', out, part_drop D part)
           | (Inr n, c') \<Rightarrow>
               let plain' =
                 (if n = length (part_bytes D part) then part_commit D part
                  else let used = len_prefix D n (part_amount D part);
                           dropped = part_drop D part
                       in if used \<noteq> 0 then part_commit D (in_take D dropped used) else dropped)
               in do {
                 (cause, conn', out') \<leftarrow> conn_drain N E (conn\<lparr>native := c'\<rparr>) out;
                 (case cause of
                    Some e \<Rightarrow>
                      let (result, conn'') = fail_with conn' e
                      in Some (result, conn'', out', plain')
                  | None \<Rightarrow>
                      if n = 0 then Some (Output (), conn', out', plain')
                      else encrypt_loop N E D conn' out' plain')
               }
      else Some (Output (), conn, out, plain))"

definition encrypt ::
    "('c, 's) rustls \<Rightarrow> ('b, 's, 'p) egress_ops \<Rightarrow> ('i, 't) progress_ops \<Rightarrow>
     'c connection \<Rightarrow> 'b \<Rightarrow> 'i \<Rightarrow> (unit processed \<times> 'c connection \<times> 'b \<times> 'i) option" where
  "encrypt N E D conn out plain =
     (if \<not> can_write N conn then Some (Output (), conn, out, plain)
      else encrypt_loop N E D conn out plain)"

text \<open>At most \<open>k\<close> chunks of a part, the capacity of the slice array.\<close>

fun collect :: "('i, 't) progress_ops \<Rightarrow> nat \<Rightarrow> 't \<Rightarrow> bytes list \<times> 't" where
  "collect D 0 t = ([], t)"
| "collect D (Suc k) t =
     (case part_next D t of
        (None, t') \<Rightarrow> ([], t')
      | (Some chunk, t') \<Rightarrow> let (slices, t'') = collect D k t' in (chunk # slices, t''))"

text \<open>\<open>for _ in prefix.take() {}\<close>\<close>

partial_function (option) exhaust_part :: "('i, 't) progress_ops \<Rightarrow> 't \<Rightarrow> 't option" where
  "exhaust_part D t =
     (case part_next D t of
        (None, t') \<Rightarrow> Some t'
      | (Some _, t') \<Rightarrow> exhaust_part D t')"

partial_function (option) encrypt_many_loop ::
    "nat \<Rightarrow> ('c, 's) rustls \<Rightarrow> ('b, 's, 'p) egress_ops \<Rightarrow> ('i, 't) progress_ops \<Rightarrow>
     'c connection \<Rightarrow> 'b \<Rightarrow> 'i \<Rightarrow> (unit processed \<times> 'c connection \<times> 'b \<times> 'i) option" where
  "encrypt_many_loop k N E D conn out plain =
     (if \<not> in_is_empty D plain \<and> cursor_spare_len E out \<noteq> 0 \<and> \<not> wants_write N (native conn)
      then
        let parts = in_take D plain MAX_PLAINTEXT;
            limit = part_amount D parts;
            (slices, parts') = collect D k parts
        in case writer_write_vectored N (native conn) slices of
             (Inl cause, c') \<Rightarrow>
               let (result, conn') = fail_with (conn\<lparr>native := c'\<rparr>) (Io cause)
               in Some (result, conn', out, part_drop D parts')
           | (Inr n, c') \<Rightarrow> do {
               plain' \<leftarrow>
                 (if n = limit then Some (part_commit D parts')
                  else let used = len_prefix D n limit;
                           dropped = part_drop D parts'
                       in if used \<noteq> 0
                          then map_option (part_commit D)
                                 (exhaust_part D (in_take D dropped used))
                          else Some dropped);
               (cause, conn', out') \<leftarrow> conn_drain N E (conn\<lparr>native := c'\<rparr>) out;
               (case cause of
                  Some e \<Rightarrow>
                    let (result, conn'') = fail_with conn' e
                    in Some (result, conn'', out', plain')
                | None \<Rightarrow>
                    if n = 0 then Some (Output (), conn', out', plain')
                    else encrypt_many_loop k N E D conn' out' plain')
             }
      else Some (Output (), conn, out, plain))"

definition encrypt_many ::
    "nat \<Rightarrow> ('c, 's) rustls \<Rightarrow> ('b, 's, 'p) egress_ops \<Rightarrow> ('i, 't) progress_ops \<Rightarrow>
     'c connection \<Rightarrow> 'b \<Rightarrow> 'i \<Rightarrow> (unit processed \<times> 'c connection \<times> 'b \<times> 'i) option" where
  "encrypt_many k N E D conn out plain =
     (if \<not> can_write N conn then Some (Output (), conn, out, plain)
      else encrypt_many_loop k N E D conn out plain)"

declare encrypt_loop.simps [code] exhaust_part.simps [code] encrypt_many_loop.simps [code]

section \<open>Handlers\<close>

text \<open>
  The bodies of \<open>prepare\<close> and \<open>prepare_many\<close>, which differ in the sealing routine only. The plain
  input is that of the plan, so \<open>plain.is_empty()\<close> is asked of it.
\<close>

definition prepare_with ::
    "('c connection \<Rightarrow> 'b \<Rightarrow> 'i \<Rightarrow> (unit processed \<times> 'c connection \<times> 'b \<times> 'i) option) \<Rightarrow>
     ('c, 's) rustls \<Rightarrow> ('b, 's, 'p) egress_ops \<Rightarrow> ('i, 't) progress_ops \<Rightarrow>
     ('c, 'b, 'p) tx \<Rightarrow> 'i \<Rightarrow> (prepared processed \<times> ('c, 'b, 'p) tx) option" where
  "prepare_with seal N E D t plain =
     (if in_is_empty D plain \<and> st_as_slice E (tx_store t) = [] \<and>
         \<not> wants_write N (native (tx_conn t))
      then Some (Output (prep_buffered 0), t)
      else
        let (egress, send, pool) = st_try_buffer E (tx_store t) (tx_pool t)
        in case egress of
             None \<Rightarrow> Some (Output prep_wait, t\<lparr>tx_store := send, tx_pool := pool\<rparr>)
           | Some out \<Rightarrow> do {
               (cause, conn, out') \<leftarrow> conn_drain N E (tx_conn t) out;
               (case cause of
                  Some e \<Rightarrow>
                    let (send', pool') = st_drop_empty E (st_put out' send) pool
                    in Some (Terminal (finish (in_done D plain) True) e,
                             \<lparr> tx_conn = conn, tx_store = send', tx_pool = pool' \<rparr>)
                | None \<Rightarrow>
                    if wants_write N (native conn)
                    then
                      let (send', pool') = st_drop_empty E (st_put out' send) pool
                      in Some (Output (finish (in_done D plain) (failed conn)),
                               \<lparr> tx_conn = conn, tx_store = send', tx_pool = pool' \<rparr>)
                    else do {
                      (sealed, conn', out'', plain') \<leftarrow> seal conn out' plain;
                      (let (send', pool') = st_drop_empty E (st_put out'' send) pool;
                           output = finish (in_done D plain') (failed conn')
                       in Some (map_processed (\<lambda>_. output) sealed,
                                \<lparr> tx_conn = conn', tx_store = send', tx_pool = pool' \<rparr>))
                    })
             })"

definition prepare ::
    "('c, 's) rustls \<Rightarrow> ('b, 's, 'p) egress_ops \<Rightarrow> ('i, 't) progress_ops \<Rightarrow>
     ('c, 'b, 'p) tx \<Rightarrow> 'i \<Rightarrow> (prepared processed \<times> ('c, 'b, 'p) tx) option" where
  "prepare N E D = prepare_with (encrypt N E D) N E D"

definition prepare_many ::
    "nat \<Rightarrow> ('c, 's) rustls \<Rightarrow> ('b, 's, 'p) egress_ops \<Rightarrow> ('i, 't) progress_ops \<Rightarrow>
     ('c, 'b, 'p) tx \<Rightarrow> 'i \<Rightarrow> (prepared processed \<times> ('c, 'b, 'p) tx) option" where
  "prepare_many k N E D = prepare_with (encrypt_many k N E D) N E D"

definition flush ::
    "('c, 's) rustls \<Rightarrow> ('b, 's, 'p) egress_ops \<Rightarrow> ('c, 'b, 'p) tx \<Rightarrow>
     (prepared processed \<times> ('c, 'b, 'p) tx) option" where
  "flush N E t =
     (if st_as_slice E (tx_store t) = [] \<and> \<not> wants_write N (native (tx_conn t))
      then Some (Output (prep_buffered 0), t)
      else
        let (egress, send, pool) = st_try_buffer E (tx_store t) (tx_pool t)
        in case egress of
             None \<Rightarrow> Some (Output prep_wait, t\<lparr>tx_store := send, tx_pool := pool\<rparr>)
           | Some out \<Rightarrow> do {
               (cause, conn, out') \<leftarrow> conn_drain N E (tx_conn t) out;
               (let close = failed conn;
                    (send', pool') = st_drop_empty E (st_put out' send) pool
                in Some (terminate (finish 0 close) cause,
                         \<lparr> tx_conn = conn, tx_store = send', tx_pool = pool' \<rparr>))
             })"

text \<open>
  A native send of \<open>n\<close> bytes has completed: \<open>done.consume_max()\<close> drops them from the store.
\<close>

definition after_send ::
    "('c, 's) rustls \<Rightarrow> ('b, 's, 'p) egress_ops \<Rightarrow> ('c, 'b, 'p) tx \<Rightarrow> nat \<Rightarrow>
     (transition processed \<times> ('c, 'b, 'p) tx) option" where
  "after_send N E t n =
     (let send = st_consume_max E n (tx_store t)
      in case st_buffer_mut send of
           None \<Rightarrow>
             Some (Output \<lparr> tr_ready = prep_buffered 0, tr_free = AvailUnchanged \<rparr>,
                   t\<lparr>tx_store := send\<rparr>)
         | Some egress \<Rightarrow> do {
             (cause, conn, egress') \<leftarrow> refill N E (tx_conn t) egress;
             (let close = failed conn;
                  (free, send', pool') = st_free_empty E (st_put egress' send) (tx_pool t);
                  output = \<lparr> tr_ready = finish 0 close, tr_free = free \<rparr>
              in Some (terminate output cause,
                       \<lparr> tx_conn = conn, tx_store = send', tx_pool = pool' \<rparr>))
           })"

text \<open>
  \<open>resume\<close>: \<open>live\<close> tells whether the drain terminal is given; the result is whether the poll is
  ready, and the cause passed to \<open>end.fail\<close>.
\<close>

definition resume ::
    "('c, 's) rustls \<Rightarrow> ('b, 's, 'p) egress_ops \<Rightarrow> ('c, 'b, 'p) tx \<Rightarrow> bool \<Rightarrow>
     (bool \<times> error option \<times> ('c, 'b, 'p) tx) option" where
  "resume N E t live =
     (if \<not> live then Some (True, None, t)
      else if \<not> wants_write N (native (tx_conn t)) then Some (True, None, t)
      else
        let (egress, send, pool) = st_try_buffer E (tx_store t) (tx_pool t)
        in case egress of
             None \<Rightarrow> Some (False, None, t\<lparr>tx_store := send, tx_pool := pool\<rparr>)
           | Some out \<Rightarrow> do {
               (cause, conn, out') \<leftarrow> refill N E (tx_conn t) out;
               Some (True, cause, \<lparr> tx_conn = conn, tx_store = st_put out' send, tx_pool = pool \<rparr>)
             })"

definition settle ::
    "('c, 's) rustls \<Rightarrow> ('b, 's, 'p) egress_ops \<Rightarrow> ('c, 'b, 'p) tx \<Rightarrow> nat \<Rightarrow> bool \<Rightarrow>
     (transition \<times> error option \<times> ('c, 'b, 'p) tx) option" where
  "settle N E t n live = do {
     (ready, cause, t') \<leftarrow> resume N E (t\<lparr>tx_store := st_consume_max E n (tx_store t)\<rparr>) live;
     (if \<not> ready
      then Some (\<lparr> tr_ready = close_after prep_wait, tr_free = AvailUnchanged \<rparr>, cause, t')
      else
        let (free, send', pool') = st_free_empty E (tx_store t') (tx_pool t')
        in Some (\<lparr> tr_ready = finish 0 True, tr_free = free \<rparr>, cause,
                 t'\<lparr>tx_store := send', tx_pool := pool'\<rparr>))
   }"

definition prepare_drain ::
    "('c, 's) rustls \<Rightarrow> ('b, 's, 'p) egress_ops \<Rightarrow> ('c, 'b, 'p) tx \<Rightarrow> bool \<Rightarrow>
     (prepared \<times> error option \<times> ('c, 'b, 'p) tx) option" where
  "prepare_drain N E t live = do {
     (ready, cause, t') \<leftarrow> resume N E t live;
     (if \<not> ready then Some (close_after prep_wait, cause, t')
      else
        let (send', pool') = st_drop_empty E (tx_store t') (tx_pool t')
        in Some (finish 0 True, cause, t'\<lparr>tx_store := send', tx_pool := pool'\<rparr>))
   }"

text \<open>\<open>Egress::close\<close> of \<open>src/tls/protocol.rs\<close>.\<close>

definition egress_close ::
    "('c, 's) rustls \<Rightarrow> ('b, 's, 'p) egress_ops \<Rightarrow> ('c, 'b, 'p) tx \<Rightarrow>
     (prepared processed \<times> ('c, 'b, 'p) tx) option" where
  "egress_close N E t =
     (let (egress, send, pool) = st_try_buffer E (tx_store t) (tx_pool t)
      in case egress of
           None \<Rightarrow> Some (Output prep_wait, t\<lparr>tx_store := send, tx_pool := pool\<rparr>)
         | Some out \<Rightarrow> do {
             (result, conn, out') \<leftarrow> seal_close N E (tx_conn t) out;
             (let (send', pool') = st_drop_empty E (st_put out' send) pool;
                  output = finish 0 (is_err result);
                  t' = \<lparr> tx_conn = conn, tx_store = send', tx_pool = pool' \<rparr>
              in case result of
                   Inl cause \<Rightarrow> Some (Terminal output cause, t')
                 | Inr _ \<Rightarrow> Some (Output output, t'))
           })"

end
