(* ===== verification/Sealing.thy ===== *)
theory Sealing
  imports Senders
begin

text \<open>
  Sealing is exact: \<open>encrypt\<close> and \<open>encrypt_many\<close> return, and consume from the plan the bytes the
  native writer accepted, no more and no fewer. Both loops offer a part of the input to the
  writer and emit the records it queues; the locale \<open>sealing\<close> states that contract of a loop and
  proves the loop correct once, the interpretations discharge it for the two loops of the code.
\<close>

section \<open>The contract of a sealing loop\<close>

text \<open>
  \<open>sealed\<close> relates the state before and after: \<open>k\<close> bytes of the plan went to the writer, what the
  writer queued went to the cursor or is still queued, the flags other than \<open>failed\<close> are untouched.
\<close>

definition sealed ::
    "('b, 's, 'p) egress_ops \<Rightarrow> ('i, 't) progress_ops \<Rightarrow> ('i, 't) progress_view \<Rightarrow>
     'c rustls_view \<Rightarrow> nat \<Rightarrow> error option \<Rightarrow> 'c connection \<Rightarrow> 'b \<Rightarrow> 'i \<Rightarrow>
     'c connection \<Rightarrow> 'b \<Rightarrow> 'i \<Rightarrow> bool" where
  "sealed E D U V k cause conn out plain conn' out' plain' \<longleftrightarrow>
     k \<le> length (left U plain) \<and>
     left U plain' = drop k (left U plain) \<and>
     in_done D plain' = in_done D plain + k \<and>
     sent V (native conn') = sent V (native conn) @ take k (left U plain) \<and>
     (\<exists>d. made V (native conn') = made V (native conn) @ d \<and>
        cursor_bytes E out' @ pend V (native conn') =
          cursor_bytes E out @ pend V (native conn) @ d) \<and>
     prefix (cursor_bytes E out) (cursor_bytes E out') \<and>
     cursor_spare_len E out' + length (cursor_bytes E out') =
       cursor_spare_len E out + length (cursor_bytes E out) \<and>
     (cause = None \<longrightarrow> pend V (native conn) = [] \<or> cursor_spare_len E out = 0 \<longrightarrow>
        pend V (native conn') = [] \<or> cursor_spare_len E out' = 0) \<and>
     failed conn' = (failed conn \<or> cause \<noteq> None) \<and>
     peer_closed conn' = peer_closed conn \<and> local_closed conn' = local_closed conn \<and>
     conn_lease conn' = conn_lease conn"

lemma sealed_refl: "sealed E D U V 0 None conn out plain conn out plain"
  by (simp add: sealed_def)

lemma sealedD:
  assumes "sealed E D U V k cause conn out plain conn' out' plain'"
  shows "k \<le> length (left U plain)" and "left U plain' = drop k (left U plain)"
    and "in_done D plain' = in_done D plain + k"
    and "sent V (native conn') = sent V (native conn) @ take k (left U plain)"
    and "prefix (cursor_bytes E out) (cursor_bytes E out')"
    and "cursor_spare_len E out' + length (cursor_bytes E out') =
       cursor_spare_len E out + length (cursor_bytes E out)"
    and "cause = None \<Longrightarrow> pend V (native conn) = [] \<or> cursor_spare_len E out = 0 \<Longrightarrow>
        pend V (native conn') = [] \<or> cursor_spare_len E out' = 0"
    and "failed conn' = (failed conn \<or> cause \<noteq> None)"
    and "peer_closed conn' = peer_closed conn" and "local_closed conn' = local_closed conn"
    and "conn_lease conn' = conn_lease conn"
  using assms unfolding sealed_def by simp_all

lemma sealed_trans:
  assumes "sealed E D U V j None a out plain b out1 plain1"
    and "sealed E D U V k cause b out1 plain1 c out2 plain2"
  shows "sealed E D U V (j + k) cause a out plain c out2 plain2"
proof -
  from assms(1) obtain d where d: "made V (native b) = made V (native a) @ d"
    "cursor_bytes E out1 @ pend V (native b) = cursor_bytes E out @ pend V (native a) @ d"
    by (auto simp: sealed_def)
  from assms(2) obtain e where e: "made V (native c) = made V (native b) @ e"
    "cursor_bytes E out2 @ pend V (native c) = cursor_bytes E out1 @ pend V (native b) @ e"
    by (auto simp: sealed_def)
  have "made V (native c) = made V (native a) @ d @ e" using d e by simp
  moreover have "cursor_bytes E out2 @ pend V (native c) =
      cursor_bytes E out @ pend V (native a) @ d @ e"
    using d(2) e(2) by (metis append.assoc)
  moreover have "prefix (cursor_bytes E out) (cursor_bytes E out2)"
    using assms prefix_order.trans unfolding sealed_def by blast
  moreover note step1 = sealedD [OF assms(1)] and step2 = sealedD [OF assms(2)]
  have "j + k \<le> length (left U plain)" using step1(1,2) step2(1) by simp
  moreover have "left U plain2 = drop (j + k) (left U plain)"
    using step1(2) step2(2) by (simp add: add.commute)
  moreover have "in_done D plain2 = in_done D plain + (j + k)"
    using step1(3) step2(3) by simp
  moreover have "cursor_spare_len E out2 + length (cursor_bytes E out2) =
      cursor_spare_len E out + length (cursor_bytes E out)"
    using step1(6) step2(6) by simp
  moreover have "cause = None \<longrightarrow> pend V (native a) = [] \<or> cursor_spare_len E out = 0 \<longrightarrow>
      pend V (native c) = [] \<or> cursor_spare_len E out2 = 0"
    using step1(7) [OF refl] step2(7) by metis
  moreover have "sent V (native c) = sent V (native a) @ take (j + k) (left U plain)"
    using step1(2,4) step2(4) by (simp add: take_add)
  moreover have "failed c = (failed a \<or> cause \<noteq> None) \<and> peer_closed c = peer_closed a \<and>
      local_closed c = local_closed a \<and> conn_lease c = conn_lease a"
    using step1(8-11) step2(8-11) by simp
  ultimately show ?thesis unfolding sealed_def by blast
qed

text \<open>
  Why a loop stopped: a failure, nothing left, no room, ciphertext still queued, or a writer that
  accepted nothing of a non-empty offer with nothing queued.
\<close>

definition stopped ::
    "('c, 's) rustls \<Rightarrow> ('b, 's, 'p) egress_ops \<Rightarrow> ('i, 't) progress_view \<Rightarrow>
     ('c \<Rightarrow> 'i \<Rightarrow> ((io_error + nat) \<times> 'c \<times> 'i) option) \<Rightarrow>
     error option \<Rightarrow> 'c connection \<Rightarrow> 'b \<Rightarrow> 'i \<Rightarrow> bool" where
  "stopped N E U offer cause conn out plain \<longleftrightarrow>
     cause \<noteq> None \<or> left U plain = [] \<or> cursor_spare_len E out = 0 \<or>
     wants_write N (native conn) \<or>
     (\<exists>c q c'. offer c q = Some (Inr 0, c', plain) \<and> left U q \<noteq> [] \<and> \<not> wants_write N c)"

locale sealing =
  fixes N :: "('c, 's) rustls" and E :: "('b, 's, 'p) egress_ops"
    and D :: "('i, 't) progress_ops"
    and V :: "'c rustls_view" and U :: "('i, 't) progress_view" and sb :: "'s \<Rightarrow> bytes"
    and offer :: "'c \<Rightarrow> 'i \<Rightarrow> ((io_error + nat) \<times> 'c \<times> 'i) option"
    and loop :: "'c connection \<Rightarrow> 'b \<Rightarrow> 'i \<Rightarrow>
      (unit processed \<times> 'c connection \<times> 'b \<times> 'i) option"
    and laws :: bool
  assumes loop_unfold: "loop conn out plain =
      (if \<not> in_is_empty D plain \<and> cursor_spare_len E out \<noteq> 0 \<and> \<not> wants_write N (native conn)
       then do {
         (r, c', plain') \<leftarrow> offer (native conn) plain;
         (case r of
            Inl e \<Rightarrow> Some (Terminal () (Io e), conn\<lparr>native := c', failed := True\<rparr>, out, plain')
          | Inr n \<Rightarrow> do {
              (cause, conn', out') \<leftarrow> conn_drain N E (conn\<lparr>native := c'\<rparr>) out;
              (case cause of
                 Some e \<Rightarrow> Some (Terminal () e, conn'\<lparr>failed := True\<rparr>, out', plain')
               | None \<Rightarrow> if n = 0 then Some (Output (), conn', out', plain')
                         else loop conn' out' plain')
            })
       }
       else Some (Output (), conn, out, plain))"
    and empty_spec: "laws \<Longrightarrow> in_is_empty D plain \<longleftrightarrow> left U plain = []"
    and laws_wire: "laws \<Longrightarrow> wire_laws N E V sb"
    and offer_spec: "laws \<Longrightarrow> \<exists>r c' plain'. offer c plain = Some (r, c', plain') \<and>
      produces V c c' \<and>
      (case r of
         Inl _ \<Rightarrow> sent V c' = sent V c \<and>
           left U plain' = left U plain \<and> in_done D plain' = in_done D plain
       | Inr n \<Rightarrow> n \<le> length (left U plain) \<and> sent V c' = sent V c @ take n (left U plain) \<and>
           left U plain' = drop n (left U plain) \<and> in_done D plain' = in_done D plain + n)"
begin

text \<open>An accepted offer followed by the emission of its records.\<close>

lemma offer_emitted:
  assumes "produces V (native conn) c'" and "n \<le> length (left U plain)"
    and "sent V c' = sent V (native conn) @ take n (left U plain)"
    and "left U plain' = drop n (left U plain)" and "in_done D plain' = in_done D plain + n"
    and "emitted N E V (conn\<lparr>native := c'\<rparr>) out conn' out'"
  shows "sealed E D U V n None conn out plain conn' out' plain'"
proof -
  have "native conn' = native conn' \<and> failed conn' = failed conn \<and>
      peer_closed conn' = peer_closed conn \<and> local_closed conn' = local_closed conn \<and>
      conn_lease conn' = conn_lease conn"
    using assms(6) by (cases conn; cases conn') (auto simp: emitted_def)
  then show ?thesis
    unfolding sealed_def using assms by (auto simp: emitted_def produces_def)
qed

theorem loop_seals:
  assumes "laws"
  shows "\<exists>k res conn' out' plain'. loop conn out plain = Some (res, conn', out', plain') \<and>
    sealed E D U V k (failure res) conn out plain conn' out' plain' \<and>
    stopped N E U offer (failure res) conn' out' plain' \<and> (\<forall>x. res \<noteq> EofOutput x)"
proof (induction "length (left U plain)" arbitrary: conn out plain rule: less_induct)
  case less
  obtain r c1 plain1 where off: "offer (native conn) plain = Some (r, c1, plain1)"
    and prod: "produces V (native conn) c1"
    and spec: "case r of
         Inl _ \<Rightarrow> sent V c1 = sent V (native conn) \<and>
           left U plain1 = left U plain \<and> in_done D plain1 = in_done D plain
       | Inr n \<Rightarrow> n \<le> length (left U plain) \<and>
           sent V c1 = sent V (native conn) @ take n (left U plain) \<and>
           left U plain1 = drop n (left U plain) \<and> in_done D plain1 = in_done D plain + n"
    using offer_spec [OF assms, of "native conn" plain] by blast
  show ?case
  proof (cases "\<not> in_is_empty D plain \<and> cursor_spare_len E out \<noteq> 0 \<and>
      \<not> wants_write N (native conn)")
    case False
    then have "loop conn out plain = Some (Output (), conn, out, plain)"
      by (subst loop_unfold) (simp only: if_False)
    moreover have "stopped N E U offer None conn out plain"
      using False empty_spec [OF assms] by (auto simp: stopped_def)
    ultimately show ?thesis using sealed_refl [of E D U V conn out plain] by fastforce
  next
    case True
    note unfold = loop_unfold [of conn out plain, unfolded if_P [OF True] off,
        simplified bind.bind_lunit prod.case]
    show ?thesis
    proof (cases r)
      case (Inl e)
      with prod spec have "sealed E D U V 0 (Some (Io e)) conn out plain
          (conn\<lparr>native := c1, failed := True\<rparr>) out plain1"
        by (auto simp: sealed_def produces_def)
      moreover have "stopped N E U offer (Some (Io e)) conn' out' q" for conn' out' q
        by (simp add: stopped_def)
      ultimately show ?thesis using unfold Inl by fastforce
    next
      case (Inr n)
      obtain conn1 out1 where
        dr: "conn_drain N E (conn\<lparr>native := c1\<rparr>) out = Some (None, conn1, out1)"
        and em: "emitted N E V (conn\<lparr>native := c1\<rparr>) out conn1 out1"
        using conn_drain_emitted [OF laws_wire [OF assms]] by blast
      have step: "sealed E D U V n None conn out plain conn1 out1 plain1"
        using prod spec em Inr by (intro offer_emitted) auto
      show ?thesis
      proof (cases "n = 0")
        case True
        with off Inr \<open>\<not> in_is_empty D plain \<and> cursor_spare_len E out \<noteq> 0 \<and>
            \<not> wants_write N (native conn)\<close>
        have "stopped N E U offer None conn1 out1 plain1"
          unfolding stopped_def empty_spec [OF assms] by blast
        with True unfold Inr dr step show ?thesis by fastforce
      next
        case False
        with spec Inr have "length (left U plain1) < length (left U plain)" by auto
        from less.hyps [OF this, of conn1 out1] obtain k res conn' out' plain' where
          "loop conn1 out1 plain1 = Some (res, conn', out', plain')"
          "sealed E D U V k (failure res) conn1 out1 plain1 conn' out' plain'"
          "stopped N E U offer (failure res) conn' out' plain'"
          "\<forall>x. res \<noteq> EofOutput x" by blast
        with unfold Inr dr False sealed_trans [OF step] show ?thesis by fastforce
      qed
    qed
  qed
qed

end

section \<open>The loop over one slice\<close>

definition offer_plain ::
    "('c, 's) rustls \<Rightarrow> ('i, 't) progress_ops \<Rightarrow> 'c \<Rightarrow> 'i \<Rightarrow>
     ((io_error + nat) \<times> 'c \<times> 'i) option" where
  "offer_plain N D c plain =
     (let part = in_take D plain MAX_PLAINTEXT
      in case writer_write N c (part_bytes D part) of
           (Inl e, c') \<Rightarrow> Some (Inl e, c', part_drop D part)
         | (Inr n, c') \<Rightarrow> Some (Inr n, c',
             if n = length (part_bytes D part) then part_commit D part
             else let used = len_prefix D n (part_amount D part);
                      dropped = part_drop D part
                  in if used \<noteq> 0 then part_commit D (in_take D dropped used) else dropped))"

lemma encrypt_loop_unfold:
  "encrypt_loop N E D conn out plain =
      (if \<not> in_is_empty D plain \<and> cursor_spare_len E out \<noteq> 0 \<and> \<not> wants_write N (native conn)
       then do {
         (r, c', plain') \<leftarrow> offer_plain N D (native conn) plain;
         (case r of
            Inl e \<Rightarrow> Some (Terminal () (Io e), conn\<lparr>native := c', failed := True\<rparr>, out, plain')
          | Inr n \<Rightarrow> do {
              (cause, conn', out') \<leftarrow> conn_drain N E (conn\<lparr>native := c'\<rparr>) out;
              (case cause of
                 Some e \<Rightarrow> Some (Terminal () e, conn'\<lparr>failed := True\<rparr>, out', plain')
               | None \<Rightarrow> if n = 0 then Some (Output (), conn', out', plain')
                         else encrypt_loop N E D conn' out' plain')
            })
       }
       else Some (Output (), conn, out, plain))"
  by (subst encrypt_loop.simps, unfold offer_plain_def fail_with_def Let_def prod.case)
    (simp split: sum.split prod.split)

lemma progress_lawsD:
  assumes "progress_laws D U"
  shows "in_is_empty D i \<longleftrightarrow> left U i = []"
    and "base U (in_take D i n) = i" and "span U (in_take D i n) = min n (length (left U i))"
    and "part_amount D t = span U t"
    and "rest U t = [] \<Longrightarrow> left U (part_commit D t) = drop (span U t) (left U (base U t))"
    and "rest U t = [] \<Longrightarrow> in_done D (part_commit D t) = in_done D (base U t) + span U t"
    and "left U (part_drop D t) = left U (base U t)"
    and "in_done D (part_drop D t) = in_done D (base U t)"
    and "n \<le> m \<Longrightarrow> len_prefix D n m = n"
  using assms unfolding progress_laws_def by blast+

lemma plain_progress_lawsD:
  assumes "plain_progress_laws D U"
  shows "progress_laws D U" and "part_bytes D (in_take D i n) = take n (left U i)"
    and "rest U (in_take D i n) = []"
  using assms by (simp_all add: plain_progress_laws_def)

lemma offer_plain_spec:
  assumes N: "wire_laws N E V sb" and D: "plain_progress_laws D U"
  shows "\<exists>r c' plain'. offer_plain N D c plain = Some (r, c', plain') \<and>
      produces V c c' \<and>
      (case r of
         Inl _ \<Rightarrow> sent V c' = sent V c \<and>
           left U plain' = left U plain \<and> in_done D plain' = in_done D plain
       | Inr n \<Rightarrow> n \<le> length (left U plain) \<and> sent V c' = sent V c @ take n (left U plain) \<and>
           left U plain' = drop n (left U plain) \<and> in_done D plain' = in_done D plain + n)"
proof -
  note laws = progress_lawsD [OF plain_progress_lawsD(1) [OF D]] plain_progress_lawsD(2,3) [OF D]
  let ?part = "in_take D plain MAX_PLAINTEXT"
  obtain r c' where wr: "writer_write N c (part_bytes D ?part) = (r, c')"
    by (cases "writer_write N c (part_bytes D ?part)")
  have prod: "produces V c c'"
    using wire_lawsD(4) [OF N] wr unfolding rustls_wire_laws_def by (metis snd_conv)
  show ?thesis
  proof (cases r)
    case (Inl e)
    with wr have "sent V c' = sent V c"
      using wire_lawsD(5) [OF N] unfolding rustls_writer_laws_def by blast
    with wr Inl prod laws show ?thesis by (simp add: offer_plain_def Let_def)
  next
    case (Inr n)
    with wr have n: "n \<le> length (part_bytes D ?part)"
      "sent V c' = sent V c @ take n (part_bytes D ?part)"
      using wire_lawsD(5) [OF N] unfolding rustls_writer_laws_def by blast+
    with wr Inr prod laws show ?thesis
      by (auto simp: offer_plain_def Let_def min_def split: if_splits)
  qed
qed

definition plain_laws ::
    "('c, 's) rustls \<Rightarrow> ('b, 's, 'p) egress_ops \<Rightarrow> ('i, 't) progress_ops \<Rightarrow>
     'c rustls_view \<Rightarrow> ('i, 't) progress_view \<Rightarrow> ('s \<Rightarrow> bytes) \<Rightarrow> bool" where
  "plain_laws N E D V U sb \<longleftrightarrow> wire_laws N E V sb \<and> plain_progress_laws D U"

interpretation slice: sealing N E D V U sb "offer_plain N D" "encrypt_loop N E D"
    "plain_laws N E D V U sb"
  for N :: "('c, 's) rustls" and E :: "('b, 's, 'p) egress_ops" and D :: "('i, 't) progress_ops"
    and V :: "'c rustls_view" and U :: "('i, 't) progress_view" and sb :: "'s \<Rightarrow> bytes"
proof (unfold_locales, goal_cases)
  case (1 conn out plain)
  show ?case by (rule encrypt_loop_unfold)
next
  case (2 plain)
  then show ?case
    by (simp add: plain_laws_def plain_progress_laws_def progress_laws_def)
next
  case 3
  then show ?case by (simp add: plain_laws_def)
next
  case (4 c plain)
  then show ?case unfolding plain_laws_def by (intro offer_plain_spec) auto
qed

section \<open>The loop over descriptors\<close>

definition offer_many ::
    "nat \<Rightarrow> ('c, 's) rustls \<Rightarrow> ('i, 't) progress_ops \<Rightarrow> 'c \<Rightarrow> 'i \<Rightarrow>
     ((io_error + nat) \<times> 'c \<times> 'i) option" where
  "offer_many k N D c plain =
     (let parts = in_take D plain MAX_PLAINTEXT;
          (slices, parts') = collect D k parts
      in case writer_write_vectored N c slices of
           (Inl e, c') \<Rightarrow> Some (Inl e, c', part_drop D parts')
         | (Inr n, c') \<Rightarrow>
             map_option (\<lambda>plain'. (Inr n, c', plain'))
               (if n = part_amount D parts then Some (part_commit D parts')
                else let used = len_prefix D n (part_amount D parts);
                         dropped = part_drop D parts'
                     in if used \<noteq> 0
                        then map_option (part_commit D)
                               (exhaust_part D (in_take D dropped used))
                        else Some dropped))"

lemma encrypt_many_loop_unfold:
  "encrypt_many_loop k N E D conn out plain =
      (if \<not> in_is_empty D plain \<and> cursor_spare_len E out \<noteq> 0 \<and> \<not> wants_write N (native conn)
       then do {
         (r, c', plain') \<leftarrow> offer_many k N D (native conn) plain;
         (case r of
            Inl e \<Rightarrow> Some (Terminal () (Io e), conn\<lparr>native := c', failed := True\<rparr>, out, plain')
          | Inr n \<Rightarrow> do {
              (cause, conn', out') \<leftarrow> conn_drain N E (conn\<lparr>native := c'\<rparr>) out;
              (case cause of
                 Some e \<Rightarrow> Some (Terminal () e, conn'\<lparr>failed := True\<rparr>, out', plain')
               | None \<Rightarrow> if n = 0 then Some (Output (), conn', out', plain')
                         else encrypt_many_loop k N E D conn' out' plain')
            })
       }
       else Some (Output (), conn, out, plain))"
  by (subst encrypt_many_loop.simps,
      unfold offer_many_def fail_with_def Let_def prod.case map_option_case)
    (auto split: sum.split prod.split option.split)

lemma vectored_progress_lawsD:
  assumes "vectored_progress_laws k D U"
  shows "progress_laws D U" and "concat (rest U (in_take D i n)) = take n (left U i)"
    and "length (rest U (in_take D i n)) \<le> k"
    and "part_next D t = (None, t') \<Longrightarrow> rest U t = [] \<and>
        rest U t' = [] \<and> base U t' = base U t \<and> span U t' = span U t"
    and "part_next D t = (Some x, t') \<Longrightarrow> rest U t = x # rest U t' \<and>
        base U t' = base U t \<and> span U t' = span U t"
  using assms unfolding vectored_progress_laws_def by blast+

lemma collect_spec:
  "vectored_progress_laws k D U \<Longrightarrow> collect D j t = (slices, t') \<Longrightarrow> length (rest U t) \<le> j \<Longrightarrow>
    slices = rest U t \<and> rest U t' = [] \<and> base U t' = base U t \<and> span U t' = span U t"
proof (induction D j t arbitrary: slices t' rule: collect.induct)
  case (1 D t)
  then show ?case by simp
next
  case (2 D j t)
  obtain x t1 where nx: "part_next D t = (x, t1)" by (cases "part_next D t")
  note laws = vectored_progress_lawsD(4,5) [OF 2(2)]
  show ?case
  proof (cases x)
    case None
    with 2(3) nx laws(1) show ?thesis by auto
  next
    case (Some chunk)
    obtain rest' t2 where co: "collect D j t1 = (rest', t2)" by (cases "collect D j t1")
    have nxt: "rest U t = chunk # rest U t1 \<and> base U t1 = base U t \<and> span U t1 = span U t"
      using laws(2) nx Some by blast
    with 2(4) have "length (rest U t1) \<le> j" by simp
    from 2(1) [OF nx [symmetric] Some 2(2) co this] nxt nx Some co 2(3) show ?thesis by auto
  qed
qed

lemma exhaust_part_total:
  assumes "vectored_progress_laws k D U"
  shows "\<exists>t'. exhaust_part D t = Some t' \<and> rest U t' = [] \<and>
    base U t' = base U t \<and> span U t' = span U t"
proof (induction "rest U t" arbitrary: t)
  case Nil
  then obtain t' where "part_next D t = (None, t')"
    using vectored_progress_lawsD(5) [OF assms] by (metis list.distinct(1) option.exhaust prod.exhaust)
  with vectored_progress_lawsD(4) [OF assms this] show ?case
    by (subst exhaust_part.simps) simp
next
  case (Cons x xs)
  then obtain y t' where nx: "part_next D t = (Some y, t')"
    using vectored_progress_lawsD(4) [OF assms] by (metis list.distinct(1) option.exhaust prod.exhaust)
  from vectored_progress_lawsD(5) [OF assms this] Cons(2) have "xs = rest U t'"
    "base U t' = base U t" "span U t' = span U t" by auto
  with Cons(1) [of t'] nx show ?case by (subst exhaust_part.simps) simp
qed

lemma offer_many_spec:
  assumes N: "wire_laws N E V sb" and D: "vectored_progress_laws k D U"
  shows "\<exists>r c' plain'. offer_many k N D c plain = Some (r, c', plain') \<and>
      produces V c c' \<and>
      (case r of
         Inl _ \<Rightarrow> sent V c' = sent V c \<and>
           left U plain' = left U plain \<and> in_done D plain' = in_done D plain
       | Inr n \<Rightarrow> n \<le> length (left U plain) \<and> sent V c' = sent V c @ take n (left U plain) \<and>
           left U plain' = drop n (left U plain) \<and> in_done D plain' = in_done D plain + n)"
proof -
  note laws = progress_lawsD [OF vectored_progress_lawsD(1) [OF D]]
  let ?parts = "in_take D plain MAX_PLAINTEXT"
  obtain slices parts' where co: "collect D k ?parts = (slices, parts')"
    by (cases "collect D k ?parts")
  from collect_spec [OF D co vectored_progress_lawsD(3) [OF D]] laws
  have parts: "slices = rest U ?parts" "rest U parts' = []" "base U parts' = plain"
    "span U parts' = min MAX_PLAINTEXT (length (left U plain))" by auto
  then have slices: "concat slices = take MAX_PLAINTEXT (left U plain)"
    using vectored_progress_lawsD(2) [OF D] by simp
  obtain r c' where wr: "writer_write_vectored N c slices = (r, c')"
    by (cases "writer_write_vectored N c slices")
  have prod: "produces V c c'"
    using wire_lawsD(4) [OF N] wr unfolding rustls_wire_laws_def by (metis snd_conv)
  show ?thesis
  proof (cases r)
    case (Inl e)
    with wr have "sent V c' = sent V c"
      using wire_lawsD(5) [OF N] unfolding rustls_writer_laws_def by blast
    with wr Inl prod laws co parts show ?thesis by (simp add: offer_many_def Let_def)
  next
    case (Inr n)
    with wr have n: "n \<le> length (concat slices)"
      "sent V c' = sent V c @ take n (concat slices)"
      using wire_lawsD(5) [OF N] unfolding rustls_writer_laws_def by blast+
    obtain t where ex: "exhaust_part D (in_take D (part_drop D parts') n) = Some t"
      "rest U t = []" "base U t = part_drop D parts'" "span U t = min n (length (left U plain))"
      using exhaust_part_total [OF D, of "in_take D (part_drop D parts') n"] laws parts by auto
    with n wr Inr prod laws co parts slices show ?thesis
      by (auto simp: offer_many_def Let_def min_def split: if_splits)
  qed
qed

definition many_laws ::
    "nat \<Rightarrow> ('c, 's) rustls \<Rightarrow> ('b, 's, 'p) egress_ops \<Rightarrow> ('i, 't) progress_ops \<Rightarrow>
     'c rustls_view \<Rightarrow> ('i, 't) progress_view \<Rightarrow> ('s \<Rightarrow> bytes) \<Rightarrow> bool" where
  "many_laws k N E D V U sb \<longleftrightarrow> wire_laws N E V sb \<and> vectored_progress_laws k D U"

interpretation vectored: sealing N E D V U sb "offer_many k N D" "encrypt_many_loop k N E D"
    "many_laws k N E D V U sb"
  for k :: nat and N :: "('c, 's) rustls" and E :: "('b, 's, 'p) egress_ops"
    and D :: "('i, 't) progress_ops"
    and V :: "'c rustls_view" and U :: "('i, 't) progress_view" and sb :: "'s \<Rightarrow> bytes"
proof (unfold_locales, goal_cases)
  case (1 conn out plain)
  show ?case by (rule encrypt_many_loop_unfold)
next
  case (2 plain)
  then show ?case
    by (simp add: many_laws_def vectored_progress_laws_def progress_laws_def)
next
  case 3
  then show ?case by (simp add: many_laws_def)
next
  case (4 c plain)
  then show ?case unfolding many_laws_def by (intro offer_many_spec) auto
qed

section \<open>An eager writer does not stall a loop\<close>

lemma offer_plain_eager:
  assumes "plain_progress_laws D U" and "rustls_eager_laws N"
    and "offer_plain N D c q = Some (Inr 0, c', plain)" and "\<not> wants_write N c"
  shows "left U q = []"
proof (rule ccontr)
  assume "left U q \<noteq> []"
  then have "part_bytes D (in_take D q MAX_PLAINTEXT) \<noteq> []"
    using plain_progress_lawsD(2) [OF assms(1)] by (simp add: MAX_PLAINTEXT_def)
  moreover have "writer_write N c (part_bytes D (in_take D q MAX_PLAINTEXT)) = (Inr 0, c')"
    using assms(3) by (auto simp: offer_plain_def Let_def split: sum.splits prod.splits)
  ultimately show False using assms(2,4) unfolding rustls_eager_laws_def by blast
qed

lemma offer_many_eager:
  assumes "vectored_progress_laws k D U" and "rustls_eager_laws N"
    and "offer_many k N D c q = Some (Inr 0, c', plain)" and "\<not> wants_write N c"
  shows "left U q = []"
proof (rule ccontr)
  assume some: "left U q \<noteq> []"
  let ?parts = "in_take D q MAX_PLAINTEXT"
  obtain slices parts' where co: "collect D k ?parts = (slices, parts')"
    by (cases "collect D k ?parts")
  from collect_spec [OF assms(1) co vectored_progress_lawsD(3) [OF assms(1)]]
  have "concat slices \<noteq> []"
    using vectored_progress_lawsD(2) [OF assms(1)] some by (simp add: MAX_PLAINTEXT_def)
  moreover have "writer_write_vectored N c slices = (Inr 0, c')"
    using assms(3) co by (auto simp: offer_many_def Let_def split: sum.splits prod.splits)
  ultimately show False using assms(2,4) unfolding rustls_eager_laws_def by blast
qed

end
