(* ===== verification/Send_Correct.thy ===== *)
theory Send_Correct
  imports Sealing
begin

text \<open>
  What the send handlers promise, over the whole of a connection's egress: the bytes owed to the
  transport (the store's cursor, then the native queue) only grow by what the native connection
  produces, pool slots are conserved, the plan's consumed count is what the writer accepted, and
  the flags of the connection are latches.
\<close>

section \<open>The egress of a connection\<close>

definition owed :: "('b, 's, 'p) egress_ops \<Rightarrow> 'c rustls_view \<Rightarrow> ('c, 'b, 'p) tx \<Rightarrow> bytes" where
  "owed E V t = st_as_slice E (tx_store t) @ pend V (native (tx_conn t))"

definition tx_slots :: "('b, 's, 'p) egress_ops \<Rightarrow> ('c, 'b, 'p) tx \<Rightarrow> nat" where
  "tx_slots E t = st_slots E (tx_store t) (tx_pool t)"

text \<open>No cursor is held for nothing.\<close>

definition tidy :: "('b, 's, 'p) egress_ops \<Rightarrow> ('c, 'b, 'p) tx \<Rightarrow> bool" where
  "tidy E t \<longleftrightarrow> (st_holding (tx_store t) \<longleftrightarrow> st_as_slice E (tx_store t) \<noteq> [])"

text \<open>The step produced \<open>d\<close>, owes it behind what was owed before, and kept the pool's slots.\<close>

definition extends ::
    "('b, 's, 'p) egress_ops \<Rightarrow> 'c rustls_view \<Rightarrow> ('c, 'b, 'p) tx \<Rightarrow> ('c, 'b, 'p) tx \<Rightarrow> bool" where
  "extends E V t t' \<longleftrightarrow>
     (\<exists>d. made V (native (tx_conn t')) = made V (native (tx_conn t)) @ d \<and>
          owed E V t' = owed E V t @ d) \<and>
     tx_slots E t' = tx_slots E t \<and>
     latch_le (tx_conn t) (tx_conn t')"

lemma extends_refl [simp, intro]: "extends E V t t"
  by (simp add: extends_def)

lemma extends_trans: "extends E V a b \<Longrightarrow> extends E V b c \<Longrightarrow> extends E V a c"
  by (auto simp: extends_def intro: latch_le_trans)

lemma wire_st_inv: "wire_laws N E V sb \<Longrightarrow> st_inv E sb st p"
  by (simp add: st_inv_def wire_laws_def)

text \<open>A borrow that finds no slot changes nothing.\<close>

lemma no_buffer:
  assumes "wire_laws N E V sb"
    and "st_try_buffer E (tx_store t) (tx_pool t) = (None, send, pool)"
  shows "t\<lparr>tx_store := send, tx_pool := pool\<rparr> = t"
    and "\<not> st_holding (tx_store t)" and "st_as_slice E (tx_store t) = []"
    and "pool_available E (tx_pool t) = 0"
  using send_store.take_none [OF wire_st_inv [OF assms(1)] assms(2)] by simp_all

text \<open>A borrow, writes through the cursor, and the drop of an idle cursor.\<close>

lemma cycle:
  assumes laws: "wire_laws N E V sb"
    and borrow: "st_try_buffer E (tx_store t) (tx_pool t) = (Some out, send, pool)"
    and grow: "prefix (cursor_bytes E out) (cursor_bytes E out')"
    and made: "made V (native conn') = made V (native (tx_conn t)) @ d"
    and moved: "cursor_bytes E out' @ pend V (native conn') =
      cursor_bytes E out @ pend V (native (tx_conn t)) @ d"
    and latch: "latch_le (tx_conn t) conn'"
    and drp: "st_drop_empty E (st_put out' send) pool = (send', pool')"
  shows "extends E V t \<lparr> tx_conn = conn', tx_store = send', tx_pool = pool' \<rparr>"
    and "tidy E \<lparr> tx_conn = conn', tx_store = send', tx_pool = pool' \<rparr>"
    and "st_as_slice E send' = cursor_bytes E out'"
proof -
  from grow obtain e where e: "cursor_bytes E out' = cursor_bytes E out @ e"
    by (auto elim: prefixE)
  note cyc = send_store.append_cycle [OF wire_st_inv [OF laws] borrow e drp]
  have "cursor_bytes E out = st_as_slice E (tx_store t)"
    using send_store.take_some [OF wire_st_inv [OF laws] borrow] by blast
  with cyc(2) e show q: "st_as_slice E send' = cursor_bytes E out'" by simp
  with cyc(2-3) show "tidy E \<lparr> tx_conn = conn', tx_store = send', tx_pool = pool' \<rparr>"
    by (simp add: tidy_def)
  show "extends E V t \<lparr> tx_conn = conn', tx_store = send', tx_pool = pool' \<rparr>"
    using made moved latch cyc(4) q \<open>cursor_bytes E out = st_as_slice E (tx_store t)\<close>
    by (auto simp: extends_def owed_def tx_slots_def st_slots_def)
qed

lemma emitted_latch: "emitted N E V conn out conn' out' \<Longrightarrow> latch_le conn conn'"
  unfolding emitted_def by (metis latch_le_native(1) latch_le_refl)

lemma emitted_cycle:
  assumes "wire_laws N E V sb"
    and "st_try_buffer E (tx_store t) (tx_pool t) = (Some out, send, pool)"
    and "emitted N E V (tx_conn t) out conn' out'"
    and "st_drop_empty E (st_put out' send) pool = (send', pool')"
  shows "extends E V t \<lparr> tx_conn = conn', tx_store = send', tx_pool = pool' \<rparr>"
    and "tidy E \<lparr> tx_conn = conn', tx_store = send', tx_pool = pool' \<rparr>"
    and "st_as_slice E send' = cursor_bytes E out'"
proof -
  from assms(3) have em: "prefix (cursor_bytes E out) (cursor_bytes E out')"
    "made V (native conn') = made V (native (tx_conn t)) @ []"
    "cursor_bytes E out' @ pend V (native conn') =
      cursor_bytes E out @ pend V (native (tx_conn t)) @ []"
    by (simp_all add: emitted_def)
  note cycle [OF assms(1,2) em emitted_latch [OF assms(3)] assms(4)]
  then show "extends E V t \<lparr> tx_conn = conn', tx_store = send', tx_pool = pool' \<rparr>"
    and "tidy E \<lparr> tx_conn = conn', tx_store = send', tx_pool = pool' \<rparr>"
    and "st_as_slice E send' = cursor_bytes E out'" by simp_all
qed

section \<open>Preparing a send\<close>

text \<open>What \<open>prepare_with\<close> needs of its sealing routine.\<close>

definition seals ::
    "('b, 's, 'p) egress_ops \<Rightarrow> ('i, 't) progress_ops \<Rightarrow> ('i, 't) progress_view \<Rightarrow> 'c rustls_view \<Rightarrow>
     ('c, 's) rustls \<Rightarrow>
     ('c connection \<Rightarrow> 'b \<Rightarrow> 'i \<Rightarrow> (unit processed \<times> 'c connection \<times> 'b \<times> 'i) option) \<Rightarrow> bool" where
  "seals E D U V N seal \<longleftrightarrow> (\<forall>conn out plain. \<exists>k res conn' out' plain'.
     seal conn out plain = Some (res, conn', out', plain') \<and>
     sealed E D U V k (failure res) conn out plain conn' out' plain' \<and>
     (\<not> can_write N conn \<longrightarrow> k = 0 \<and> res = Output ()) \<and> (\<forall>x. res \<noteq> EofOutput x) \<and>
     (rustls_eager_laws N \<longrightarrow> can_write N conn \<longrightarrow> failure res \<noteq> None \<or> left U plain' = [] \<or>
        cursor_spare_len E out' = 0 \<or> wants_write N (native conn')))"

text \<open>
  The promise of \<open>prepare\<close> and \<open>prepare_many\<close> for a fresh plan: they return; the plan reports as
  consumed exactly the \<open>k\<close> bytes the writer accepted, in order; ciphertext and slots are conserved;
  a buffer is awaited only where the pool is exhausted, with nothing changed; the transport is
  closed only for a failed connection, and always where a cause is reported.
\<close>

definition prepared_ok ::
    "('b, 's, 'p) egress_ops \<Rightarrow> ('i, 't) progress_view \<Rightarrow> 'c rustls_view \<Rightarrow>
     ('c, 'b, 'p) tx \<Rightarrow> 'i \<Rightarrow> nat \<Rightarrow> prepared processed \<Rightarrow> ('c, 'b, 'p) tx \<Rightarrow> bool" where
  "prepared_ok E U V t plain k r t' \<longleftrightarrow>
     pr_consumed (outcome r) = k \<and> k \<le> length (left U plain) \<and>
     sent V (native (tx_conn t')) = sent V (native (tx_conn t)) @ take k (left U plain) \<and>
     extends E V t t' \<and> (tidy E t \<longrightarrow> tidy E t') \<and>
     (pr_ready (outcome r) = BufferWait \<longrightarrow> r = Output prep_wait \<and> t' = t \<and>
        pool_available E (tx_pool t) = 0) \<and>
     (pr_close (outcome r) \<longrightarrow> failed (tx_conn t')) \<and>
     (failure r \<noteq> None \<longrightarrow> failed (tx_conn t') \<and> pr_close (outcome r))"

text \<open>The plan was used up, or something other than the sealing loop stopped it.\<close>

definition saturated ::
    "('b, 's, 'p) egress_ops \<Rightarrow> ('i, 't) progress_view \<Rightarrow> 'i \<Rightarrow> nat \<Rightarrow> prepared processed \<Rightarrow>
     ('c, 'b, 'p) tx \<Rightarrow> bool" where
  "saturated E U plain k r t' \<longleftrightarrow>
     k = length (left U plain) \<or> failure r \<noteq> None \<or> pr_ready (outcome r) = BufferWait \<or>
     (\<exists>b. buffer (tx_store t') = Some b \<and> cursor_spare_len E b = 0)"

lemma borrowed_room:
  assumes "wire_laws N E V sb" and "tidy E t"
    and "st_try_buffer E (tx_store t) (tx_pool t) = (Some out, send, pool)"
  shows "0 < cursor_spare_len E out + length (cursor_bytes E out)"
proof (cases "buffer (tx_store t)")
  case None
  with assms(3) obtain p' where "pool_view E (tx_pool t) = Some (out, p')"
    by (auto simp: st_try_buffer_def split: option.splits)
  from pool_lawsD(4) [OF wire_lawsD(2) [OF assms(1)] this] show ?thesis by simp
next
  case (Some b)
  with assms(2,3) have "cursor_bytes E out \<noteq> []"
    by (simp add: st_try_buffer_def tidy_def st_holding_def st_as_slice_def)
  then show ?thesis by simp
qed

lemma full_kept:
  assumes "wire_laws N E V sb" and "cursor_bytes E out \<noteq> []"
    and "st_drop_empty E (st_put out send) pool = (send', pool')"
  shows "buffer send' = Some out"
proof -
  have "\<not> cursor_is_empty E out"
    using assms(2) cursor_lawsD(1) [OF wire_lawsD(1) [OF assms(1)], of out] by blast
  then have "st_drop_empty E (st_put out send) pool = (st_put out send, pool)"
    by (simp add: st_drop_empty_def st_free_empty_def st_put_def)
  with assms(3) show ?thesis by (auto simp: st_put_def)
qed

lemma prepared_ok_sealed:
  assumes laws: "wire_laws N E V sb"
    and borrow: "st_try_buffer E (tx_store t) (tx_pool t) = (Some out, send, pool)"
    and em: "emitted N E V (tx_conn t) out conn1 out1"
    and sd: "sealed E D U V k (failure res) conn1 out1 plain conn2 out2 plain2"
    and drp: "st_drop_empty E (st_put out2 send) pool = (send', pool')"
    and fresh: "in_done D plain = 0" and noeof: "\<And>x. res \<noteq> EofOutput x"
  shows "prepared_ok E U V t plain k
    (map_processed (\<lambda>_. finish (in_done D plain2) (failed conn2)) res)
    \<lparr> tx_conn = conn2, tx_store = send', tx_pool = pool' \<rparr>"
proof -
  from sd obtain d where d: "made V (native conn2) = made V (native conn1) @ d"
    "cursor_bytes E out2 @ pend V (native conn2) = cursor_bytes E out1 @ pend V (native conn1) @ d"
    by (auto simp: sealed_def)
  have latch: "latch_le (tx_conn t) conn2"
    using latch_le_trans [OF emitted_latch [OF em], of conn2] sd
    by (auto simp: sealed_def latch_le_def)
  have grow: "prefix (cursor_bytes E out) (cursor_bytes E out2)"
    using em sd prefix_order.trans unfolding emitted_def sealed_def by blast
  have made: "made V (native conn2) = made V (native (tx_conn t)) @ d"
    using d em by (simp add: emitted_def)
  have moved: "cursor_bytes E out2 @ pend V (native conn2) =
      cursor_bytes E out @ pend V (native (tx_conn t)) @ d"
    using d(2) em unfolding emitted_def by (metis append.assoc)
  have "extends E V t \<lparr> tx_conn = conn2, tx_store = send', tx_pool = pool' \<rparr>"
    "tidy E \<lparr> tx_conn = conn2, tx_store = send', tx_pool = pool' \<rparr>"
    by (rule cycle(1,2) [OF laws borrow grow made moved latch drp])+
  moreover have "sent V (native conn2) = sent V (native (tx_conn t)) @ take k (left U plain)"
    using sd em unfolding sealed_def emitted_def by metis
  moreover have "outcome (map_processed (\<lambda>_. x) res) = x"
    "failure (map_processed (\<lambda>_. x) res) = failure res" for x :: prepared
    by (cases res; simp)+
  ultimately show ?thesis
    using sd fresh by (auto simp: prepared_ok_def sealed_def)
qed

lemma sealed_saturated:
  assumes laws: "wire_laws N E V sb" and tidy: "tidy E t"
    and borrow: "st_try_buffer E (tx_store t) (tx_pool t) = (Some out, send, pool)"
    and em: "emitted N E V (tx_conn t) out conn1 out1"
    and sd: "sealed E D U V k (failure res) conn1 out1 plain conn2 out2 plain2"
    and drp: "st_drop_empty E (st_put out2 send) pool = (send', pool')"
    and quiet: "\<not> wants_write N (native conn1)"
    and stop: "failure res \<noteq> None \<or> left U plain2 = [] \<or> cursor_spare_len E out2 = 0 \<or>
      wants_write N (native conn2)"
  shows "saturated E U plain k (map_processed (\<lambda>_. output) res)
    \<lparr> tx_conn = conn2, tx_store = send', tx_pool = pool' \<rparr>"
proof -
  have res: "failure (map_processed (\<lambda>_. output) res) = failure res" by (cases res) simp_all
  consider "failure res \<noteq> None" | "left U plain2 = []" |
      "failure res = None" "cursor_spare_len E out2 = 0"
    using stop sd quiet wire_lawsD(6) [OF laws] unfolding sealed_def by auto
  then show ?thesis
  proof cases
    case 1
    with res show ?thesis by (simp add: saturated_def)
  next
    case 2
    with sd show ?thesis by (simp add: saturated_def sealed_def)
  next
    case 3
    have "cursor_bytes E out2 \<noteq> []"
      using borrowed_room [OF laws tidy borrow] em sd 3 unfolding emitted_def sealed_def by auto
    with full_kept [OF laws _ drp] 3 show ?thesis by (simp add: saturated_def)
  qed
qed

text \<open>A handler around \<open>seal\<close> keeps its promise from a state, the branch it takes there included.\<close>

definition prepares where
  "prepares seal N E D U V t plain \<longleftrightarrow> (\<exists>k r t'. prepare_with seal N E D t plain = Some (r, t') \<and>
     prepared_ok E U V t plain k r t' \<and>
     (failed (tx_conn t) \<or> local_closed (tx_conn t) \<longrightarrow> k = 0) \<and>
     (rustls_eager_laws N \<and> can_write N (tx_conn t) \<and> tidy E t \<longrightarrow> saturated E U plain k r t'))"

lemma preparesI:
  assumes "prepare_with seal N E D t plain = Some (r, t')" and "prepared_ok E U V t plain k r t'"
    and "failed (tx_conn t) \<or> local_closed (tx_conn t) \<Longrightarrow> k = 0"
    and "rustls_eager_laws N \<Longrightarrow> can_write N (tx_conn t) \<Longrightarrow> tidy E t \<Longrightarrow> saturated E U plain k r t'"
  shows "prepares seal N E D U V t plain"
  using assms unfolding prepares_def by blast

lemma prepare_idle:
  assumes "progress_laws D U" and "in_is_empty D plain \<and> st_as_slice E (tx_store t) = [] \<and>
    \<not> wants_write N (native (tx_conn t))"
  shows "prepares seal N E D U V t plain"
proof (rule preparesI)
  show "prepare_with seal N E D t plain = Some (Output (prep_buffered 0), t)"
    unfolding prepare_with_def using assms(2) by (simp only: if_True simp_thms)
  show "prepared_ok E U V t plain 0 (Output (prep_buffered 0)) t"
    by (simp add: prepared_ok_def prep_buffered_def)
qed (use assms(2) progress_lawsD(1) [OF assms(1), of plain] in \<open>simp_all add: saturated_def\<close>)

lemma prepare_waits:
  assumes laws: "wire_laws N E V sb"
    and busy: "\<not> (in_is_empty D plain \<and> st_as_slice E (tx_store t) = [] \<and>
      \<not> wants_write N (native (tx_conn t)))"
    and borrow: "st_try_buffer E (tx_store t) (tx_pool t) = (None, send, pool)"
  shows "prepares seal N E D U V t plain"
proof (rule preparesI)
  note nb = no_buffer [OF laws borrow]
  show "prepare_with seal N E D t plain = Some (Output prep_wait, t)"
    unfolding prepare_with_def if_not_P [OF busy] borrow using nb(1) by simp
  show "prepared_ok E U V t plain 0 (Output prep_wait) t"
    using nb(4) by (simp add: prepared_ok_def prep_wait_def)
qed (simp_all add: saturated_def prep_wait_def)

text \<open>With a buffer: ciphertext left in the native queue comes first, then plaintext is sealed.\<close>

lemma prepare_drains:
  assumes laws: "wire_laws N E V sb" and fresh: "in_done D plain = 0"
    and busy: "\<not> (in_is_empty D plain \<and> st_as_slice E (tx_store t) = [] \<and>
      \<not> wants_write N (native (tx_conn t)))"
    and borrow: "st_try_buffer E (tx_store t) (tx_pool t) = (Some out, send, pool)"
    and dr: "conn_drain N E (tx_conn t) out = Some (None, conn1, out1)"
    and em: "emitted N E V (tx_conn t) out conn1 out1" and full: "wants_write N (native conn1)"
  shows "prepares seal N E D U V t plain"
proof -
  obtain send' pool' where drp: "st_drop_empty E (st_put out1 send) pool = (send', pool')"
    by (cases "st_drop_empty E (st_put out1 send) pool")
  let ?t = "\<lparr> tx_conn = conn1, tx_store = send', tx_pool = pool' \<rparr>"
  show ?thesis
  proof (rule preparesI)
    show "prepare_with seal N E D t plain = Some (Output (finish 0 (failed conn1)), ?t)"
      unfolding prepare_with_def if_not_P [OF busy] borrow Let_def
      using dr full drp fresh by simp
    show "prepared_ok E U V t plain 0 (Output (finish 0 (failed conn1))) ?t"
      using emitted_cycle(1,2) [OF laws borrow em drp] em by (auto simp: prepared_ok_def emitted_def)
    assume "tidy E t"
    have room: "cursor_spare_len E out1 = 0"
      using em full wire_lawsD(6) [OF laws] by (auto simp: emitted_def)
    have "cursor_bytes E out1 \<noteq> []"
      using borrowed_room [OF laws \<open>tidy E t\<close> borrow] em room by (auto simp: emitted_def)
    with room show "saturated E U plain 0 (Output (finish 0 (failed conn1))) ?t"
      using full_kept [OF laws _ drp] by (simp add: saturated_def)
  qed simp
qed

lemma prepare_seals:
  assumes laws: "wire_laws N E V sb" and fresh: "in_done D plain = 0" and seal: "seals E D U V N seal"
    and busy: "\<not> (in_is_empty D plain \<and> st_as_slice E (tx_store t) = [] \<and>
      \<not> wants_write N (native (tx_conn t)))"
    and borrow: "st_try_buffer E (tx_store t) (tx_pool t) = (Some out, send, pool)"
    and dr: "conn_drain N E (tx_conn t) out = Some (None, conn1, out1)"
    and em: "emitted N E V (tx_conn t) out conn1 out1" and idle: "\<not> wants_write N (native conn1)"
  shows "prepares seal N E D U V t plain"
proof -
  have can: "can_write N conn1 \<Longrightarrow> \<not> failed (tx_conn t) \<and> \<not> local_closed (tx_conn t)"
    using conn_drain_failed [OF dr] conn_drain_flags [OF dr] by (simp add: can_write_def)
  have keeps: "can_write N conn1" if "rustls_eager_laws N" "can_write N (tx_conn t)"
    using emit_into_keeps [where f = "is_handshaking N"] dr that conn_drain_failed [OF dr]
      conn_drain_flags [OF dr]
    by (fastforce simp: conn_drain_def rustls_eager_laws_def can_write_def split: sum.splits)
  obtain k res conn2 out2 plain2 where sl: "seal conn1 out1 plain = Some (res, conn2, out2, plain2)"
    and sd: "sealed E D U V k (failure res) conn1 out1 plain conn2 out2 plain2"
    and none: "\<not> can_write N conn1 \<Longrightarrow> k = 0" and noeof: "\<And>x. res \<noteq> EofOutput x"
    and stop: "rustls_eager_laws N \<Longrightarrow> can_write N conn1 \<Longrightarrow>
      failure res \<noteq> None \<or> left U plain2 = [] \<or> cursor_spare_len E out2 = 0 \<or>
      wants_write N (native conn2)"
    using seal unfolding seals_def by metis
  obtain send' pool' where drp: "st_drop_empty E (st_put out2 send) pool = (send', pool')"
    by (cases "st_drop_empty E (st_put out2 send) pool")
  let ?r = "map_processed (\<lambda>_. finish (in_done D plain2) (failed conn2)) res"
  show ?thesis
  proof (rule preparesI)
    show "prepare_with seal N E D t plain =
        Some (?r, \<lparr> tx_conn = conn2, tx_store = send', tx_pool = pool' \<rparr>)"
      unfolding prepare_with_def if_not_P [OF busy] borrow Let_def using dr idle sl drp by simp
    show "saturated E U plain k ?r \<lparr> tx_conn = conn2, tx_store = send', tx_pool = pool' \<rparr>"
      if "rustls_eager_laws N" "can_write N (tx_conn t)" "tidy E t"
      using sealed_saturated [OF laws that(3) borrow em sd drp idle] stop [OF that(1) keeps [OF that(1,2)]] .
  qed (use prepared_ok_sealed [OF laws borrow em sd drp fresh noeof] none can in auto)
qed

lemma prepare_with_ok:
  assumes laws: "wire_laws N E V sb" and D: "progress_laws D U"
    and seal: "seals E D U V N seal" and fresh: "in_done D plain = 0"
  shows "\<exists>k r t'. prepare_with seal N E D t plain = Some (r, t') \<and>
    prepared_ok E U V t plain k r t' \<and>
    (failed (tx_conn t) \<or> local_closed (tx_conn t) \<longrightarrow> k = 0) \<and>
    (rustls_eager_laws N \<and> can_write N (tx_conn t) \<and> tidy E t \<longrightarrow> saturated E U plain k r t')"
proof -
  obtain egress send pool where
    borrow: "st_try_buffer E (tx_store t) (tx_pool t) = (egress, send, pool)"
    by (cases "st_try_buffer E (tx_store t) (tx_pool t)") auto
  have "prepares seal N E D U V t plain"
    if busy: "\<not> (in_is_empty D plain \<and> st_as_slice E (tx_store t) = [] \<and>
      \<not> wants_write N (native (tx_conn t)))"
  proof (cases egress)
    case None
    show ?thesis by (rule prepare_waits [OF laws busy borrow [unfolded None]])
  next
    case (Some out)
    obtain conn1 out1 where dr: "conn_drain N E (tx_conn t) out = Some (None, conn1, out1)"
      "emitted N E V (tx_conn t) out conn1 out1"
      using conn_drain_emitted [OF laws] by blast
    show ?thesis
      using prepare_drains [OF laws fresh busy borrow [unfolded Some] dr]
        prepare_seals [OF laws fresh seal busy borrow [unfolded Some] dr] by blast
  qed
  with prepare_idle [OF D] show ?thesis unfolding prepares_def by blast
qed

lemma encrypt_seals:
  assumes "plain_laws N E D V U sb"
  shows "seals E D U V N (encrypt N E D)"
  unfolding seals_def
proof (intro allI)
  fix conn out plain
  show "\<exists>k res conn' out' plain'. encrypt N E D conn out plain = Some (res, conn', out', plain') \<and>
     sealed E D U V k (failure res) conn out plain conn' out' plain' \<and>
     (\<not> can_write N conn \<longrightarrow> k = 0 \<and> res = Output ()) \<and> (\<forall>x. res \<noteq> EofOutput x) \<and>
     (rustls_eager_laws N \<longrightarrow> can_write N conn \<longrightarrow> failure res \<noteq> None \<or> left U plain' = [] \<or>
        cursor_spare_len E out' = 0 \<or> wants_write N (native conn'))"
  proof (cases "can_write N conn")
    case False
    then show ?thesis using sealed_refl [of E D U V conn out plain] by (fastforce simp: encrypt_def)
  next
    case True
    from assms have D: "plain_progress_laws D U" by (simp add: plain_laws_def)
    show ?thesis
      using slice.loop_seals [OF assms, of conn out plain] True offer_plain_eager [OF D, of N]
      unfolding encrypt_def stopped_def by (simp only: simp_thms if_False) blast
  qed
qed

lemma encrypt_many_seals:
  assumes "many_laws k N E D V U sb"
  shows "seals E D U V N (encrypt_many k N E D)"
  unfolding seals_def
proof (intro allI)
  fix conn out plain
  show "\<exists>j res conn' out' plain'. encrypt_many k N E D conn out plain = Some (res, conn', out', plain') \<and>
     sealed E D U V j (failure res) conn out plain conn' out' plain' \<and>
     (\<not> can_write N conn \<longrightarrow> j = 0 \<and> res = Output ()) \<and> (\<forall>x. res \<noteq> EofOutput x) \<and>
     (rustls_eager_laws N \<longrightarrow> can_write N conn \<longrightarrow> failure res \<noteq> None \<or> left U plain' = [] \<or>
        cursor_spare_len E out' = 0 \<or> wants_write N (native conn'))"
  proof (cases "can_write N conn")
    case False
    then show ?thesis
      using sealed_refl [of E D U V conn out plain] by (fastforce simp: encrypt_many_def)
  next
    case True
    from assms have D: "vectored_progress_laws k D U" by (simp add: many_laws_def)
    show ?thesis
      using vectored.loop_seals [OF assms, of conn out plain] True offer_many_eager [OF D, of N]
      unfolding encrypt_many_def stopped_def by (simp only: simp_thms if_False) blast
  qed
qed

text \<open>
  C2. \<open>prepare\<close> is exact. For a fresh plan it always returns; it reports as consumed exactly the
  \<open>k\<close> bytes the native writer accepted, which are the first \<open>k\<close> of the plan; the ciphertext owed to
  the transport grows by what the connection produced and nothing else; no pool slot is lost; and
  a connection that has failed or has been closed locally accepts no plaintext. A connection that
  may write stops only when the plan is used up, the send cursor is full or awaited, or a failure
  is reported.
\<close>

theorem prepare_exact:
  assumes "plain_laws N E D V U sb" and "in_done D plain = 0"
  shows "\<exists>k r t'. prepare N E D t plain = Some (r, t') \<and> prepared_ok E U V t plain k r t' \<and>
    (failed (tx_conn t) \<or> local_closed (tx_conn t) \<longrightarrow> k = 0) \<and>
    (rustls_eager_laws N \<and> can_write N (tx_conn t) \<and> tidy E t \<longrightarrow> saturated E U plain k r t')"
  unfolding prepare_def
  using assms encrypt_seals [OF assms(1)]
  by (intro prepare_with_ok) (auto simp: plain_laws_def plain_progress_laws_def)

theorem prepare_exact_witness:
  "\<exists>k r t'. prepare ref_rustls ref_egress ref_plan
       \<lparr> tx_conn = \<lparr> native = ref_idle, peer_closed = False, local_closed = False, failed = False,
                     conn_lease = Lease 0 \<rparr>,
         tx_store = \<lparr> buffer = None \<rparr>, tx_pool = (1, 4) \<rparr> ([[1, 2, 3]], 0) = Some (r, t') \<and>
     pr_consumed (outcome r) = k \<and> rc_sent (native (tx_conn t')) = take k [1, 2, 3]"
  using prepare_exact [of ref_rustls ref_egress ref_plan ref_view ref_plan_view fst "([[1, 2, 3]], 0)"
      "\<lparr> tx_conn = \<lparr> native = ref_idle, peer_closed = False, local_closed = False, failed = False,
                     conn_lease = Lease 0 \<rparr>,
         tx_store = \<lparr> buffer = None \<rparr>, tx_pool = (1, 4) \<rparr>"] ref_wire_laws ref_plan_laws
  by (auto simp: plain_laws_def prepared_ok_def ref_view_def ref_plan_view_def ref_idle_def
      ref_plan_def)

text \<open>
  C3. \<open>prepare_many\<close> keeps the same promise for a plan of at most \<open>k\<close> descriptors: the descriptors
  are sealed as one byte stream, whatever their boundaries.
\<close>

theorem prepare_many_exact:
  assumes "many_laws n N E D V U sb" and "in_done D plain = 0"
  shows "\<exists>k r t'. prepare_many n N E D t plain = Some (r, t') \<and> prepared_ok E U V t plain k r t' \<and>
    (failed (tx_conn t) \<or> local_closed (tx_conn t) \<longrightarrow> k = 0) \<and>
    (rustls_eager_laws N \<and> can_write N (tx_conn t) \<and> tidy E t \<longrightarrow> saturated E U plain k r t')"
  unfolding prepare_many_def
  using assms encrypt_many_seals [OF assms(1)]
  by (intro prepare_with_ok) (auto simp: many_laws_def vectored_progress_laws_def)

theorem prepare_many_exact_witness:
  "\<exists>k r t'. prepare_many 2 ref_rustls ref_egress ref_vplan
       \<lparr> tx_conn = \<lparr> native = ref_idle, peer_closed = False, local_closed = False, failed = False,
                     conn_lease = Lease 0 \<rparr>,
         tx_store = \<lparr> buffer = None \<rparr>, tx_pool = (1, 4) \<rparr> ([[1, 2], [3]], 0) = Some (r, t') \<and>
     pr_consumed (outcome r) = k \<and> rc_sent (native (tx_conn t')) = take k [1, 2, 3]"
  using prepare_many_exact [of 2 ref_rustls ref_egress ref_vplan ref_view ref_plan_view fst
      "([[1, 2], [3]], 0)"
      "\<lparr> tx_conn = \<lparr> native = ref_idle, peer_closed = False, local_closed = False, failed = False,
                     conn_lease = Lease 0 \<rparr>,
         tx_store = \<lparr> buffer = None \<rparr>, tx_pool = (1, 4) \<rparr>"] ref_wire_laws ref_vplan_laws
  by (auto simp: many_laws_def prepared_ok_def ref_view_def ref_plan_view_def ref_idle_def
      ref_vplan_def ref_plan_def)

section \<open>Flushing, completions and the drain at the end\<close>

text \<open>
  \<open>delivered a t t'\<close>: the step handed the bytes \<open>a\<close> at the front of what was owed to the transport,
  produced no ciphertext and sealed no plaintext, and otherwise kept everything in order.
\<close>

definition delivered ::
    "('b, 's, 'p) egress_ops \<Rightarrow> 'c rustls_view \<Rightarrow> bytes \<Rightarrow> ('c, 'b, 'p) tx \<Rightarrow> ('c, 'b, 'p) tx \<Rightarrow> bool"
  where
  "delivered E V a t t' \<longleftrightarrow>
     owed E V t = a @ owed E V t' \<and>
     made V (native (tx_conn t')) = made V (native (tx_conn t)) \<and>
     sent V (native (tx_conn t')) = sent V (native (tx_conn t)) \<and>
     tx_slots E t' = tx_slots E t \<and>
     (tidy E t \<longrightarrow> tidy E t') \<and>
     tx_conn t' = (tx_conn t)\<lparr>native := native (tx_conn t')\<rparr>"

lemma delivered_refl [simp]: "delivered E V [] t t"
  by (simp add: delivered_def)

lemma emitted_delivered:
  assumes laws: "wire_laws N E V sb"
    and borrow: "st_try_buffer E (tx_store t) (tx_pool t) = (Some out, send, pool)"
    and em: "emitted N E V (tx_conn t) out conn' out'"
    and drp: "st_drop_empty E (st_put out' send) pool = (send', pool')"
  shows "delivered E V [] t \<lparr> tx_conn = conn', tx_store = send', tx_pool = pool' \<rparr>"
    (is "delivered E V [] t ?t")
proof -
  note em_cycle = emitted_cycle [OF laws borrow em drp]
  from em_cycle(1) have slots: "tx_slots E ?t = tx_slots E t" by (simp add: extends_def)
  have "cursor_bytes E out = st_as_slice E (tx_store t)"
    using send_store.take_some [OF wire_st_inv [OF laws] borrow] by blast
  then have "owed E V t = [] @ owed E V ?t"
    using em em_cycle(3) by (simp add: owed_def emitted_def)
  moreover have "made V (native conn') = made V (native (tx_conn t))"
    "sent V (native conn') = sent V (native (tx_conn t))"
    "conn' = (tx_conn t)\<lparr>native := native conn'\<rparr>"
    using em unfolding emitted_def by blast+
  ultimately show ?thesis using slots em_cycle(2) by (simp add: delivered_def)
qed

lemma flush_run:
  assumes "wire_laws N E V sb"
  shows "\<exists>r t'. flush N E t = Some (Output r, t') \<and> delivered E V [] t t' \<and>
    (pr_ready r = BufferWait \<longrightarrow> t' = t \<and> pool_available E (tx_pool t) = 0) \<and>
    (pr_ready r = Buffered \<and> pend V (native (tx_conn t')) \<noteq> [] \<and> tidy E t \<longrightarrow>
       (\<exists>b. buffer (tx_store t') = Some b \<and> cursor_spare_len E b = 0))"
proof (cases "st_as_slice E (tx_store t) = [] \<and> \<not> wants_write N (native (tx_conn t))")
  case True
  then have "flush N E t = Some (Output (prep_buffered 0), t)"
    unfolding flush_def by (simp only: if_True simp_thms)
  with True show ?thesis using wire_lawsD(6) [OF assms] by (fastforce simp: prep_buffered_def)
next
  case busy: False
  obtain egress send pool where
    borrow: "st_try_buffer E (tx_store t) (tx_pool t) = (egress, send, pool)"
    by (cases "st_try_buffer E (tx_store t) (tx_pool t)") auto
  show ?thesis
  proof (cases egress)
    case None
    note nb = no_buffer [OF assms borrow [unfolded None]]
    have "flush N E t = Some (Output prep_wait, t)"
      unfolding flush_def if_not_P [OF busy] borrow None using nb(1) by simp
    then show ?thesis using nb(4) by (fastforce simp: prep_wait_def)
  next
    case (Some out)
    note borrow = borrow [unfolded Some]
    obtain conn1 out1 where dr: "conn_drain N E (tx_conn t) out = Some (None, conn1, out1)"
      and em: "emitted N E V (tx_conn t) out conn1 out1"
      using conn_drain_emitted [OF assms] by blast
    obtain send' pool' where drp: "st_drop_empty E (st_put out1 send) pool = (send', pool')"
      by (cases "st_drop_empty E (st_put out1 send) pool")
    let ?t = "\<lparr> tx_conn = conn1, tx_store = send', tx_pool = pool' \<rparr>"
    have run: "flush N E t = Some (Output (finish 0 (failed conn1)), ?t)"
      unfolding flush_def if_not_P [OF busy] borrow
      by (simp add: dr drp Let_def terminate_def)
    have "\<exists>b. buffer send' = Some b \<and> cursor_spare_len E b = 0"
      if "pend V (native conn1) \<noteq> []" "tidy E t"
    proof -
      from em that have "cursor_spare_len E out1 = 0" by (auto simp: emitted_def)
      moreover with borrowed_room [OF assms that(2) borrow] em have "cursor_bytes E out1 \<noteq> []"
        by (auto simp: emitted_def)
      ultimately show ?thesis using full_kept [OF assms _ drp] by blast
    qed
    with run emitted_delivered [OF assms borrow em drp] show ?thesis
      by (intro exI [of _ "finish 0 (failed conn1)"] exI [of _ ?t]) simp
  qed
qed

text \<open>
  C4. \<open>flush\<close> returns without a failure and moves queued ciphertext behind what the store holds: it
  neither produces nor loses a byte. It waits for a buffer only where the pool has none, and
  otherwise leaves ciphertext in the native queue only when the cursor is full.
\<close>

theorem flush_delivers:
  assumes "wire_laws N E V sb"
  shows "\<exists>r t'. flush N E t = Some (Output r, t') \<and> delivered E V [] t t' \<and>
    (pr_ready r = BufferWait \<longrightarrow> t' = t \<and> pool_available E (tx_pool t) = 0) \<and>
    (pr_ready r = Buffered \<and> pend V (native (tx_conn t')) \<noteq> [] \<and> tidy E t \<longrightarrow>
       (\<exists>b. buffer (tx_store t') = Some b \<and> cursor_spare_len E b = 0))"
  by (rule flush_run [OF assms])

lemma refill_spec:
  assumes "wire_laws N E V sb"
  obtains conn' out' where "refill N E conn out = Some (None, conn', out')"
    and "cursor_bytes E out \<noteq> [] \<Longrightarrow> conn' = conn \<and> out' = out"
    and "cursor_bytes E out = [] \<Longrightarrow> emitted N E V conn out conn' out'"
proof (cases "cursor_bytes E out = []")
  case True
  obtain conn' out' where "conn_drain N E conn out = Some (None, conn', out')"
    "emitted N E V conn out conn' out'"
    using conn_drain_emitted [OF assms] by blast
  with True that show thesis
    using cursor_lawsD(1) [OF wire_lawsD(1) [OF assms], of out] by (simp add: refill_def)
next
  case False
  with that [of conn out] show thesis
    using cursor_lawsD(1) [OF wire_lawsD(1) [OF assms], of out] by (simp add: refill_def)
qed

lemma drop_keeps:
  assumes "wire_laws N E V sb" and "cursor_bytes E out \<noteq> []"
  shows "st_free_empty E (st_put out send) pool = (AvailUnchanged, st_put out send, pool)"
    and "st_drop_empty E (st_put out send) pool = (st_put out send, pool)"
  using assms(2) cursor_lawsD(1) [OF wire_lawsD(1) [OF assms(1)], of out]
  by (simp_all add: st_drop_empty_def st_free_empty_def st_put_def)

lemma free_flag:
  "st_free_empty E st p = (fl, st', p') \<Longrightarrow>
     st_drop_empty E st p = (st', p') \<and>
     (fl = AvailReleased \<longleftrightarrow> st_holding st \<and> \<not> st_holding st')"
  by (auto simp: st_free_empty_def st_drop_empty_def st_holding_def
      split: option.splits if_splits)

text \<open>
  The rest of a handler that owns a cursor: refill it where it is empty, then drop it where it is
  still empty.
\<close>

lemma refill_drop:
  assumes laws: "wire_laws N E V sb"
    and borrow: "st_try_buffer E (tx_store t) (tx_pool t) = (Some b, send, pool)"
    and rf: "refill N E (tx_conn t) b = Some (cause, conn', out')"
    and drp: "st_drop_empty E (st_put out' send) pool = (send', pool')"
  shows "cause = None"
    and "delivered E V [] t \<lparr> tx_conn = conn', tx_store = send', tx_pool = pool' \<rparr>"
    and "tidy E \<lparr> tx_conn = conn', tx_store = send', tx_pool = pool' \<rparr>"
    and "st_as_slice E (tx_store t) \<noteq> [] \<Longrightarrow> native conn' = native (tx_conn t)"
    and "pend V (native conn') \<noteq> [] \<Longrightarrow> st_as_slice E (tx_store t) = [] \<Longrightarrow>
      cursor_spare_len E out' = 0"
proof -
  have slice: "st_as_slice E (tx_store t) = cursor_bytes E b"
    using send_store.take_some [OF wire_st_inv [OF laws] borrow] by simp
  obtain c1 o1 where rf1: "refill N E (tx_conn t) b = Some (None, c1, o1)"
    and keep: "cursor_bytes E b \<noteq> [] \<Longrightarrow> c1 = tx_conn t \<and> o1 = b"
    and em: "cursor_bytes E b = [] \<Longrightarrow> emitted N E V (tx_conn t) b c1 o1"
    using refill_spec [OF laws] by blast
  with rf have eq: "c1 = conn'" "o1 = out'" and "cause = None" by simp_all
  then show "cause = None" by simp
  have "delivered E V [] t \<lparr> tx_conn = conn', tx_store = send', tx_pool = pool' \<rparr> \<and>
    tidy E \<lparr> tx_conn = conn', tx_store = send', tx_pool = pool' \<rparr>"
  proof (cases "cursor_bytes E b = []")
    case True
    then show ?thesis
      using emitted_delivered [OF laws borrow em [unfolded eq] drp]
        emitted_cycle(2) [OF laws borrow em [unfolded eq] drp] by blast
  next
    case False
    then have "buffer (tx_store t) = Some b" "send = tx_store t" "pool = tx_pool t"
      using borrow pool_lawsD(3) [OF wire_lawsD(2) [OF laws]]
      by (auto simp: st_try_buffer_def split: option.splits)
    then have "\<lparr> tx_conn = conn', tx_store = send', tx_pool = pool' \<rparr> = t"
      using False keep eq drp drop_keeps(2) [OF laws False, of "tx_store t" "tx_pool t"]
      by (simp add: st_put_def)
    with False slice \<open>buffer (tx_store t) = Some b\<close> show ?thesis
      by (simp add: tidy_def st_holding_def)
  qed
  then show "delivered E V [] t \<lparr> tx_conn = conn', tx_store = send', tx_pool = pool' \<rparr>"
    and "tidy E \<lparr> tx_conn = conn', tx_store = send', tx_pool = pool' \<rparr>" by auto
  show "native conn' = native (tx_conn t)" if "st_as_slice E (tx_store t) \<noteq> []"
    using that slice keep eq by simp
  show "cursor_spare_len E out' = 0"
    if "pend V (native conn') \<noteq> []" "st_as_slice E (tx_store t) = []"
    using that slice em eq by (auto simp: emitted_def)
qed

text \<open>What the native send of \<open>n\<close> bytes does to the store.\<close>

lemma consumed_store:
  assumes "wire_laws N E V sb"
  shows "st_as_slice E (st_consume_max E n st) = drop n (st_as_slice E st)"
    and "st_holding (st_consume_max E n st) = st_holding st"
    and "buffer st = None \<Longrightarrow> st_consume_max E n st = st"
  using cursor_lawsD(9) [OF wire_lawsD(1) [OF assms]]
  by (auto simp: st_consume_max_def st_as_slice_def st_holding_def split: option.splits)

lemma delivered_consumed:
  assumes "wire_laws N E V sb"
    and "delivered E V [] (t\<lparr>tx_store := st_consume_max E n (tx_store t)\<rparr>) t'"
    and "tidy E t'"
  shows "delivered E V (take n (st_as_slice E (tx_store t))) t t'"
  using assms(2,3) consumed_store(1,2) [OF assms(1), of n "tx_store t"]
  by (simp add: delivered_def owed_def tx_slots_def st_slots_def)
    (metis append.assoc append_take_drop_id)

lemma after_send_run:
  assumes "wire_laws N E V sb"
  shows "\<exists>r t'. after_send N E t n = Some (Output r, t') \<and>
    delivered E V (take n (st_as_slice E (tx_store t))) t t' \<and>
    tidy E t' \<and>
    (n < length (st_as_slice E (tx_store t)) \<longrightarrow> native (tx_conn t') = native (tx_conn t)) \<and>
    (tr_free r = AvailReleased \<longleftrightarrow> st_holding (tx_store t) \<and> \<not> st_holding (tx_store t')) \<and>
    pr_close (tr_ready r) = (st_holding (tx_store t) \<and> failed (tx_conn t))"
proof (cases "buffer (tx_store t)")
  case None
  then have "after_send N E t n =
      Some (Output \<lparr> tr_ready = prep_buffered 0, tr_free = AvailUnchanged \<rparr>, t)"
    using consumed_store(3) [OF assms None] by (simp add: after_send_def st_buffer_mut_def Let_def)
  with None show ?thesis
    by (intro exI [of _ "\<lparr> tr_ready = prep_buffered 0, tr_free = AvailUnchanged \<rparr>"] exI [of _ t])
      (simp add: tidy_def st_holding_def st_as_slice_def prep_buffered_def)
next
  case (Some b0)
  let ?send = "st_consume_max E n (tx_store t)"
  let ?t = "t\<lparr>tx_store := ?send\<rparr>"
  obtain b where b: "buffer ?send = Some b" using Some by (simp add: st_consume_max_def)
  obtain cause conn' out' where rf: "refill N E (tx_conn t) b = Some (cause, conn', out')"
    using refill_spec [OF assms] by metis
  obtain fl send' pool' where fe: "st_free_empty E (st_put out' ?send) (tx_pool t) =
      (fl, send', pool')" by (cases "st_free_empty E (st_put out' ?send) (tx_pool t)") auto
  let ?t' = "\<lparr> tx_conn = conn', tx_store = send', tx_pool = pool' \<rparr>"
  from free_flag [OF fe] have
    drp: "st_drop_empty E (st_put out' ?send) (tx_pool t) = (send', pool')"
    and fl: "fl = AvailReleased \<longleftrightarrow> \<not> st_holding send'"
    by (simp_all add: st_put_def st_holding_def)
  from b have b': "st_try_buffer E (tx_store ?t) (tx_pool ?t) = (Some b, ?send, tx_pool t)"
    by (simp add: st_try_buffer_def)
  from rf have rf': "refill N E (tx_conn ?t) b = Some (cause, conn', out')" by simp
  note rd = refill_drop [OF assms b' rf' drp]
  have run: "after_send N E t n =
      Some (Output \<lparr> tr_ready = finish 0 (failed conn'), tr_free = fl \<rparr>, ?t')"
    using rd(1) rf b fe by (simp add: after_send_def st_buffer_mut_def Let_def terminate_def)
  have "native conn' = native (tx_conn t)" if "n < length (st_as_slice E (tx_store t))"
    using rd(4) consumed_store(1) [OF assms, of n "tx_store t"] that by simp
  moreover have "failed conn' = failed (tx_conn t)"
    using rd(2) by (cases conn'; cases "tx_conn t") (auto simp: delivered_def)
  moreover have "st_holding (tx_store t)" using Some by (simp add: st_holding_def)
  ultimately show ?thesis
    using run rd(3) fl delivered_consumed [OF assms rd(2,3)]
    by (intro exI [of _ "\<lparr> tr_ready = finish 0 (failed conn'), tr_free = fl \<rparr>"]
        exI [of _ ?t']) simp
qed


lemma idle_drop:
  assumes "wire_laws N E V sb"
    and "st_drop_empty E (tx_store t) (tx_pool t) = (send', pool')"
  shows "delivered E V [] t (t\<lparr>tx_store := send', tx_pool := pool'\<rparr>)"
    and "tidy E (t\<lparr>tx_store := send', tx_pool := pool'\<rparr>)"
  using send_store.drop_spec [OF wire_st_inv [OF assms(1)] assms(2)]
  by (auto simp: delivered_def tidy_def owed_def tx_slots_def st_slots_def)

text \<open>
  \<open>resume\<close> followed by the drop of an idle cursor, as \<open>settle\<close> and \<open>prepare_drain\<close> use it. It is
  pending only where ciphertext is queued, the pool is exhausted and the store holds nothing.
\<close>

lemma resume_spec:
  assumes laws: "wire_laws N E V sb"
  obtains ready t' where "resume N E t live = Some (ready, None, t')"
    and "\<not> ready \<Longrightarrow> t' = t \<and> live \<and> pend V (native (tx_conn t)) \<noteq> [] \<and>
      \<not> st_holding (tx_store t) \<and> pool_available E (tx_pool t) = 0"
    and "\<And>send' pool'. ready \<Longrightarrow> st_drop_empty E (tx_store t') (tx_pool t') = (send', pool') \<Longrightarrow>
      delivered E V [] t (t'\<lparr>tx_store := send', tx_pool := pool'\<rparr>) \<and>
      tidy E (t'\<lparr>tx_store := send', tx_pool := pool'\<rparr>)"
proof (cases "live \<and> wants_write N (native (tx_conn t))")
  case False
  then have "resume N E t live = Some (True, None, t)" by (auto simp: resume_def)
  with that [of True t] show thesis using idle_drop [OF laws] by blast
next
  case True
  obtain egress send pool where
    borrow: "st_try_buffer E (tx_store t) (tx_pool t) = (egress, send, pool)"
    by (cases "st_try_buffer E (tx_store t) (tx_pool t)") auto
  show thesis
  proof (cases egress)
    case None
    note nb = no_buffer [OF laws borrow [unfolded None]]
    with True borrow None have "resume N E t live = Some (False, None, t)"
      by (simp add: resume_def)
    with that [of False t] True nb wire_lawsD(6) [OF laws] show thesis by simp
  next
    case (Some b)
    note borrow = borrow [unfolded Some]
    obtain conn' out' where rf: "refill N E (tx_conn t) b = Some (None, conn', out')"
      using refill_spec [OF laws] by metis
    with True borrow have "resume N E t live = Some (True, None,
        \<lparr> tx_conn = conn', tx_store = st_put out' send, tx_pool = pool \<rparr>)"
      by (simp add: resume_def)
    from that [OF this] show thesis using refill_drop(2,3) [OF laws borrow rf] by simp
  qed
qed

lemma prepare_drain_run:
  assumes "wire_laws N E V sb"
  shows "\<exists>r t'. prepare_drain N E t live = Some (r, None, t') \<and> pr_close r \<and>
    delivered E V [] t t' \<and>
    (pr_ready r = BufferWait \<longrightarrow> t' = t \<and> live \<and> pend V (native (tx_conn t)) \<noteq> [] \<and>
       pool_available E (tx_pool t) = 0)"
proof -
  obtain ready t1 where rs: "resume N E t live = Some (ready, None, t1)"
    and wait: "\<not> ready \<Longrightarrow> t1 = t \<and> live \<and> pend V (native (tx_conn t)) \<noteq> [] \<and>
      \<not> st_holding (tx_store t) \<and> pool_available E (tx_pool t) = 0"
    and go: "\<And>send' pool'. ready \<Longrightarrow> st_drop_empty E (tx_store t1) (tx_pool t1) = (send', pool') \<Longrightarrow>
      delivered E V [] t (t1\<lparr>tx_store := send', tx_pool := pool'\<rparr>) \<and>
      tidy E (t1\<lparr>tx_store := send', tx_pool := pool'\<rparr>)"
    using resume_spec [OF assms, of t live] by metis
  show ?thesis
  proof (cases ready)
    case False
    then show ?thesis using rs wait
      by (intro exI [of _ "close_after prep_wait"] exI [of _ t])
        (simp add: prepare_drain_def close_after_def prep_wait_def)
  next
    case True
    obtain send' pool' where drp: "st_drop_empty E (tx_store t1) (tx_pool t1) = (send', pool')"
      by (cases "st_drop_empty E (tx_store t1) (tx_pool t1)")
    with True rs go [OF True drp] show ?thesis
      by (intro exI [of _ "finish 0 True"]
          exI [of _ "t1\<lparr>tx_store := send', tx_pool := pool'\<rparr>"])
        (simp add: prepare_drain_def)
  qed
qed


lemma settle_run:
  assumes "wire_laws N E V sb"
  shows "\<exists>r t'. settle N E t n live = Some (r, None, t') \<and> pr_close (tr_ready r) \<and>
    delivered E V (take n (st_as_slice E (tx_store t))) t t' \<and>
    (tr_free r = AvailReleased \<longrightarrow> \<not> st_holding (tx_store t') \<and>
       pool_available E (tx_pool t') =
         pool_available E (tx_pool t) + of_bool (st_holding (tx_store t)))"
proof -
  let ?t = "t\<lparr>tx_store := st_consume_max E n (tx_store t)\<rparr>"
  obtain ready t1 where rs: "resume N E ?t live = Some (ready, None, t1)"
    and wait: "\<not> ready \<Longrightarrow> t1 = ?t \<and> live \<and> pend V (native (tx_conn ?t)) \<noteq> [] \<and>
      \<not> st_holding (tx_store ?t) \<and> pool_available E (tx_pool ?t) = 0"
    and go: "\<And>send' pool'. ready \<Longrightarrow> st_drop_empty E (tx_store t1) (tx_pool t1) = (send', pool') \<Longrightarrow>
      delivered E V [] ?t (t1\<lparr>tx_store := send', tx_pool := pool'\<rparr>) \<and>
      tidy E (t1\<lparr>tx_store := send', tx_pool := pool'\<rparr>)"
    using resume_spec [OF assms, of ?t live] by metis
  show ?thesis
  proof (cases ready)
    case False
    then have "buffer (tx_store t) = None"
      using wait consumed_store(2) [OF assms, of n "tx_store t"] by (auto simp: st_holding_def)
    then have "?t = t" using consumed_store(3) [OF assms] by simp
    moreover have "st_as_slice E (tx_store t) = []"
      using \<open>buffer (tx_store t) = None\<close> by (simp add: st_as_slice_def)
    ultimately show ?thesis using rs wait False
      by (intro exI [of _ "\<lparr> tr_ready = close_after prep_wait, tr_free = AvailUnchanged \<rparr>"]
          exI [of _ t]) (simp add: settle_def close_after_def)
  next
    case True
    obtain fl send' pool' where fe: "st_free_empty E (tx_store t1) (tx_pool t1) =
        (fl, send', pool')" by (cases "st_free_empty E (tx_store t1) (tx_pool t1)") auto
    let ?t' = "t1\<lparr>tx_store := send', tx_pool := pool'\<rparr>"
    note ff = free_flag [OF fe]
    note dl = go [OF True conjunct1 [OF ff]]
    have run: "settle N E t n live =
        Some (\<lparr> tr_ready = finish 0 True, tr_free = fl \<rparr>, None, ?t')"
      using True rs fe by (simp add: settle_def)
    have "tx_slots E ?t' = tx_slots E t"
      using dl consumed_store(2) [OF assms] by (simp add: delivered_def tx_slots_def st_slots_def)
    with run ff dl delivered_consumed [OF assms, of n t ?t'] show ?thesis
      by (intro exI [of _ "\<lparr> tr_ready = finish 0 True, tr_free = fl \<rparr>"] exI [of _ ?t'])
        (auto simp: tx_slots_def st_slots_def)
  qed
qed


section \<open>Closing\<close>

lemma seal_close_emitted:
  assumes laws: "wire_laws N E V sb"
  obtains c d conn' out' where "seal_close N E conn out = Some (Inr (), conn', out')"
    and "emitted N E V c out conn' out'"
    and "made V (native c) = made V (native conn) @ d"
    and "pend V (native c) = pend V (native conn) @ d"
    and "latch_le conn c" and "local_closed c \<or> failed conn"
    and "local_closed conn \<or> failed conn \<Longrightarrow> c = conn"
    and "\<not> local_closed conn \<Longrightarrow> \<not> failed conn \<Longrightarrow>
      native c = send_close_notify N (native conn)"
proof -
  define c where "c = (if \<not> local_closed conn \<and> \<not> failed conn
    then conn\<lparr>local_closed := True, native := send_close_notify N (native conn)\<rparr> else conn)"
  have "produces V (native conn) (native c)"
    using wire_lawsD(4) [OF laws] by (simp add: rustls_wire_laws_def c_def)
  then obtain d where d: "made V (native c) = made V (native conn) @ d"
    "pend V (native c) = pend V (native conn) @ d" by (auto simp: produces_def)
  obtain conn' out' where run: "emit_into N E c out = Some (Inr (), conn', out')"
    and em: "emitted N E V c out conn' out'" using emit_into_emitted [OF laws] by blast
  have "seal_close N E conn out = Some (Inr (), conn', out')"
    using run by (simp add: seal_close_def c_def)
  moreover have "latch_le conn c" "local_closed c \<or> failed conn"
    "local_closed conn \<or> failed conn \<Longrightarrow> c = conn"
    "\<not> local_closed conn \<Longrightarrow> \<not> failed conn \<Longrightarrow> native c = send_close_notify N (native conn)"
    by (auto simp: c_def latch_le_def)
  ultimately show thesis using that em d by blast
qed

lemma close_run:
  assumes "wire_laws N E V sb"
  shows "\<exists>r t'. egress_close N E t = Some (Output r, t') \<and> extends E V t t' \<and>
    (pr_ready r = BufferWait \<longrightarrow> t' = t \<and> pool_available E (tx_pool t) = 0) \<and>
    (pr_ready r = Buffered \<longrightarrow> tidy E t' \<and> (local_closed (tx_conn t') \<or> failed (tx_conn t')) \<and>
       (\<not> local_closed (tx_conn t) \<and> \<not> failed (tx_conn t) \<longrightarrow>
          made V (native (tx_conn t')) = made V (send_close_notify N (native (tx_conn t))))) \<and>
    (local_closed (tx_conn t) \<or> failed (tx_conn t) \<longrightarrow> delivered E V [] t t')"
proof -
  obtain egress send pool where
    borrow: "st_try_buffer E (tx_store t) (tx_pool t) = (egress, send, pool)"
    by (cases "st_try_buffer E (tx_store t) (tx_pool t)") auto
  show ?thesis
  proof (cases egress)
    case None
    note nb = no_buffer [OF assms borrow [unfolded None]]
    have "egress_close N E t = Some (Output prep_wait, t)"
      unfolding egress_close_def borrow None using nb(1) by simp
    then show ?thesis using nb(4) by (fastforce simp: prep_wait_def)
  next
    case (Some out)
    note borrow = borrow [unfolded Some]
    obtain c d conn' out' where sc: "seal_close N E (tx_conn t) out = Some (Inr (), conn', out')"
      and em: "emitted N E V c out conn' out'"
      and d: "made V (native c) = made V (native (tx_conn t)) @ d"
        "pend V (native c) = pend V (native (tx_conn t)) @ d"
      and latch: "latch_le (tx_conn t) c" and shut: "local_closed c \<or> failed (tx_conn t)"
      and same: "local_closed (tx_conn t) \<or> failed (tx_conn t) \<Longrightarrow> c = tx_conn t"
      and alert: "\<not> local_closed (tx_conn t) \<Longrightarrow> \<not> failed (tx_conn t) \<Longrightarrow>
        native c = send_close_notify N (native (tx_conn t))"
      by (rule seal_close_emitted [OF assms, of "tx_conn t" out]) blast
    obtain send' pool' where drp: "st_drop_empty E (st_put out' send) pool = (send', pool')"
      by (cases "st_drop_empty E (st_put out' send) pool")
    let ?t = "\<lparr> tx_conn = conn', tx_store = send', tx_pool = pool' \<rparr>"
    have run: "egress_close N E t = Some (Output (finish 0 False), ?t)"
      unfolding egress_close_def borrow by (simp add: sc drp Let_def)
    have made: "made V (native conn') = made V (native (tx_conn t)) @ d"
      and moved: "cursor_bytes E out' @ pend V (native conn') =
        cursor_bytes E out @ pend V (native (tx_conn t)) @ d"
      and grow: "prefix (cursor_bytes E out) (cursor_bytes E out')"
      using em d by (simp_all add: emitted_def)
    have latch': "latch_le (tx_conn t) conn'"
      using latch_le_trans [OF latch emitted_latch [OF em]] .
    have "local_closed conn' \<or> failed conn'"
      using shut latch' emitted_latch [OF em] by (auto simp: latch_le_def)
    moreover have "made V (native conn') = made V (send_close_notify N (native (tx_conn t)))"
      if "\<not> local_closed (tx_conn t)" "\<not> failed (tx_conn t)"
      using made d alert [OF that] by simp
    moreover note cyc = cycle [OF assms borrow grow made moved latch' drp]
    moreover have "delivered E V [] t ?t" if "local_closed (tx_conn t) \<or> failed (tx_conn t)"
      using emitted_delivered [OF assms borrow em [unfolded same [OF that]] drp] .
    ultimately show ?thesis using run
      by (intro exI [of _ "finish 0 False"] exI [of _ ?t]) (simp only: finish_simps, simp)
  qed
qed

text \<open>
  C8. Closing appends the close alert behind everything already owed, at most once: a close of a
  connection that is closed locally or has failed only delivers. Unless it has to wait for a buffer
  (and then has changed nothing), it leaves the connection closed for writing.
\<close>

theorem close_appends_alert:
  assumes "wire_laws N E V sb"
  shows "\<exists>r t'. egress_close N E t = Some (Output r, t') \<and> extends E V t t' \<and>
    (pr_ready r = BufferWait \<longrightarrow> t' = t \<and> pool_available E (tx_pool t) = 0) \<and>
    (pr_ready r = Buffered \<longrightarrow> tidy E t' \<and> (local_closed (tx_conn t') \<or> failed (tx_conn t')) \<and>
       (\<not> local_closed (tx_conn t) \<and> \<not> failed (tx_conn t) \<longrightarrow>
          made V (native (tx_conn t')) = made V (send_close_notify N (native (tx_conn t))))) \<and>
    (local_closed (tx_conn t) \<or> failed (tx_conn t) \<longrightarrow> delivered E V [] t t')"
  by (rule close_run [OF assms])

section \<open>Witnesses\<close>

definition ref_tx :: "(ref_conn, ref_cursor, ref_pool) tx" where
  "ref_tx = \<lparr> tx_conn = \<lparr> native = ref_idle\<lparr>rc_made := [5, 6, 7], rc_out := [7]\<rparr>,
        peer_closed = False, local_closed = False, failed = False, conn_lease = Lease 0 \<rparr>,
      tx_store = \<lparr> buffer = Some ([5, 6], 0) \<rparr>, tx_pool = (1, 4) \<rparr>"

lemma ref_tx_slice: "st_as_slice ref_egress (tx_store ref_tx) = [5, 6]"
  by (simp add: st_as_slice_def ref_tx_def ref_egress_def)

lemma ref_tx_owed: "owed ref_egress ref_view ref_tx = [5, 6, 7]"
  by (simp add: owed_def ref_tx_slice) (simp add: ref_tx_def ref_view_def)

theorem flush_delivers_witness:
  "\<exists>r t'. flush ref_rustls ref_egress ref_tx = Some (Output r, t') \<and>
     owed ref_egress ref_view t' = [5, 6, 7]"
  using flush_delivers [OF ref_wire_laws, of ref_tx] ref_tx_owed
  by (auto simp: delivered_def)




theorem close_appends_alert_witness:
  "\<exists>r t' d. egress_close ref_rustls ref_egress ref_tx = Some (Output r, t') \<and>
     owed ref_egress ref_view t' = [5, 6, 7] @ d"
  using close_appends_alert [OF ref_wire_laws, of ref_tx] ref_tx_owed
  by (auto simp: extends_def)

end
