(* ===== verification/Protocol.thy ===== *)
theory Protocol
  imports Policy Send_Correct
begin

text \<open>
  The driver's entry points (\<open>src/tls/protocol.rs\<close>): a receive runs its transaction to the end,
  flushes what the handshake produced, and reports end of file, failure or the plaintext; the
  egress policy hands each call to the connection's sender.
\<close>

section \<open>Receiving\<close>

text \<open>The free function \<open>finish\<close>.\<close>

definition finish_read ::
    "('c, 's) rustls \<Rightarrow> ('b, 's, 'p) egress_ops \<Rightarrow> 'q lane_ops \<Rightarrow>
     ('c, 'b, ('c, 'b, 'n, 'f, 'g, 'p, 'q, 'o) runtime, release) transaction \<Rightarrow> 'a \<Rightarrow>
     (error + unit) \<Rightarrow>
     ('a processed \<times> event list \<times>
      ('c, 'b, ('c, 'b, 'n, 'f, 'g, 'p, 'q, 'o) runtime) parts) option" where
  "finish_read N E L txn output result = do {
     (flushed, txn') \<leftarrow> txn_finish N E txn;
     (let closed = is_peer_done txn';
          (evs, parts) = complete_read E L txn'
      in case result_and result flushed of
           Inr _ \<Rightarrow> Some (if closed then EofOutput output else Output output, evs, parts)
         | Inl cause \<Rightarrow> Some (Terminal output cause, evs, parts))
   }"

definition ingress_process ::
    "('c, 's) rustls \<Rightarrow> ('b, 's, 'p) egress_ops \<Rightarrow> ('r, 'k, 'f, 'g) ingress_ops \<Rightarrow> 'q lane_ops \<Rightarrow>
     ('c, 'b, ('c, 'b, 'n, 'f, 'g, 'p, 'q, 'o) runtime, 'r) transaction \<Rightarrow> bytes \<Rightarrow>
     ('k batch processed \<times> event list \<times>
      ('c, 'b, ('c, 'b, 'n, 'f, 'g, 'p, 'q, 'o) runtime) parts) option" where
  "ingress_process N E I L txn bs = do {
     (txn', output, result) \<leftarrow> txn_read (\<lambda>input. read_batch N I input bs) txn;
     finish_read N E L txn' output result
   }"

definition read_lease ::
    "('c, 's) rustls \<Rightarrow> ('b, 's, 'p) egress_ops \<Rightarrow> ('r, 'k, 'f, 'g) ingress_ops \<Rightarrow>
     ('k, 'h) segment_ops \<Rightarrow> 'q lane_ops \<Rightarrow>
     ('c, 'b, ('c, 'b, 'n, 'f, 'g, 'p, 'q, 'o) runtime, 'r) transaction \<Rightarrow> bytes \<Rightarrow>
     ('k retained option processed \<times> event list \<times>
      ('c, 'b, ('c, 'b, 'n, 'f, 'g, 'p, 'q, 'o) runtime) parts) option" where
  "read_lease N E I G L txn bs = do {
     (txn', output, result) \<leftarrow> txn_read (\<lambda>input. retain N I G input bs) txn;
     finish_read N E L txn' output result
   }"

definition ingress_eof ::
    "('c, 's) rustls \<Rightarrow> 'c connection \<Rightarrow> unit processed \<times> 'c connection" where
  "ingress_eof N wire =
     (case peer_eof N wire of
        (Inr _, wire') \<Rightarrow> (Output (), wire')
      | (Inl cause, wire') \<Rightarrow> (Terminal () cause, wire'))"

section \<open>Sending\<close>

definition has_capacity ::
    "('b, 's, 'p) egress_ops \<Rightarrow> ('c, 'b, 'n, 'f, 'g, 'p, 'q, 'o) runtime \<Rightarrow> bool" where
  "has_capacity E run \<longleftrightarrow> pool_available E (rn_send run) \<noteq> 0"

text \<open>A context is the connection, its send owner and the pool: \<open>into_parts\<close> is the record itself.\<close>

definition egress_prepare ::
    "('c, 's) rustls \<Rightarrow> ('b, 's, 'p) egress_ops \<Rightarrow> ('i, 't) progress_ops \<Rightarrow>
     ('c, 'b, 'p) tx \<Rightarrow> 'i \<Rightarrow> (prepared processed \<times> ('c, 'b, 'p) tx) option" where
  "egress_prepare N E D context plain = prepare N E D context plain"

definition egress_prepare_many ::
    "nat \<Rightarrow> ('c, 's) rustls \<Rightarrow> ('b, 's, 'p) egress_ops \<Rightarrow> ('i, 't) progress_ops \<Rightarrow>
     ('c, 'b, 'p) tx \<Rightarrow> 'i \<Rightarrow> (prepared processed \<times> ('c, 'b, 'p) tx) option" where
  "egress_prepare_many k N E D context many = prepare_many k N E D context many"

definition egress_after_send ::
    "('c, 's) rustls \<Rightarrow> ('b, 's, 'p) egress_ops \<Rightarrow> ('c, 'b, 'p) tx \<Rightarrow> nat \<Rightarrow>
     (transition processed \<times> ('c, 'b, 'p) tx) option" where
  "egress_after_send N E context n = after_send N E context n"

definition egress_settle ::
    "('c, 's) rustls \<Rightarrow> ('b, 's, 'p) egress_ops \<Rightarrow> ('c, 'b, 'p) tx \<Rightarrow> nat \<Rightarrow> bool \<Rightarrow>
     (transition \<times> error option \<times> ('c, 'b, 'p) tx) option" where
  "egress_settle N E context n live = settle N E context n live"

definition egress_flush ::
    "('c, 's) rustls \<Rightarrow> ('b, 's, 'p) egress_ops \<Rightarrow> ('c, 'b, 'p) tx \<Rightarrow>
     (prepared processed \<times> ('c, 'b, 'p) tx) option" where
  "egress_flush N E context = flush N E context"

definition egress_drain ::
    "('c, 's) rustls \<Rightarrow> ('b, 's, 'p) egress_ops \<Rightarrow> ('c, 'b, 'p) tx \<Rightarrow> bool \<Rightarrow>
     (prepared \<times> error option \<times> ('c, 'b, 'p) tx) option" where
  "egress_drain N E context live = prepare_drain N E context live"

end
