(* ===== verification/Frames.thy ===== *)
theory Frames
  imports Protocol
begin

text \<open>
  What a handler can do to a connection, whatever the libraries answer: a relation that every
  primitive call of a path keeps is kept by all handlers of that path. The relations are the sticky
  flags, the plaintext received (by the send side) and the plaintext sent (by the receive side).
\<close>

section \<open>Emitting\<close>

text \<open>
  The contract of the primitive steps, path by path: emitting ciphertext, closing, sealing plaintext,
  receiving. It is proved of a relation once, and holds of every handler.
\<close>

locale step_frame =
  fixes N :: "('c, 's) rustls" and R :: "'c connection \<Rightarrow> 'c connection \<Rightarrow> bool"
  assumes frame_refl: "R c c"
    and frame_trans: "R c d \<Longrightarrow> R d e \<Longrightarrow> R c e"

locale wire_frame = step_frame N R
  for N :: "('c, 's) rustls" and R :: "'c connection \<Rightarrow> 'c connection \<Rightarrow> bool" +
  assumes frame_write_tls: "write_tls N W (native c) s = (r, n, s') \<Longrightarrow> R c (c\<lparr>native := n\<rparr>)"
    and frame_failed: "(failed c \<Longrightarrow> b) \<Longrightarrow> R c (c\<lparr>failed := b\<rparr>)"
begin

lemma drain_loop_frame:
  assumes run: "drain_loop N E (native conn) s = Some (r, n, s')"
  shows "R conn (conn\<lparr>native := n\<rparr>)"
proof -
  have "N = N \<longrightarrow> (\<forall>conn. native conn = native conn0 \<longrightarrow> R conn (conn\<lparr>native := fst (snd res)\<rparr>))"
    if "drain_loop N E (native conn0) s = Some res" for conn0 :: "'c connection" and res
  proof (rule drain_loop.raw_induct
      [where P = "\<lambda>N' E c s res. N' = N \<longrightarrow>
        (\<forall>conn. native conn = c \<longrightarrow> R conn (conn\<lparr>native := fst (snd res)\<rparr>))", OF _ that],
      intro impI allI)
    fix loop N' E c s res and conn :: "'c connection"
    assume IH: "\<And>N' E c s res. loop N' E c s = Some res \<Longrightarrow> N' = N \<longrightarrow>
        (\<forall>conn. native conn = c \<longrightarrow> R conn (conn\<lparr>native := fst (snd res)\<rparr>))"
      and eq: "(if spare_remaining E s = 0 then Some (Inr (), c, s)
        else case write_tls N' (output_sink E) c s of
             (Inl cause, c', s') \<Rightarrow> Some (Inl (Io cause), c', s')
             | (Inr n, c', s') \<Rightarrow>
                 if n = 0 then Some (Inl InvalidBufferProgress, c', s')
                 else if \<not> wants_write N' c' then Some (Inr (), c', s')
                      else loop N' E c' s') = Some res" and N: "N' = N" and c: "native conn = c"
    obtain q c' s' where wr: "write_tls N (output_sink E) c s = (q, c', s')"
      using prod_cases3 by blast
    have one: "R conn (conn\<lparr>native := c'\<rparr>)" using frame_write_tls wr c by blast
    have more: "R conn (conn\<lparr>native := fst (snd res)\<rparr>)" if "loop N E c' s' = Some res"
      using IH [OF that] frame_trans [OF one, of "conn\<lparr>native := fst (snd res)\<rparr>"]
      by (metis connection.select_convs(1) connection.surjective connection.update_convs(1))
    show "R conn (conn\<lparr>native := fst (snd res)\<rparr>)"
      using eq one more frame_refl [of conn] c unfolding N wr
      by (auto split: if_splits sum.splits)
  qed
  from this [OF run] show ?thesis by simp
qed

lemma drain_frame:
  "drain N E (native conn) out = Some (r, n, out') \<Longrightarrow> R conn (conn\<lparr>native := n\<rparr>)"
  using drain_loop_frame frame_refl [of conn]
  by (auto simp: drain_def split: if_splits Option.bind_splits)

lemma emit_into_frame: "emit_into N E conn out = Some (r, conn', out') \<Longrightarrow> R conn conn'"
  using drain_frame by (auto simp: emit_into_def)

lemma conn_drain_frame: "conn_drain N E conn out = Some (r, conn', out') \<Longrightarrow> R conn conn'"
  using emit_into_frame frame_trans frame_failed [of _ True]
  by (fastforce simp: conn_drain_def split: sum.splits)

lemma refill_frame: "refill N E conn out = Some (r, conn', out') \<Longrightarrow> R conn conn'"
  using conn_drain_frame frame_refl by (auto simp: refill_def split: if_splits)

lemma flush_frame: "flush N E t = Some (r, t') \<Longrightarrow> R (tx_conn t) (tx_conn t')"
  using conn_drain_frame frame_refl
  by (auto simp: flush_def Let_def split: if_splits prod.splits option.splits Option.bind_splits)

lemma after_send_frame: "after_send N E t n = Some (r, t') \<Longrightarrow> R (tx_conn t) (tx_conn t')"
  using refill_frame frame_refl
  by (auto simp: after_send_def Let_def split: prod.splits option.splits Option.bind_splits)

lemma resume_frame: "resume N E t live = Some (r, e, t') \<Longrightarrow> R (tx_conn t) (tx_conn t')"
  using refill_frame frame_refl
  by (auto simp: resume_def Let_def split: if_splits prod.splits option.splits Option.bind_splits)

lemma settle_frame: "settle N E t n live = Some (r, e, t') \<Longrightarrow> R (tx_conn t) (tx_conn t')"
  by (auto simp: settle_def Let_def dest!: resume_frame
      split: if_splits prod.splits Option.bind_splits)

lemma prepare_drain_frame: "prepare_drain N E t live = Some (r, e, t') \<Longrightarrow> R (tx_conn t) (tx_conn t')"
  by (auto simp: prepare_drain_def Let_def dest!: resume_frame
      split: if_splits prod.splits Option.bind_splits)

end

section \<open>Closing and sealing\<close>

locale closing_frame = wire_frame N R
  for N :: "('c, 's) rustls" and R :: "'c connection \<Rightarrow> 'c connection \<Rightarrow> bool" +
  assumes frame_notify: "R c (c\<lparr>local_closed := True, native := send_close_notify N (native c)\<rparr>)"
begin

lemma seal_close_frame: "seal_close N E conn out = Some (r, conn', out') \<Longrightarrow> R conn conn'"
  using emit_into_frame frame_trans frame_notify
  by (fastforce simp: seal_close_def split: if_splits)

lemma close_frame: "egress_close N E t = Some (r, t') \<Longrightarrow> R (tx_conn t) (tx_conn t')"
  using seal_close_frame frame_refl
  by (auto simp: egress_close_def Let_def
      split: if_splits prod.splits option.splits sum.splits Option.bind_splits)

end

locale send_frame = closing_frame N R
  for N :: "('c, 's) rustls" and R :: "'c connection \<Rightarrow> 'c connection \<Rightarrow> bool" +
  assumes frame_writer: "writer_write N (native c) xs = (r, n) \<Longrightarrow> R c (c\<lparr>native := n\<rparr>)"
    and frame_vectored: "writer_write_vectored N (native c) xss = (r, n) \<Longrightarrow> R c (c\<lparr>native := n\<rparr>)"
begin

text \<open>A sealing routine that keeps the frame, and the handler around it.\<close>

definition seals_frame ::
    "('c connection \<Rightarrow> 'b \<Rightarrow> 'i \<Rightarrow> (unit processed \<times> 'c connection \<times> 'b \<times> 'i) option) \<Rightarrow> bool" where
  "seals_frame seal \<longleftrightarrow>
     (\<forall>conn out plain r conn' out' plain'.
        seal conn out plain = Some (r, conn', out', plain') \<longrightarrow> R conn conn')"

lemma step_frame:
  assumes "R conn (conn\<lparr>native := c'\<rparr>)"
    and "conn_drain N E (conn\<lparr>native := c'\<rparr>) out = Some (r, conn', out')"
  shows "R conn conn'" and "R conn (conn'\<lparr>failed := True\<rparr>)"
  using frame_trans [OF assms(1) conn_drain_frame [OF assms(2)]] frame_trans frame_failed [of _ True]
  by blast+

lemma raise_frame: "R conn (conn\<lparr>native := c'\<rparr>) \<Longrightarrow> R conn (conn\<lparr>native := c', failed := True\<rparr>)"
  using frame_trans frame_failed [of "conn\<lparr>native := c'\<rparr>" True] by simp

lemma encrypt_loop_frame:
  assumes run: "encrypt_loop N E D conn out plain = Some (r, conn', out', plain')"
  shows "R conn conn'"
proof -
  have "N = N \<longrightarrow> R conn (fst (snd (r, conn', out', plain')))"
  proof (rule encrypt_loop.raw_induct
      [where P = "\<lambda>N' E D conn out plain res. N' = N \<longrightarrow> R conn (fst (snd res))", OF _ run], rule impI,
      goal_cases)
    case (1 loop N' E D conn out plain res)
    note IH = mp [OF 1(1) refl]
    let ?part = "in_take D plain MAX_PLAINTEXT"
    obtain w c' where wr: "writer_write N (native conn) (part_bytes D ?part) = (w, c')" by fastforce
    note one = frame_writer [OF wr]
    note body = 1(2) [unfolded 1(3) fail_with_def Let_def wr prod.case]
    show ?case
    proof (cases "\<not> in_is_empty D plain \<and> cursor_spare_len E out \<noteq> 0 \<and> \<not> wants_write N (native conn)")
      case False
      with body show ?thesis using frame_refl by (simp only: if_False) auto
    next
      case go: True
      note body = body [unfolded if_P [OF go]]
      show ?thesis
      proof (cases w)
        case (Inl e)
        with body raise_frame [OF one] show ?thesis by auto
      next
        case (Inr n)
        obtain cause conn1 out1 where
          dr: "conn_drain N E (conn\<lparr>native := c'\<rparr>) out = Some (cause, conn1, out1)"
          using body Inr by (auto split: Option.bind_splits)
        note two = step_frame [OF one dr]
        from body Inr dr two show ?thesis
          by (auto split: option.splits if_splits dest!: IH intro: frame_trans)
      qed
    qed
  qed
  then show ?thesis by simp
qed

lemma encrypt_many_loop_frame:
  assumes run: "encrypt_many_loop k N E D conn out plain = Some (r, conn', out', plain')"
  shows "R conn conn'"
proof -
  have "N = N \<longrightarrow> R conn (fst (snd (r, conn', out', plain')))"
  proof (rule encrypt_many_loop.raw_induct
      [where P = "\<lambda>k N' E D conn out plain res. N' = N \<longrightarrow> R conn (fst (snd res))", OF _ run],
      rule impI, goal_cases)
    case (1 loop k N' E D conn out plain res)
    note IH = mp [OF 1(1) refl]
    obtain slices parts' where co: "collect D k (in_take D plain MAX_PLAINTEXT) = (slices, parts')"
      by fastforce
    obtain w c' where wr: "writer_write_vectored N (native conn) slices = (w, c')" by fastforce
    note one = frame_vectored [OF wr]
    note body = 1(2) [unfolded 1(3) fail_with_def Let_def co prod.case wr]
    show ?case
    proof (cases "\<not> in_is_empty D plain \<and> cursor_spare_len E out \<noteq> 0 \<and> \<not> wants_write N (native conn)")
      case False
      with body show ?thesis using frame_refl by (simp only: if_False) auto
    next
      case go: True
      note body = body [unfolded if_P [OF go]]
      show ?thesis
      proof (cases w)
        case (Inl e)
        with body raise_frame [OF one] show ?thesis by auto
      next
        case (Inr n)
        obtain cause conn1 out1 where
          dr: "conn_drain N E (conn\<lparr>native := c'\<rparr>) out = Some (cause, conn1, out1)"
          using body Inr by (auto split: Option.bind_splits)
        note two = step_frame [OF one dr]
        from body Inr dr two show ?thesis
          by (auto split: option.splits if_splits Option.bind_splits dest!: IH intro: frame_trans)
      qed
    qed
  qed
  then show ?thesis by simp
qed

lemma encrypt_seals_frame: "seals_frame (encrypt N E D)" "seals_frame (encrypt_many k N E D)"
  using encrypt_loop_frame encrypt_many_loop_frame frame_refl
  unfolding seals_frame_def encrypt_def encrypt_many_def by (auto split: if_splits)

lemma prepare_with_frame:
  assumes "seals_frame seal" and run: "prepare_with seal N E D t plain = Some (r, t')"
  shows "R (tx_conn t) (tx_conn t')"
proof -
  have "R (tx_conn t) conn'"
    if "conn_drain N E (tx_conn t) out = Some (None, conn, out')"
      "seal conn out' plain = Some (q, conn', out'', plain')" for conn conn' out out' out'' plain' q
    using conn_drain_frame [OF that(1)] that(2) assms(1) frame_trans unfolding seals_frame_def by blast
  with run conn_drain_frame frame_refl show ?thesis
    unfolding prepare_with_def Let_def
    by (auto split: if_splits prod.splits option.splits Option.bind_splits)
qed

lemma prepare_frame:
  "prepare N E D t plain = Some (r, t') \<Longrightarrow> R (tx_conn t) (tx_conn t')"
  "prepare_many k N E D t plain = Some (r, t') \<Longrightarrow> R (tx_conn t) (tx_conn t')"
  unfolding prepare_def prepare_many_def by (rule prepare_with_frame [OF encrypt_seals_frame(1)]
      prepare_with_frame [OF encrypt_seals_frame(2)], assumption)+

end

section \<open>Receiving\<close>

locale copy_frame = step_frame N R
  for N :: "('c, 's) rustls" and R :: "'c connection \<Rightarrow> 'c connection \<Rightarrow> bool" +
  assumes frame_consume: "R c (c\<lparr>native := reader_consume N (native c) k\<rparr>)"
begin

lemma copy_plain_frame:
  assumes run: "copy_plain N I x = Some (r, x')"
  shows "R (rx_conn x) (rx_conn x')"
proof -
  have "N = N \<longrightarrow> R (rx_conn x) (rx_conn (snd (r, x')))"
  proof (rule copy_plain.raw_induct
      [where P = "\<lambda>N' I x res. N' = N \<longrightarrow> R (rx_conn x) (rx_conn (snd res))" and
        xa = "((N, I), x)" and y = "(r, x')", unfolded prod.case, OF _ run], rule impI, goal_cases)
    case (1 loop N' I x res)
    note IH = mp [OF 1(1) refl]
    have place: "R (rx_conn y) (rx_conn (snd res))"
      if "loop N I (input_place N p y) = Some res" for y p
      by (rule frame_trans [OF frame_consume [where k = "length p"]])
        (use IH [OF that] in \<open>simp add: input_place_def Let_def\<close>)
    show ?case
    proof (cases "reader_fill_buf N (native (rx_conn x))")
      case (Inl cause)
      with 1(2) frame_refl show ?thesis unfolding 1(3) by (auto split: if_splits)
    next
      case (Inr plain)
      note body = 1(2) [unfolded 1(3) Inr sum.case Let_def]
      obtain a sa pa where sa: "staged_copy I (rx_staged x) plain (rx_pool x) = (a, sa, pa)"
        using prod_cases3 by blast
      obtain b sb pb where sb: "staged_copy I (rx_staged x)
          (take (min (in_len (rx_input x)) MAX_PLAINTEXT) (in_bytes (rx_input x))) (rx_pool x) = (b, sb, pb)"
        using prod_cases3 by blast
      have staged: "R (rx_conn x) (rx_conn (snd res))"
        if "loop N I (x\<lparr>rx_staged := sa, rx_pool := pa,
          rx_conn := (rx_conn x)\<lparr>native := reader_consume N (native (rx_conn x)) (length plain)\<rparr>\<rparr>) =
          Some res"
        by (rule frame_trans [OF frame_consume [where k = "length plain"]]) (use IH [OF that] in simp)
      have promoted: "R (rx_conn x) (rx_conn (snd res))"
        if "loop N I (input_place N plain (x\<lparr>rx_input := inp, rx_staged := sb, rx_pool := pb\<rparr>)) =
          Some res" for inp
        using place [OF that] by simp
      from body [unfolded sa sb prod.case] staged promoted place [of plain x] frame_refl show ?thesis
        by (auto split: if_split_asm sum.splits)
    qed
  qed
  then show ?thesis by simp
qed

end

locale receive_frame = wire_frame N R + copy_frame N R
  for N :: "('c, 's) rustls" and R :: "'c connection \<Rightarrow> 'c connection \<Rightarrow> bool" +
  assumes frame_read_tls: "read_tls N (native c) xs = (r, n) \<Longrightarrow> R c (c\<lparr>native := n\<rparr>)"
    and frame_packets: "process_new_packets N (native c) = (q, n) \<Longrightarrow> R c (c\<lparr>native := n\<rparr>)"
    and frame_empty_write: "writer_write N (native c) [] = (w, n) \<Longrightarrow> R c (c\<lparr>native := n\<rparr>)"
    and frame_peer: "(peer_closed c \<Longrightarrow> b) \<Longrightarrow> R c (c\<lparr>peer_closed := b\<rparr>)"
begin

lemma process_frame:
  assumes run: "process N I conn = (r, conn')"
  shows "R conn conn'"
proof -
  obtain q c' where pr: "process_new_packets N (native conn) = (q, c')" by fastforce
  note one = frame_packets [OF pr]
  show ?thesis
  proof (cases q)
    case (Inl e)
    with one run pr show ?thesis by (auto simp: process_def)
  next
    case (Inr closed)
    let ?conn = "conn\<lparr>native := c', peer_closed := peer_closed conn \<or> closed\<rparr>"
    have two: "R conn ?conn"
      using frame_trans [OF one frame_peer [of "conn\<lparr>native := c'\<rparr>" "peer_closed conn \<or> closed"]]
      by simp
    have "R conn (?conn\<lparr>native := n\<rparr>)" if "writer_write N c' [] = (w, n)" for w n
      using frame_trans [OF two frame_empty_write [of ?conn w n]] that by simp
    with two Inr run pr show ?thesis
      unfolding process_def Let_def
      by (auto split: if_splits prod.splits sum.splits)
  qed
qed

lemma owned_loop_frame:
  assumes run: "owned_loop N I x = Some (r, x')"
  shows "R (rx_conn x) (rx_conn x')"
proof -
  have "N = N \<longrightarrow> R (rx_conn x) (rx_conn (snd (r, x')))"
  proof (rule owned_loop.raw_induct
      [where P = "\<lambda>N' I x res. N' = N \<longrightarrow> R (rx_conn x) (rx_conn (snd res))" and
        xa = "((N, I), x)" and y = "(r, x')", unfolded prod.case, OF _ run], rule impI, goal_cases)
    case (1 loop N' I x res)
    note IH = mp [OF 1(1) refl]
    let ?inp = "rx_input x" and ?conn = "rx_conn x"
    obtain q c' where rd: "read_tls N (native ?conn) (drop (in_used ?inp) (in_bytes ?inp)) = (q, c')"
      by fastforce
    note one = frame_read_tls [OF rd]
    obtain pr conn2 where pr: "process N I (?conn\<lparr>native := c'\<rparr>) = (pr, conn2)" by fastforce
    note two = frame_trans [OF one process_frame [OF pr]]
    note body = 1(2) [unfolded 1(3) Let_def rd prod.case pr]
    show ?case
    proof (cases q)
      case (Inl e)
      with body one frame_refl show ?thesis by (auto split: if_splits)
    next
      case (Inr count)
      have copied: "R ?conn (rx_conn y)" if "copy_plain N I (z\<lparr>rx_conn := conn2\<rparr>) = Some (r, y)" for z r y
        using frame_trans [OF two] copy_plain_frame [OF that] by simp
      from body Inr one frame_refl show ?thesis
        by (auto split: if_splits Option.bind_splits dest!: IH copied intro: frame_trans)
    qed
  qed
  then show ?thesis by simp
qed

lemma owned_frame:
  assumes "owned N I conn bs recv pool = Some (out, pl, conn', pool')"
  shows "R conn conn'"
proof -
  obtain r x where run: "owned_loop N I \<lparr> rx_conn = conn, rx_input = \<lparr> in_bytes = bs, in_used = 0,
      in_len = 0 \<rparr>, rx_staged = StReady recv, rx_pool = pool \<rparr> = Some (r, x)"
    and conn': "conn' = (rx_conn x)\<lparr>failed := failed (rx_conn x) \<or> is_err r\<rparr>"
    using assms by (auto simp: owned_def Let_def split: Option.bind_splits prod.splits)
  have "R conn (rx_conn x)" using owned_loop_frame [OF run] by simp
  then show ?thesis
    unfolding conn' by (rule frame_trans) (auto intro: frame_failed)
qed

lemma read_batch_frame:
  "read_batch N I ing bs pool = Some (b, r, rel, conn', pool') \<Longrightarrow> R (ig_conn ing) conn'"
  by (auto simp: read_batch_def produce_def split: Option.bind_splits dest: owned_frame)

lemma retain_frame:
  "retain N I G ing bs pool = Some (x, r, rel, conn', pool') \<Longrightarrow> R (ig_conn ing) conn'"
  using frame_trans frame_failed [of _ True]
  by (auto simp: retain_def Let_def split: Option.bind_splits sum.splits dest!: owned_frame)

text \<open>A read that keeps the frame, through the transaction and its completion.\<close>

lemma txn_finish_frame: "txn_finish N E txn = Some (r, txn') \<Longrightarrow> R (tn_wire txn) (tn_wire txn')"
  using emit_into_frame frame_refl
  by (auto simp: txn_finish_def split: option.splits Option.bind_splits)

lemma txn_release_wire:
  "txn_release E L drop_slot txn rel = (evs, wire, store, run) \<Longrightarrow> wire = tn_wire txn"
  by (auto simp: txn_release_def Let_def split: option.splits prod.splits if_splits)

lemma finish_read_frame:
  assumes "finish_read N E L txn x q = Some (r, evs, wire, store, run)"
  shows "R (tn_wire txn) wire"
  using assms txn_finish_frame
  by (auto simp: finish_read_def complete_read_def Let_def
      split: Option.bind_splits prod.splits sum.splits dest!: txn_release_wire)

lemma received_frame:
  assumes "\<And>out r rel wire pool. read (ingress_new (tn_wire txn) (tn_recv txn)) (rn_recv (tn_run txn)) =
      Some (out, r, rel, wire, pool) \<Longrightarrow> R (tn_wire txn) wire"
    and "do { (txn', x, result) \<leftarrow> txn_read read txn; finish_read N E L txn' x result } =
      Some (r, evs, wire, store, run)"
  shows "R (tn_wire txn) wire"
  using assms(2) frame_trans
  by (fastforce simp: txn_read_def split: Option.bind_splits dest!: finish_read_frame dest: assms(1))

lemma ingress_frame:
  "ingress_process N E I L txn bs = Some (r, evs, wire, store, run) \<Longrightarrow> R (tn_wire txn) wire"
  "read_lease N E I G L txn bs = Some (r', evs, wire, store, run) \<Longrightarrow> R (tn_wire txn) wire"
proof -
  assume run: "ingress_process N E I L txn bs = Some (r, evs, wire, store, run)"
  show "R (tn_wire txn) wire"
    by (rule received_frame [OF _ run [unfolded ingress_process_def]])
      (auto simp: ingress_new_def dest: read_batch_frame)
next
  assume run: "read_lease N E I G L txn bs = Some (r', evs, wire, store, run)"
  show "R (tn_wire txn) wire"
    by (rule received_frame [OF _ run [unfolded read_lease_def]])
      (auto simp: ingress_new_def dest: retain_frame)
qed

lemma eof_frame: "ingress_eof N conn = (r, conn') \<Longrightarrow> R conn conn'"
proof -
  assume run: "ingress_eof N conn = (r, conn')"
  obtain q c' where rd: "read_tls N (native conn) [] = (q, c')" by fastforce
  note one = frame_read_tls [OF rd]
  have "R conn (conn\<lparr>native := c', failed := True\<rparr>)"
    using frame_trans [OF one frame_failed [of "conn\<lparr>native := c'\<rparr>" True]] by simp
  with one run rd show ?thesis
    by (auto simp: ingress_eof_def peer_eof_def split: sum.splits list.splits)
qed

lemma reserve_frame:
  assumes "try_reserve N E I L wire send run = (evs, oc)"
  shows "case oc of Ready txn \<Rightarrow> tn_wire txn = wire
    | Blocked _ (wire', _) \<Rightarrow> wire' = wire | Failed _ (wire', _) \<Rightarrow> R wire wire'"
  using assms frame_failed [of wire True]
  by (auto simp: try_reserve_def Let_def
      split: sum.splits option.splits prod.splits bool.splits)

end

section \<open>The frames of the model\<close>

text \<open>The flags: whatever the libraries answer, every handler keeps the latches.\<close>

interpretation latch_order: step_frame N latch_le
  by unfold_locales (auto intro: latch_le_trans)

interpretation latch_send: send_frame N latch_le
  by unfold_locales (auto simp: latch_le_def)

interpretation latch_receive: receive_frame N latch_le
  by unfold_locales (auto simp: latch_le_def)

text \<open>The send side keeps the plaintext received, the receive side and a close that sent.\<close>

definition same_plain ::
    "('c, 's) rustls \<Rightarrow> 'c rustls_view \<Rightarrow> 'c connection \<Rightarrow> 'c connection \<Rightarrow> bool" where
  "same_plain N V c d \<longleftrightarrow>
     (rustls_in_laws N V \<and> rustls_duplex_laws N V \<and> rustls_split_laws N V \<longrightarrow>
        got V (native d) = got V (native c) \<and> nread V (native d) = nread V (native c))"

definition same_sent ::
    "('c, 's) rustls \<Rightarrow> 'c rustls_view \<Rightarrow> 'c connection \<Rightarrow> 'c connection \<Rightarrow> bool" where
  "same_sent N V c d \<longleftrightarrow>
     (rustls_writer_laws N V \<and> rustls_split_laws N V \<longrightarrow> sent V (native d) = sent V (native c))"

interpretation plain_frame: send_frame N "same_plain N V"
proof (unfold_locales, goal_cases)
  case (3 W c s r n s')
  then show ?case unfolding same_plain_def rustls_duplex_laws_def by (metis connection.select_convs(1)
      connection.surjective connection.update_convs(1) fst_conv snd_conv)
next
  case (6 c xs r n)
  then show ?case using rustls_in_lawsD(5) [of N V] by (simp add: same_plain_def)
qed (auto simp: same_plain_def rustls_split_laws_def)

lemma sent_wire_frame: "wire_frame N (same_sent N V)"
proof (unfold_locales, goal_cases)
  case (3 W c s r n s')
  then show ?case unfolding same_sent_def rustls_writer_laws_def by (metis connection.select_convs(1)
      connection.surjective connection.update_convs(1) fst_conv snd_conv)
qed (auto simp: same_sent_def)

interpretation sent_close: closing_frame N "same_sent N V"
  using sent_wire_frame [of N V]
  by (rule closing_frame.intro) (unfold_locales, simp add: same_sent_def rustls_split_laws_def)

interpretation sent_frame: receive_frame N "same_sent N V"
proof (unfold_locales, goal_cases)
  case (4 c w n)
  have "sent V n = sent V (native c)" if "rustls_writer_laws N V"
    using that 4 unfolding rustls_writer_laws_def
    by (cases w) (metis append.right_neutral take_Nil)+
  then show ?case by (simp add: same_sent_def)
qed (auto simp: same_sent_def rustls_split_laws_def)

section \<open>A connection's life\<close>

text \<open>
  A call of the driver on a connection, with any state of its send owner, of the pools and of the
  waiters, whatever it ends in; it is labelled with the failure it reports. A step is any one call.
\<close>

inductive conn_call ::
    "('c, 's) rustls \<Rightarrow> ('b, 's, 'p) egress_ops \<Rightarrow> ('i, 't) progress_ops \<Rightarrow>
     ('r, 'k, 'f, 'g) ingress_ops \<Rightarrow> ('k, 'h) segment_ops \<Rightarrow> 'q lane_ops \<Rightarrow>
     ('c, 'b, 'n, 'f, 'g, 'p, 'q, 'o) runtime itself \<Rightarrow>
     'c connection \<Rightarrow> error option \<Rightarrow> 'c connection \<Rightarrow> bool"
  for N E D I G L T
where
  Prepare: "egress_prepare N E D t plain = Some (r, t') \<Longrightarrow>
     conn_call N E D I G L T (tx_conn t) (failure r) (tx_conn t')"
| PrepareMany: "egress_prepare_many k N E D t plain = Some (r, t') \<Longrightarrow>
     conn_call N E D I G L T (tx_conn t) (failure r) (tx_conn t')"
| AfterSend: "egress_after_send N E t n = Some (tr, t') \<Longrightarrow>
     conn_call N E D I G L T (tx_conn t) (failure tr) (tx_conn t')"
| Settle: "egress_settle N E t n live = Some (st, e, t') \<Longrightarrow>
     conn_call N E D I G L T (tx_conn t) e (tx_conn t')"
| Flush: "egress_flush N E t = Some (r, t') \<Longrightarrow>
     conn_call N E D I G L T (tx_conn t) (failure r) (tx_conn t')"
| Drain: "egress_drain N E t live = Some (p, e, t') \<Longrightarrow>
     conn_call N E D I G L T (tx_conn t) e (tx_conn t')"
| Close: "egress_close N E t = Some (r, t') \<Longrightarrow>
     conn_call N E D I G L T (tx_conn t) (failure r) (tx_conn t')"
| Refused: "try_reserve N E I L wire send (run :: ('c, 'b, 'n, 'f, 'g, 'p, 'q, 'o) runtime) =
       (evs, Failed cause (wire', send', run')) \<Longrightarrow>
     conn_call N E D I G L T wire (Some cause) wire'"
| Process: "ingress_process N E I L
       (txn :: ('c, 'b, ('c, 'b, 'n, 'f, 'g, 'p, 'q, 'o) runtime, 'r) transaction) bs =
       Some (b, evs, wire, store, run) \<Longrightarrow>
     conn_call N E D I G L T (tn_wire txn) (failure b) wire"
| ReadLease: "read_lease N E I G L
       (txn :: ('c, 'b, ('c, 'b, 'n, 'f, 'g, 'p, 'q, 'o) runtime, 'r) transaction) bs =
       Some (x, evs, wire, store, run) \<Longrightarrow>
     conn_call N E D I G L T (tn_wire txn) (failure x) wire"
| Eof: "ingress_eof N wire = (u, wire') \<Longrightarrow> conn_call N E D I G L T wire (failure u) wire'"

text \<open>The calls that report nothing.\<close>

inductive_cases conn_call_silentE: "conn_call N E D I G L T c None d"

definition conn_step where
  "conn_step N E D I G L T c d \<longleftrightarrow> (\<exists>e. conn_call N E D I G L T c e d)"

lemma conn_call_latch: "conn_call N E D I G L T c e d \<Longrightarrow> latch_le c d"
proof (induction rule: conn_call.induct)
  case (Refused wire send run evs cause wire' send' run')
  then show ?case using latch_receive.reserve_frame [OF Refused] by simp
qed (auto simp: egress_prepare_def egress_prepare_many_def egress_after_send_def egress_settle_def
    egress_flush_def egress_drain_def
    dest: latch_send.prepare_frame latch_send.after_send_frame latch_send.settle_frame
      latch_send.flush_frame latch_send.prepare_drain_frame latch_send.close_frame
      latch_receive.ingress_frame latch_receive.eof_frame)

interpretation conn_life: latch "conn_step N E D I G L T"
  by unfold_locales (auto simp: conn_step_def dest: conn_call_latch)

end
