(* ===== verification/Layout.thy ===== *)
theory Layout
  imports Errors
begin

text \<open>
  Pool layouts (\<open>src/tls/endpoint/layout.rs\<close>): how many receive and send slots a plan asks for under
  the limits of a worker. \<open>usize\<close> is 64 bits wide, and every operation wraps as Rust's release build
  does; that none of them wraps is a theorem.
\<close>

type_synonym u32 = "32 word"
type_synonym usize = "64 word"

section \<open>Library parameters\<close>

text \<open>The limits of \<open>dope\<close>: both counts are \<open>usize\<close>, and \<open>connections\<close> is a \<open>NonZero\<close>.\<close>

record limits =
  lim_connections :: usize
  lim_resident :: usize

datatype net_resource =
    BufferLayout buffer_kind nat
  | AlreadyBound
  | ResourceAllocation alloc_error
  | ResourcePool nat
  | ResourceExhausted nat
  | ResourceQueue alloc_error

text \<open>
  \<open>bounded::U32\<close> up to its constant bound, and the layouts \<open>'y\<close> of \<open>o3\<close>'s pools.
\<close>

record 'y layout_ops =
  bounded_from_usize :: "u32 \<Rightarrow> usize \<Rightarrow> u32 option"
  pool_layout_new :: "usize \<Rightarrow> usize \<Rightarrow> nat + 'y"
  pool_layout_slots :: "'y \<Rightarrow> u32"

definition layout_laws :: "'y layout_ops \<Rightarrow> bool" where
  "layout_laws Y \<longleftrightarrow>
     (\<forall>b n. bounded_from_usize Y b n =
        (if unat n \<le> unat b then Some (word_of_nat (unat n)) else None)) \<and>
     (\<forall>n c y. pool_layout_new Y n c = Inr y \<longrightarrow>
        unat (pool_layout_slots Y y) = unat n)"

lemma layout_lawsD:
  assumes "layout_laws Y"
  shows "bounded_from_usize Y b n = (if unat n \<le> unat b then Some (word_of_nat (unat n)) else None)"
    and "pool_layout_new Y n c = Inr y \<Longrightarrow> unat (pool_layout_slots Y y) = unat n"
  using assms by (simp_all add: layout_laws_def)

section \<open>Arithmetic of \<open>std\<close>\<close>

definition saturating_add :: "usize \<Rightarrow> usize \<Rightarrow> usize" where
  "saturating_add a b = (if a + b < a then - 1 else a + b)"

definition div_ceil :: "usize \<Rightarrow> usize \<Rightarrow> usize" where
  "div_ceil a b = (let d = a div b; r = a mod b in if 0 < r then d + 1 else d)"

section \<open>Plans\<close>

definition DEFAULT_STAGED_RECORDS :: usize where
  "DEFAULT_STAGED_RECORDS = 64"

definition DEFAULT_CIPHERTEXT_SLOTS :: usize where
  "DEFAULT_CIPHERTEXT_SLOTS = 128"

definition MAX_STAGED_RECORDS :: u32 where
  "MAX_STAGED_RECORDS = - 1 - 1"

datatype layout_error = StagedCount usize usize

datatype staged_records = StagedRecords u32

definition staged_fixed :: "u32 \<Rightarrow> staged_records" where
  "staged_fixed n = StagedRecords n"

primrec staged_get :: "staged_records \<Rightarrow> usize" where
  "staged_get (StagedRecords n) = ucast n"

definition staged_try_from :: "'y layout_ops \<Rightarrow> usize \<Rightarrow> layout_error + staged_records" where
  "staged_try_from Y actual =
     (case bounded_from_usize Y MAX_STAGED_RECORDS actual of
        Some n \<Rightarrow> Inr (StagedRecords n)
      | None \<Rightarrow> Inl (StagedCount actual (ucast MAX_STAGED_RECORDS)))"

record plan =
  plan_staged :: "staged_records option"
  plan_send :: usize
  plan_growing :: "u32 option"

definition plan_new :: plan where
  "plan_new = \<lparr> plan_staged = None,
     plan_send = saturating_add 1 (DEFAULT_CIPHERTEXT_SLOTS - 1), plan_growing = None \<rparr>"

definition plan_with_staged :: "staged_records \<Rightarrow> plan \<Rightarrow> plan" where
  "plan_with_staged m p = p\<lparr>plan_staged := Some m\<rparr>"

definition plan_with_send :: "usize \<Rightarrow> plan \<Rightarrow> plan" where
  "plan_with_send m p = p\<lparr>plan_send := m\<rparr>"

definition plan_with_growth :: "u32 \<Rightarrow> plan \<Rightarrow> plan" where
  "plan_with_growth warm p = p\<lparr>plan_growing := Some warm\<rparr>"

section \<open>Layouts\<close>

record 'y layout =
  lay_recv :: 'y
  lay_send :: 'y
  lay_growing :: "u32 option"

definition layout_try_new ::
    "'y layout_ops \<Rightarrow> usize \<Rightarrow> usize \<Rightarrow> u32 option \<Rightarrow> net_resource + 'y layout" where
  "layout_try_new Y rslots sslots growing =
     (case pool_layout_new Y rslots (of_nat MAX_PLAINTEXT) of
        Inl cause \<Rightarrow> Inl (BufferLayout ReceiveBuffer cause)
      | Inr recv \<Rightarrow>
          (case pool_layout_new Y sslots (of_nat TLS_STAGING_CAP) of
             Inl cause \<Rightarrow> Inl (BufferLayout SendBuffer cause)
           | Inr send \<Rightarrow> Inr \<lparr> lay_recv = recv, lay_send = send, lay_growing = growing \<rparr>))"

text \<open>The slots a plan asks for.\<close>

definition plan_held :: "plan \<Rightarrow> limits \<Rightarrow> usize" where
  "plan_held p limits =
     (case plan_staged p of
        Some n \<Rightarrow> staged_get n
      | None \<Rightarrow> max (min DEFAULT_STAGED_RECORDS (lim_connections limits))
                   (div_ceil (lim_resident limits) (of_nat MAX_PLAINTEXT)))"

definition plan_layout :: "'y layout_ops \<Rightarrow> plan \<Rightarrow> limits \<Rightarrow> net_resource + 'y layout" where
  "plan_layout Y p limits =
     (let cap = lim_connections limits;
          recv = plan_held p limits + 1;
          send = min (plan_send p) cap
      in layout_try_new Y recv send (plan_growing p))"

definition recv_slots :: "'y layout_ops \<Rightarrow> 'y layout \<Rightarrow> u32" where
  "recv_slots Y lay = pool_layout_slots Y (lay_recv lay)"

definition send_slots :: "'y layout_ops \<Rightarrow> 'y layout \<Rightarrow> u32" where
  "send_slots Y lay = pool_layout_slots Y (lay_send lay)"

definition recv_cap :: usize where
  "recv_cap = of_nat MAX_PLAINTEXT"

definition send_cap :: usize where
  "send_cap = of_nat TLS_STAGING_CAP"

definition payload :: "'y layout_ops \<Rightarrow> 'y layout \<Rightarrow> usize" where
  "payload Y lay =
     ucast (pool_layout_slots Y (lay_recv lay)) * of_nat MAX_PLAINTEXT +
     ucast (pool_layout_slots Y (lay_send lay)) * of_nat TLS_STAGING_CAP"

text \<open>The assertions the compiler evaluates, in \<open>u128\<close>, which none of these numbers exceeds.\<close>

definition payload_asserts :: bool where
  "payload_asserts \<longleftrightarrow> 1 < MAX_PLAINTEXT \<and>
     unat (- 1 :: u32) * (MAX_PLAINTEXT + TLS_STAGING_CAP) \<le> unat (- 1 :: usize)"

section \<open>No operation wraps\<close>

lemma unat_bound: "unat (w :: 'a::len word) < 2 ^ LENGTH('a)"
  by (rule unsigned_less)

lemma unat_widen: "unat (ucast (n :: u32) :: usize) = unat n"
proof -
  have "unat n < 2 ^ 64" using unat_bound [of n] by simp
  then show ?thesis by (simp add: unsigned_ucast_eq take_bit_nat_eq_self)
qed

lemma unat_div_ceil:
  assumes "b \<noteq> 0" and "b \<noteq> 1"
  shows "unat (div_ceil a b) = (unat a + unat b - 1) div unat b"
proof -
  have "unat b \<noteq> 0" using assms(1) by (simp add: unat_eq_zero)
  moreover have "unat b \<noteq> 1" using assms(2) by (metis unat_1 unsigned_word_eqI)
  ultimately have b: "1 < unat b" by linarith
  have div: "unat (a div b) = unat a div unat b" "unat (a mod b) = unat a mod unat b"
    by (simp_all add: unat_div unat_mod)
  show ?thesis
  proof (cases "a mod b = 0")
    case True
    then have z: "unat a mod unat b = 0" using div(2) by simp
    then obtain k where k: "unat a = unat b * k" by auto
    have "(unat b * k + unat b - 1) div unat b = k"
      using b by (simp add: div_nat_eqI)
    with True k div b show ?thesis by (simp add: div_ceil_def Let_def)
  next
    case False
    then have nz: "unat a mod unat b \<noteq> 0" using div(2) by (metis unat_eq_zero)
    then have "unat a div unat b < unat a"
      using b by (metis div_less_dividend gr0I mod_0)
    then have "unat (a div b) + 1 < 2 ^ 64" using div(1) unat_bound [of a] by simp
    then have "unat (a div b + 1) = unat a div unat b + 1"
      using div(1) by (simp add: unat_word_ariths)
    moreover have "(unat a + unat b - 1) div unat b = unat a div unat b + 1"
    proof -
      define d r where "d = unat a div unat b" and "r = unat a mod unat b"
      have "unat a = unat b * d + r" "0 < r" "r < unat b" using nz b by (simp_all add: d_def r_def)
      then have "unat a + unat b - 1 = (d + 1) * unat b + (r - 1)" "r - 1 < unat b"
        by (simp_all add: algebra_simps)
      moreover have "((d + 1) * unat b + (r - 1)) div unat b = (d + 1) + (r - 1) div unat b"
        using b by (intro div_mult_self3) simp
      ultimately show ?thesis unfolding d_def by simp
    qed
    ultimately show ?thesis using False by (simp add: div_ceil_def Let_def word_gt_0)
  qed
qed

lemma staging_words:
  "unat (of_nat MAX_PLAINTEXT :: usize) = MAX_PLAINTEXT"
  "unat (of_nat TLS_STAGING_CAP :: usize) = TLS_STAGING_CAP"
  "of_nat MAX_PLAINTEXT \<noteq> (0 :: usize)" "of_nat MAX_PLAINTEXT \<noteq> (1 :: usize)"
  by (simp_all add: staging_cap_value MAX_PLAINTEXT_def)

text \<open>The held records of a plan as a number, and the slots it asks for.\<close>

definition held_spec :: "plan \<Rightarrow> limits \<Rightarrow> nat" where
  "held_spec p limits =
     (case plan_staged p of
        Some (StagedRecords n) \<Rightarrow> unat n
      | None \<Rightarrow> max (min 64 (unat (lim_connections limits)))
                   ((unat (lim_resident limits) + MAX_PLAINTEXT - 1) div MAX_PLAINTEXT))"

lemma unat_max_min:
  "unat (max a b) = max (unat a) (unat b)" "unat (min a b) = min (unat a) (unat b)"
  for a b :: "'a::len word"
  by (simp_all add: max_def min_def word_le_nat_alt)

lemma plan_held_spec: "unat (plan_held p limits) = held_spec p limits"
  by (simp add: plan_held_def held_spec_def unat_max_min unat_div_ceil staging_words
      DEFAULT_STAGED_RECORDS_def unat_widen split: option.split staged_records.split)

lemma held_room: "held_spec p limits + 1 < 2 ^ 64"
proof -
  have "(unat (lim_resident limits) + MAX_PLAINTEXT - 1) div MAX_PLAINTEXT \<le>
      (2 ^ 64 + MAX_PLAINTEXT - 1) div MAX_PLAINTEXT"
    using unat_bound [of "lim_resident limits"] by (intro div_le_mono) simp
  also have "\<dots> < 2 ^ 64 - 1" by (simp add: MAX_PLAINTEXT_def)
  finally have r: "(unat (lim_resident limits) + MAX_PLAINTEXT - 1) div MAX_PLAINTEXT < 2 ^ 64 - 1" .
  show ?thesis
  proof (cases "plan_staged p")
    case (Some n)
    obtain m where m: "n = StagedRecords m" by (cases n) auto
    have "unat m < 2 ^ 32" using unat_bound [of m] by simp
    with Some m show ?thesis by (simp add: held_spec_def)
  next
    case None
    with r show ?thesis by (simp add: held_spec_def max_def min_def)
  qed
qed

lemma plan_recv_spec: "unat (plan_held p limits + 1) = held_spec p limits + 1"
  using held_room [of p limits] plan_held_spec [of p limits]
  by (simp add: unat_word_ariths)

section \<open>Properties\<close>

text \<open>
  C24. A layout is computed without wrapping. Where the pools accept it, it has one receive slot more
  than the records that may be staged, by default as many as connections up to 64 and enough for the
  whole resident budget, and as many send slots as the plan asks for but no more than connections.
\<close>

theorem layout_exact:
  assumes "layout_laws Y" and "plan_layout Y p limits = Inr lay"
  shows "unat (recv_slots Y lay) = held_spec p limits + 1 \<and>
    unat (send_slots Y lay) = min (unat (plan_send p)) (unat (lim_connections limits)) \<and>
    lay_growing lay = plan_growing p \<and>
    (plan_staged p = None \<longrightarrow>
       unat (lim_resident limits) \<le> (unat (recv_slots Y lay) - 1) * unat recv_cap)"
proof -
  from assms(2) have "pool_layout_new Y (plan_held p limits + 1) (of_nat MAX_PLAINTEXT) =
      Inr (lay_recv lay)" "pool_layout_new Y (min (plan_send p) (lim_connections limits))
      (of_nat TLS_STAGING_CAP) = Inr (lay_send lay)" "lay_growing lay = plan_growing p"
    by (auto simp: plan_layout_def layout_try_new_def Let_def split: sum.splits)
  then have slots: "unat (recv_slots Y lay) = held_spec p limits + 1"
    "unat (send_slots Y lay) = min (unat (plan_send p)) (unat (lim_connections limits))"
    using layout_lawsD(2) [OF assms(1)] plan_recv_spec
    by (simp_all add: recv_slots_def send_slots_def unat_max_min)
  have "unat (lim_resident limits) \<le>
      (unat (lim_resident limits) + MAX_PLAINTEXT - 1) div MAX_PLAINTEXT * MAX_PLAINTEXT"
    by (simp add: MAX_PLAINTEXT_def)
  also have "\<dots> \<le> held_spec p limits * MAX_PLAINTEXT" if "plan_staged p = None"
    using that by (intro mult_le_mono1) (simp add: held_spec_def)
  finally show ?thesis
    using slots \<open>lay_growing lay = plan_growing p\<close> by (simp add: recv_cap_def staging_words)
qed

text \<open>
  C25. The payload of a layout is exact: the assertions on the constants hold, and the product and the
  sum fit \<open>usize\<close> for every layout.
\<close>

theorem payload_exact:
  "payload_asserts \<and> unat (payload Y lay) =
     unat (recv_slots Y lay) * unat recv_cap + unat (send_slots Y lay) * unat send_cap"
proof
  show "payload_asserts"
    by (simp add: payload_asserts_def staging_cap_value MAX_PLAINTEXT_def unsigned_minus_1_eq_mask mask_eq_exp_minus_1)
  let ?r = "unat (pool_layout_slots Y (lay_recv lay))" and ?s = "unat (pool_layout_slots Y (lay_send lay))"
  have "?r < 2 ^ 32" "?s < 2 ^ 32"
    using unat_bound [of "pool_layout_slots Y (lay_recv lay)"]
      unat_bound [of "pool_layout_slots Y (lay_send lay)"] by simp_all
  then have "?r * 16384 + ?s * 24837 < 2 ^ 64" "?r * 16384 < 2 ^ 64" "?s * 24837 < 2 ^ 64" by simp_all
  then show "unat (payload Y lay) =
      unat (recv_slots Y lay) * unat recv_cap + unat (send_slots Y lay) * unat send_cap"
    by (simp add: payload_def recv_slots_def send_slots_def recv_cap_def send_cap_def
        staging_words unat_word_ariths unat_widen staging_cap_value MAX_PLAINTEXT_def)
qed

text \<open>
  C26. A staged count is accepted exactly up to \<open>u32::MAX - 1\<close>, and reads back as given; a larger
  one is refused with the count and that maximum.
\<close>

theorem staged_count_checked:
  assumes "layout_laws Y"
  shows "if unat n \<le> 2 ^ 32 - 2
    then \<exists>m. staged_try_from Y n = Inr m \<and> staged_get m = n
    else staged_try_from Y n = Inl (StagedCount n (2 ^ 32 - 2))"
proof -
  have "unat MAX_STAGED_RECORDS = 2 ^ 32 - 2" by (simp add: MAX_STAGED_RECORDS_def)
  moreover have "ucast (word_of_nat (unat n) :: u32) = n" if "unat n \<le> 2 ^ 32 - 2"
    using that by (simp add: word_unat_eq_iff unat_widen unsigned_ucast_eq unsigned_take_bit_eq
        take_bit_nat_eq_self)
  ultimately show ?thesis
    using layout_lawsD(1) [OF assms]
    by (auto simp: staged_try_from_def MAX_STAGED_RECORDS_def)
qed

section \<open>Witnesses\<close>

text \<open>Layouts as their slot counts, of fewer than \<open>2 ^ 32\<close> slots.\<close>

definition ref_layouts :: "u32 layout_ops" where
  "ref_layouts = \<lparr>
     bounded_from_usize = (\<lambda>b n. if unat n \<le> unat b then Some (word_of_nat (unat n)) else None),
     pool_layout_new = (\<lambda>n c. if unat n < 2 ^ 32 then Inr (word_of_nat (unat n)) else Inl 0),
     pool_layout_slots = (\<lambda>y. y) \<rparr>"

lemma ref_layout_laws: "layout_laws ref_layouts"
  by (auto simp: layout_laws_def ref_layouts_def unsigned_ucast_eq unsigned_take_bit_eq
      take_bit_nat_eq_self split: if_splits)

text \<open>The default plan for 128 connections and no resident budget: 65 and 128 slots.\<close>

lemma ref_default_layout:
  "plan_layout ref_layouts plan_new \<lparr> lim_connections = 128, lim_resident = 0 \<rparr> =
     Inr \<lparr> lay_recv = 65, lay_send = 128, lay_growing = None \<rparr>"
  by (simp add: plan_layout_def plan_held_def plan_new_def layout_try_new_def ref_layouts_def
      DEFAULT_STAGED_RECORDS_def DEFAULT_CIPHERTEXT_SLOTS_def saturating_add_def div_ceil_def
      max_def min_def MAX_PLAINTEXT_def)

theorem layout_exact_witness:
  "unat (recv_slots ref_layouts \<lparr> lay_recv = 65, lay_send = 128, lay_growing = None \<rparr>) = 64 + 1"
  using layout_exact [OF ref_layout_laws ref_default_layout]
  by (simp add: held_spec_def plan_new_def MAX_PLAINTEXT_def)

theorem staged_count_checked_witness:
  "staged_try_from ref_layouts 5000000000 = Inl (StagedCount 5000000000 (2 ^ 32 - 2))"
  using staged_count_checked [OF ref_layout_laws, of 5000000000] by simp

end
