(* ===== verification/Roles.thy ===== *)
theory Roles
  imports Connection
begin

text \<open>
  The two endpoint roles (\<open>src/tls/roles/mod.rs\<close>, \<open>src/tls/client.rs\<close>): how a native connection is
  opened from a role's configuration, and whether it has something to send at once.
\<close>

section \<open>Library parameters\<close>

text \<open>
  The constructors of \<open>rustls\<close> connections over configurations \<open>'v\<close> and \<open>'w\<close>, the ALPN protocols of
  a client configuration, and \<open>o3\<close>'s fallible copies of a byte string and of a block of them.
\<close>

record ('v, 'w, 'x, 'c) role_ops =
  server_connection_new :: "'v \<Rightarrow> tls_error + 'c"
  reject_early_data :: "'c \<Rightarrow> 'c"
  alpn_protocols :: "'w \<Rightarrow> bytes list"
  client_connection_new :: "'w \<Rightarrow> 'x \<Rightarrow> bytes list \<Rightarrow> tls_error + 'c"
  slice_try_copy :: "bytes \<Rightarrow> alloc_error + bytes"
  block_reserve :: "nat \<Rightarrow> alloc_error + unit"

section \<open>The client's target\<close>

record ('w, 'x) client_plan =
  cp_config :: 'w
  cp_name :: 'x

definition client_plan_new :: "'w \<Rightarrow> 'x \<Rightarrow> ('w, 'x) client_plan" where
  "client_plan_new config name = \<lparr> cp_config = config, cp_name = name \<rparr>"

section \<open>Roles\<close>

text \<open>A role: its \<open>SEND_ON_OPEN\<close> and its \<open>open\<close>, over its configuration \<open>'o\<close>.\<close>

record ('o, 'c) role =
  send_on_open :: bool
  role_open :: "'o \<Rightarrow> error + 'c"

definition server_open :: "('v, 'w, 'x, 'c) role_ops \<Rightarrow> 'v \<Rightarrow> error + 'c" where
  "server_open R config =
     (case server_connection_new R config of
        Inl e \<Rightarrow> Inl (error_from_tls e)
      | Inr conn \<Rightarrow> Inr (reject_early_data R conn))"

text \<open>\<open>Block::try_clone\<close>: room for the block, then each element in order.\<close>

fun copy_each :: "('v, 'w, 'x, 'c) role_ops \<Rightarrow> bytes list \<Rightarrow> alloc_error + bytes list" where
  "copy_each R [] = Inr []"
| "copy_each R (p # ps) =
     (case slice_try_copy R p of
        Inl e \<Rightarrow> Inl e
      | Inr p' \<Rightarrow> (case copy_each R ps of Inl e \<Rightarrow> Inl e | Inr ps' \<Rightarrow> Inr (p' # ps')))"

definition clone_alpn :: "('v, 'w, 'x, 'c) role_ops \<Rightarrow> bytes list \<Rightarrow> alloc_error + bytes list" where
  "clone_alpn R ps =
     (case block_reserve R (length ps) of Inl e \<Rightarrow> Inl e | Inr _ \<Rightarrow> copy_each R ps)"

definition client_open :: "('v, 'w, 'x, 'c) role_ops \<Rightarrow> ('w, 'x) client_plan \<Rightarrow> error + 'c" where
  "client_open R config =
     (case clone_alpn R (alpn_protocols R (cp_config config)) of
        Inl e \<Rightarrow> Inl (error_from_alloc e)
      | Inr alpn \<Rightarrow>
          (case client_connection_new R (cp_config config) (cp_name config) alpn of
             Inr conn \<Rightarrow> Inr conn
           | Inl e \<Rightarrow> Inl (Tls e)))"

definition server_role :: "('v, 'w, 'x, 'c) role_ops \<Rightarrow> ('v, 'c) role" where
  "server_role R = \<lparr> send_on_open = False, role_open = server_open R \<rparr>"

definition client_role :: "('v, 'w, 'x, 'c) role_ops \<Rightarrow> (('w, 'x) client_plan, 'c) role" where
  "client_role R = \<lparr> send_on_open = True, role_open = client_open R \<rparr>"

section \<open>The contract of a role\<close>

text \<open>
  What the endpoint relies on: a connection that does not send on open has nothing to write, and
  opening never reports that a buffer is missing, which is the endpoint's own word for \<open>try later\<close>.
\<close>

definition role_laws :: "('c, 's) rustls \<Rightarrow> ('v, 'w, 'x, 'c) role_ops \<Rightarrow> bool" where
  "role_laws N R \<longleftrightarrow>
     (\<forall>config conn. server_connection_new R config = Inr conn \<longrightarrow>
        \<not> wants_write N (reject_early_data R conn)) \<and>
     (\<forall>p p'. slice_try_copy R p = Inr p' \<longrightarrow> p' = p)"

locale protocol =
  fixes N :: "('c, 's) rustls" and role :: "('o, 'c) role" and lawful :: bool
  assumes quiet: "lawful \<Longrightarrow> role_open role config = Inr conn \<Longrightarrow> \<not> send_on_open role \<Longrightarrow>
      \<not> wants_write N conn"
    and never_unavailable: "role_open role config \<noteq> Inl BufferUnavailable"

interpretation server: protocol N "server_role R" "role_laws N R"
  by unfold_locales
    (auto simp: server_role_def server_open_def role_laws_def error_from_tls_def split: sum.splits)

interpretation client: protocol N "client_role R" True
  by unfold_locales
    (auto simp: client_role_def client_open_def error_from_alloc_def split: sum.splits)

lemma copy_each_same:
  "\<forall>p p'. slice_try_copy R p = Inr p' \<longrightarrow> p' = p \<Longrightarrow> copy_each R ps = Inr ps' \<Longrightarrow> ps' = ps"
  by (induction ps arbitrary: ps') (auto split: sum.splits)

end
