(* ===== verification/Endpoint.thy ===== *)
theory Endpoint
  imports Protocol Layout Roles
begin

text \<open>
  A worker's endpoint (\<open>src/tls/endpoint/mod.rs\<close>): its configuration, the binding of its storage
  once, the opening of connections against sessions and send cursors, and the choice of the waiter
  to serve next. The pools behind the storage's cell are the runtime's state here, the cell itself
  is whether it is set.
\<close>

section \<open>Library parameters\<close>

text \<open>
  The recycling store of session leases, and what binding constructs: the store, the receive pools,
  the send pool and the lanes. \<open>capacity::Count\<close> counts entries.
\<close>

record 'n session_ops =
  session_take :: "'n \<Rightarrow> (lease \<times> 'n) option"
  session_return :: "lease \<Rightarrow> 'n \<Rightarrow> 'n"
  session_available :: "'n \<Rightarrow> nat"

record ('y, 'n, 'f, 'g, 'p, 'q) bind_ops =
  count_try_from :: "usize \<Rightarrow> nat + nat"
  sessions_try_new :: "nat \<Rightarrow> alloc_error + 'n"
  growing_try_warm :: "'y \<Rightarrow> u32 \<Rightarrow> nat + 'g"
  fixed_try_from :: "'y \<Rightarrow> nat + 'f"
  send_try_from :: "'y \<Rightarrow> nat + 'p"
  fifo_try_from :: "usize \<Rightarrow> alloc_error + 'q"

definition session_laws :: "'n session_ops \<Rightarrow> bool" where
  "session_laws S \<longleftrightarrow>
     (\<forall>n. session_take S n = None \<longleftrightarrow> session_available S n = 0) \<and>
     (\<forall>n l n'. session_take S n = Some (l, n') \<longrightarrow>
        session_available S n = Suc (session_available S n')) \<and>
     (\<forall>l n. session_available S (session_return S l n) = Suc (session_available S n))"

lemma session_lawsD:
  assumes "session_laws S"
  shows "session_take S n = None \<longleftrightarrow> session_available S n = 0"
    and "session_take S n = Some (l, n') \<Longrightarrow> session_available S n = Suc (session_available S n')"
    and "session_available S (session_return S l n) = Suc (session_available S n)"
  using assms by (simp_all add: session_laws_def)

section \<open>Configuration and storage\<close>

record sessions =
  ss_capacity :: nat
  ss_bound :: bool

definition sessions_from_count :: "nat \<Rightarrow> sessions" where
  "sessions_from_count capacity = \<lparr> ss_capacity = capacity, ss_bound = False \<rparr>"

definition sessions_new :: "('y, 'n, 'f, 'g, 'p, 'q) bind_ops \<Rightarrow> usize \<Rightarrow> nat + sessions" where
  "sessions_new B cap =
     (case count_try_from B cap of Inl e \<Rightarrow> Inl e | Inr n \<Rightarrow> Inr (sessions_from_count n))"

text \<open>\<open>Bootstrap::try_storage\<close> of \<open>src/tls/protocol.rs\<close>; \<open>cap.entries()\<close> is the count.\<close>

definition try_storage :: "nat \<Rightarrow> net_resource + sessions" where
  "try_storage entries = Inr (sessions_from_count entries)"

record 'o endpoint_config =
  ec_role :: 'o
  ec_plan :: plan

record 'o bound =
  bd_plan :: plan
  bd_role :: 'o
  bd_storage :: sessions

definition config_from_role :: "'o \<Rightarrow> 'o endpoint_config" where
  "config_from_role role = \<lparr> ec_role = role, ec_plan = plan_new \<rparr>"

definition config_bind :: "'o endpoint_config \<Rightarrow> sessions \<Rightarrow> 'o bound" where
  "config_bind c store = \<lparr> bd_plan = ec_plan c, bd_role = ec_role c, bd_storage = store \<rparr>"

definition config_with_staged :: "staged_records \<Rightarrow> 'o endpoint_config \<Rightarrow> 'o endpoint_config" where
  "config_with_staged m c = c\<lparr>ec_plan := plan_with_staged m (ec_plan c)\<rparr>"

definition config_with_send :: "usize \<Rightarrow> 'o endpoint_config \<Rightarrow> 'o endpoint_config" where
  "config_with_send m c = c\<lparr>ec_plan := plan_with_send m (ec_plan c)\<rparr>"

definition config_with_growth :: "u32 \<Rightarrow> 'o endpoint_config \<Rightarrow> 'o endpoint_config" where
  "config_with_growth warm c = c\<lparr>ec_plan := plan_with_growth warm (ec_plan c)\<rparr>"

definition config_plan :: "'o endpoint_config \<Rightarrow> plan" where
  "config_plan c = ec_plan c"

text \<open>\<open>domain::Plan::bind\<close>, whose error type is empty; the two \<open>From\<close> of a role's configuration.\<close>

definition plan_bind :: "'o endpoint_config \<Rightarrow> sessions \<Rightarrow> 'e + 'o bound" where
  "plan_bind c store = Inr (config_bind c store)"

definition config_from_client :: "('w, 'x) client_plan \<Rightarrow> ('w, 'x) client_plan endpoint_config" where
  "config_from_client plan = config_from_role plan"

definition config_from_server :: "'v \<Rightarrow> 'v endpoint_config" where
  "config_from_server config = config_from_role config"

definition config_client :: "'w \<Rightarrow> 'x \<Rightarrow> ('w, 'x) client_plan endpoint_config" where
  "config_client config name = config_from_role (client_plan_new config name)"

section \<open>Binding\<close>

definition waiters_try_new :: "('y, 'n, 'f, 'g, 'p, 'q) bind_ops \<Rightarrow> usize \<Rightarrow> alloc_error + 'q" where
  "waiters_try_new B cap = (case fifo_try_from B cap of Inl e \<Rightarrow> Inl e | Inr q \<Rightarrow> Inr q)"

text \<open>The receive pool: growing from its warm slots, or fixed.\<close>

definition bind_recv ::
    "('y, 'n, 'f, 'g, 'p, 'q) bind_ops \<Rightarrow> 'y layout \<Rightarrow> net_resource + ('f, 'g) receive" where
  "bind_recv B lay =
     (case lay_growing lay of
        Some warm \<Rightarrow>
          (case growing_try_warm B (lay_recv lay) warm of
             Inl e \<Rightarrow> Inl (ResourcePool e) | Inr g \<Rightarrow> Inr (Growing g))
      | None \<Rightarrow>
          (case fixed_try_from B (lay_recv lay) of
             Inl e \<Rightarrow> Inl (ResourceExhausted e) | Inr f \<Rightarrow> Inr (Fixed f)))"

definition bind_pools ::
    "('y, 'n, 'f, 'g, 'p, 'q) bind_ops \<Rightarrow> nat \<Rightarrow> 'y layout \<Rightarrow>
     net_resource + ('n, 'f, 'g, 'p) pools" where
  "bind_pools B capacity lay =
     (case sessions_try_new B capacity of
        Inl e \<Rightarrow> Inl (ResourceAllocation e)
      | Inr ss \<Rightarrow>
          (case bind_recv B lay of
             Inl e \<Rightarrow> Inl e
           | Inr recv \<Rightarrow>
               (case send_try_from B (lay_send lay) of
                  Inl e \<Rightarrow> Inl (ResourceExhausted e)
                | Inr send \<Rightarrow>
                    Inr \<lparr> po_sessions = ss, po_recv = recv, po_send = send \<rparr>)))"

definition try_runtime ::
    "'y layout_ops \<Rightarrow> ('y, 'n, 'f, 'g, 'p, 'q) bind_ops \<Rightarrow> limits \<Rightarrow> 'o bound \<Rightarrow>
     (net_resource + ('c, 'b, 'n, 'f, 'g, 'p, 'q, 'o) runtime) \<times> sessions" where
  "try_runtime Y B limits bd =
     (let store = bd_storage bd
      in case plan_layout Y (bd_plan bd) limits of
           Inl e \<Rightarrow> (Inl e, store)
         | Inr lay \<Rightarrow>
             if ss_bound store then (Inl AlreadyBound, store)
             else
               (case bind_pools B (ss_capacity store) lay of
                  Inl e \<Rightarrow> (Inl e, store)
                | Inr pools \<Rightarrow>
                    (case waiters_try_new B (lim_connections limits) of
                       Inl e \<Rightarrow> (Inl (ResourceQueue e), store)
                     | Inr q \<Rightarrow>
                         if ss_bound store then (Inl AlreadyBound, store)
                         else
                           (Inr \<lparr> rn_pending = None, rn_buffers = pools, rn_waiters = q,
                                  rn_role = bd_role bd \<rparr>,
                            store\<lparr>ss_bound := True\<rparr>))))"

section \<open>Serving the waiters\<close>

definition ready ::
    "('b, 's, 'p) egress_ops \<Rightarrow> ('r, 'k, 'f, 'g) ingress_ops \<Rightarrow> 'q lane_ops \<Rightarrow>
     ('c, 'b, 'n, 'f, 'g, 'p, 'q, 'o) runtime \<Rightarrow> resource option" where
  "ready E I L run =
     (let chosen =
        (if has_waiters L Recv (rn_waiters run) then Some Recv
         else if has_waiters L HandshakeEgress (rn_waiters run) \<and> pool_available E (rn_send run) \<noteq> 0
         then Some HandshakeEgress else None)
      in case chosen of
           None \<Rightarrow> None
         | Some resource \<Rightarrow> if recv_available I (rn_recv run) \<noteq> 0 then Some resource else None)"

definition is_ready ::
    "('b, 's, 'p) egress_ops \<Rightarrow> ('r, 'k, 'f, 'g) ingress_ops \<Rightarrow> 'q lane_ops \<Rightarrow>
     ('c, 'b, 'n, 'f, 'g, 'p, 'q, 'o) runtime \<Rightarrow> bool" where
  "is_ready E I L run \<longleftrightarrow> ready E I L run \<noteq> None"

definition take_ready ::
    "('b, 's, 'p) egress_ops \<Rightarrow> ('r, 'k, 'f, 'g) ingress_ops \<Rightarrow> 'q lane_ops \<Rightarrow>
     ('c, 'b, 'n, 'f, 'g, 'p, 'q, 'o) runtime \<Rightarrow>
     credit_id option \<times> ('c, 'b, 'n, 'f, 'g, 'p, 'q, 'o) runtime" where
  "take_ready E I L run =
     (case ready E I L run of
        None \<Rightarrow> (None, run)
      | Some resource \<Rightarrow>
          let (c, q) = waiters_take L resource (rn_waiters run) in (c, run\<lparr>rn_waiters := q\<rparr>))"

section \<open>Opening\<close>

text \<open>\<open>open::Outcome\<close>\<close>

datatype ('x, 'y) open_outcome = Unavailable 'x | OpenFailed 'x error | Opened 'y

definition set_sessions where
  "set_sessions ss run = run\<lparr>rn_buffers := (rn_buffers run)\<lparr>po_sessions := ss\<rparr>\<rparr>"

abbreviation rn_sessions where
  "rn_sessions run \<equiv> po_sessions (rn_buffers run)"

lemma set_sessions_simps [simp]:
  "rn_pending (set_sessions ss run) = rn_pending run"
  "rn_waiters (set_sessions ss run) = rn_waiters run"
  "rn_role (set_sessions ss run) = rn_role run"
  "rn_recv (set_sessions ss run) = rn_recv run"
  "rn_send (set_sessions ss run) = rn_send run"
  "rn_sessions (set_sessions ss run) = ss"
  by (simp_all add: set_sessions_def)

text \<open>A lease or a cached opening that is dropped goes back where it came from.\<close>

definition drop_lease where
  "drop_lease S lease run = set_sessions (session_return S lease (rn_sessions run)) run"

definition drop_pending where
  "drop_pending S E run =
     (case rn_pending run of
        None \<Rightarrow> run
      | Some (conn, store) \<Rightarrow>
          drop_lease S (conn_lease conn)
            (set_send (snd (st_release E store (rn_send run))) (run\<lparr>rn_pending := None\<rparr>)))"

definition reconfigure ::
    "'n session_ops \<Rightarrow> ('b, 's, 'p) egress_ops \<Rightarrow> ('c, 'b, 'n, 'f, 'g, 'p, 'q, 'o) runtime \<Rightarrow> 'o \<Rightarrow>
     ('c, 'b, 'n, 'f, 'g, 'p, 'q, 'o) runtime" where
  "reconfigure S E run config = (drop_pending S E run)\<lparr>rn_role := config\<rparr>"

text \<open>The cursor a role that sends on open needs at once: \<open>None\<close> where there is none to lend.\<close>

definition open_cursor ::
    "('b, 's, 'p) egress_ops \<Rightarrow> ('o, 'c) role \<Rightarrow> 'p \<Rightarrow> ('b send_state \<times> 'p) option" where
  "open_cursor E role p =
     (if send_on_open role
      then (case pool_view E p of
              None \<Rightarrow> None
            | Some (cursor, p') \<Rightarrow> Some (\<lparr> buffer = Some cursor \<rparr>, p'))
      else Some (\<lparr> buffer = None \<rparr>, p))"

text \<open>\<open>R::open(..).and_then(Connection::new)\<close>; where the role fails, the cursor is dropped unused.\<close>

definition open_parts ::
    "('c, 's) rustls \<Rightarrow> ('b, 's, 'p) egress_ops \<Rightarrow> ('o, 'c) role \<Rightarrow> 'o \<Rightarrow> lease \<Rightarrow>
     'b send_state \<Rightarrow> 'p \<Rightarrow> ((error + 'c connection \<times> 'b send_state) \<times> 'p) option" where
  "open_parts N E role config lease store p =
     (case role_open role config of
        Inl cause \<Rightarrow> Some (Inl cause, snd (st_release E store p))
      | Inr conn \<Rightarrow> connection_new N E conn lease store p)"

text \<open>The callback \<open>consume\<close> returns its output and the connection where it does not keep it.\<close>

definition hand_over ::
    "('x \<Rightarrow> 'c connection \<Rightarrow> 'b send_state \<Rightarrow> 'y \<times> ('c connection \<times> 'b send_state) option) \<Rightarrow> 'x \<Rightarrow>
     'c connection \<times> 'b send_state \<Rightarrow> ('c, 'b, 'n, 'f, 'g, 'p, 'q, 'o) runtime \<Rightarrow>
     ('x, 'y) open_outcome \<times> ('c, 'b, 'n, 'f, 'g, 'p, 'q, 'o) runtime" where
  "hand_over give context parts run =
     (case give context (fst parts) (snd parts) of
        (x, Some back_parts) \<Rightarrow> (Opened x, run\<lparr>rn_pending := Some back_parts\<rparr>)
      | (x, None) \<Rightarrow> (Opened x, run))"

definition endpoint_open ::
    "('c, 's) rustls \<Rightarrow> ('b, 's, 'p) egress_ops \<Rightarrow> 'n session_ops \<Rightarrow> ('o, 'c) role \<Rightarrow>
     ('x \<Rightarrow> 'c connection \<Rightarrow> 'b send_state \<Rightarrow> 'y \<times> ('c connection \<times> 'b send_state) option) \<Rightarrow>
     ('c, 'b, 'n, 'f, 'g, 'p, 'q, 'o) runtime \<Rightarrow> 'x \<Rightarrow>
     (('x, 'y) open_outcome \<times> ('c, 'b, 'n, 'f, 'g, 'p, 'q, 'o) runtime) option" where
  "endpoint_open N E S role give run context =
     (case rn_pending run of
        Some parts \<Rightarrow> Some (hand_over give context parts (run\<lparr>rn_pending := None\<rparr>))
      | None \<Rightarrow>
          (case session_take S (rn_sessions run) of
             None \<Rightarrow> Some (Unavailable context, run)
           | Some (lease, ss) \<Rightarrow>
               let run1 = set_sessions ss run
               in case open_cursor E role (rn_send run1) of
                    None \<Rightarrow> Some (Unavailable context, drop_lease S lease run1)
                  | Some (store, p) \<Rightarrow> do {
                      (opened, p') \<leftarrow> open_parts N E role (rn_role run) lease store p;
                      (let run2 = set_send p' run1
                       in case opened of
                            Inr parts \<Rightarrow> Some (hand_over give context parts run2)
                          | Inl BufferUnavailable \<Rightarrow>
                              Some (Unavailable context, drop_lease S lease run2)
                          | Inl cause \<Rightarrow>
                              Some (OpenFailed context cause, drop_lease S lease run2))
                    }))"

end
