(* ===== verification/Policy_Correct.thy ===== *)
theory Policy_Correct
  imports Protocol
begin

text \<open>
  A receive from its admission to its completion: slots, cursors and owed ciphertext are conserved,
  and whoever waits for what becomes free is woken, and nobody else.
\<close>

section \<open>Waking\<close>

lemma wake_in_spec:
  assumes ok: "lanes_ok L entries cap (rn_waiters run)" and run: "wake_in L k run = (evs, run')"
  shows "evs = map Retry (take 1 (waiting entries k (rn_waiters run)))"
    and "rn_buffers run' = rn_buffers run" and "rn_pending run' = rn_pending run"
    and "rn_role run' = rn_role run"
    and "lanes_ok L entries cap (rn_waiters run')"
    and "waiting entries k' (rn_waiters run') =
      drop (of_bool (k' = k)) (waiting entries k' (rn_waiters run))"
proof -
  obtain w q where t: "waiters_take L k (rn_waiters run) = (w, q)" by fastforce
  note ts = take_spec [OF ok t]
  have r: "evs = (case w of Some c \<Rightarrow> [Retry c] | None \<Rightarrow> [])" "run' = run\<lparr>rn_waiters := q\<rparr>"
    using run t by (auto simp: wake_in_def waiters_wake_def split: option.splits)
  show "evs = map Retry (take 1 (waiting entries k (rn_waiters run)))"
    using r(1) ts(2) by (cases "waiting entries k (rn_waiters run)") simp_all
  show "rn_buffers run' = rn_buffers run" "rn_pending run' = rn_pending run"
    "rn_role run' = rn_role run" "lanes_ok L entries cap (rn_waiters run')"
    "waiting entries k' (rn_waiters run') =
      drop (of_bool (k' = k)) (waiting entries k' (rn_waiters run))"
    using r(2) ts(1) ts(3) [of k'] by (auto simp: drop_Suc)
qed

section \<open>Admission\<close>

lemma st_reserve_spec:
  assumes "pool_laws E" and "st_reserve E store pool = (out, store', pool')"
  shows "case out of
      None \<Rightarrow> \<not> st_holding store \<and> store' = store \<and> pool' = pool \<and> pool_available E pool = 0
    | Some b \<Rightarrow> store' = store\<lparr>buffer := None\<rparr> \<and> cursor_bytes E b = st_as_slice E store \<and>
        Suc (pool_available E pool') = st_slots E store pool"
proof (cases "buffer store")
  case None
  show ?thesis
  proof (cases "pool_view E pool")
    case None
    with \<open>buffer store = None\<close> assms show ?thesis
      by (auto simp: st_reserve_def st_holding_def pool_lawsD(1))
  next
    case (Some v)
    then obtain b p' where v: "pool_view E pool = Some (b, p')" by (cases v) auto
    with None assms have r: "out = Some b" "store' = store\<lparr>buffer := None\<rparr>" "pool' = p'"
      by (auto simp: st_reserve_def)
    from pool_lawsD [OF assms(1)] v have "cursor_bytes E b = []"
      "pool_available E pool = Suc (pool_available E p')" by auto
    with None r show ?thesis by (simp add: st_slots_def st_holding_def st_as_slice_def)
  qed
next
  case (Some b)
  with assms(2) have "out = Some b" "store' = store\<lparr>buffer := None\<rparr>" "pool' = pool"
    by (auto simp: st_reserve_def)
  with Some show ?thesis by (simp add: st_slots_def st_holding_def st_as_slice_def)
qed

definition admitted ::
    "('c, 's) rustls \<Rightarrow> ('b, 's, 'p) egress_ops \<Rightarrow> ('r, 'k, 'f, 'g) ingress_ops \<Rightarrow> 'q lane_ops \<Rightarrow>
     ('r \<Rightarrow> bytes) \<Rightarrow> ('q \<Rightarrow> nat \<Rightarrow> (nat \<times> credit_id) list) \<Rightarrow> nat \<Rightarrow> 'c connection \<Rightarrow>
     'b send_state option \<Rightarrow> ('c, 'b, 'n, 'f, 'g, 'p, 'q, 'o) runtime \<Rightarrow> event list \<Rightarrow>
     (('c, 'b, ('c, 'b, 'n, 'f, 'g, 'p, 'q, 'o) runtime, 'r) transaction,
      ('c, 'b, ('c, 'b, 'n, 'f, 'g, 'p, 'q, 'o) runtime) parts) reserve_outcome \<Rightarrow> bool" where
  "admitted N E I L content entries cap wire send run evs oc \<longleftrightarrow>
     (case oc of
        Ready txn \<Rightarrow>
          evs = [] \<and> tn_wire txn = wire \<and> content (tn_recv txn) = [] \<and>
          recv_available I (rn_recv run) = Suc (recv_available I (rn_recv (tn_run txn))) \<and>
          rn_waiters (tn_run txn) = rn_waiters run \<and>
          (case tn_send txn of
             None \<Rightarrow> (\<not> is_handshaking N (native wire) \<or> send = None) \<and> tn_store txn = send \<and>
               rn_send (tn_run txn) = rn_send run
           | Some out \<Rightarrow> is_handshaking N (native wire) \<and>
               (\<exists>store. send = Some store \<and> tn_store txn = Some (store\<lparr>buffer := None\<rparr>) \<and>
                 cursor_bytes E out = st_as_slice E store \<and>
                 Suc (pool_available E (rn_send (tn_run txn))) = st_slots E store (rn_send run)))
      | Blocked kind (wire', send', run') \<Rightarrow>
          wire' = wire \<and> send' = send \<and> rn_send run' = rn_send run \<and>
          recv_available I (rn_recv run') = recv_available I (rn_recv run) \<and>
          (case kind of
             Recv \<Rightarrow> evs = [] \<and> recv_available I (rn_recv run) = 0 \<and>
               rn_waiters run' = rn_waiters run
           | HandshakeEgress \<Rightarrow> is_handshaking N (native wire) \<and>
               (\<exists>store. send = Some store \<and> \<not> st_holding store) \<and>
               pool_available E (rn_send run) = 0 \<and> 0 < recv_available I (rn_recv run) \<and>
               evs = map Retry (take 1 (waiting entries Recv (rn_waiters run))) \<and>
               lanes_ok L entries cap (rn_waiters run') \<and>
               waiting entries Recv (rn_waiters run') =
                 drop 1 (waiting entries Recv (rn_waiters run)) \<and>
               waiting entries HandshakeEgress (rn_waiters run') =
                 waiting entries HandshakeEgress (rn_waiters run))
      | Failed cause (wire', send', run') \<Rightarrow>
          evs = [] \<and> (\<exists>e. cause = Allocation (AllocExhausted e)) \<and> wire' = wire\<lparr>failed := True\<rparr> \<and>
          send' = send \<and> rn_send run' = rn_send run \<and> rn_waiters run' = rn_waiters run \<and>
          recv_available I (rn_recv run') = recv_available I (rn_recv run))"

lemma try_reserve_spec:
  assumes slots: "slot_laws I content" and pool: "pool_laws E"
    and ok: "lanes_ok L entries cap (rn_waiters run)"
    and res: "try_reserve N E I L wire send run = (evs, oc)"
  shows "admitted N E I L content entries cap wire send run evs oc"
proof -
  obtain r rp where rv: "recv_try_reserve I (rn_recv run) = (r, rp)" by fastforce
  note rs = recv_try_reserve_spec [OF slots]
  consider (err) e where "r = Inl e" | (full) "r = Inr None" | (got) recv where "r = Inr (Some recv)"
    by (metis option.exhaust sum.exhaust)
  then show ?thesis
  proof cases
    case err
    with rv res have "evs = []"
      "oc = Failed (Allocation (AllocExhausted e)) (wire\<lparr>failed := True\<rparr>, send, set_recv rp run)"
      by (simp_all add: try_reserve_def error_from_exhausted_def)
    with rs(2) [OF rv [unfolded err]] show ?thesis by (simp add: admitted_def)
  next
    case full
    with rv res have "evs = []" "oc = Blocked Recv (wire, send, set_recv rp run)"
      by (simp_all add: try_reserve_def)
    with rs(1) [OF rv [unfolded full]] show ?thesis by (simp add: admitted_def)
  next
    case got
    note got' = rs(3) [OF rv [unfolded got]]
    show ?thesis
    proof (cases "is_handshaking N (native wire) \<and> send \<noteq> None")
      case False
      with rv got res have "evs = []" "oc = Ready \<lparr> tn_wire = wire, tn_store = send,
          tn_send = None, tn_run = set_recv rp run, tn_recv = recv \<rparr>"
        by (cases "is_handshaking N (native wire)"; cases send; simp add: try_reserve_def)+
      with got' False show ?thesis by (simp add: admitted_def)
    next
      case True
      then obtain store where hs: "is_handshaking N (native wire) = True" "send = Some store" by auto
      obtain out store' sp where sv: "st_reserve E store (rn_send (set_recv rp run)) = (out, store', sp)"
        using prod_cases3 by blast
      note ss = st_reserve_spec [OF pool sv]
      show ?thesis
      proof (cases out)
        case (Some b)
        have "evs = []" "oc = Ready \<lparr> tn_wire = wire, tn_store = Some store',
            tn_send = Some b, tn_run = set_send sp (set_recv rp run), tn_recv = recv \<rparr>"
          using res by (simp_all add: try_reserve_def rv got hs sv [unfolded Some] Let_def
              del: set_recv_simps)
        with got' hs ss Some show ?thesis by (simp add: admitted_def)
      next
        case None
        let ?run = "set_recv (recv_return I recv rp) (set_send sp (set_recv rp run))"
        obtain evs' run' where wk: "wake_in L Recv ?run = (evs', run')" by fastforce
        have out: "evs = evs'" "oc = Blocked HandshakeEgress (wire, Some store', run')"
          using res by (simp_all add: try_reserve_def rv got hs sv [unfolded None] wk Let_def
              del: set_recv_simps set_send_simps)
        have "lanes_ok L entries cap (rn_waiters ?run)" using ok by simp
        note ws = wake_in_spec [OF this wk]
        have "rn_send run' = sp" "rn_recv run' = recv_return I recv rp"
          using ws(2) by simp_all
        with out got' hs ss None ws(1,5) ws(6) [of Recv] ws(6) [of HandshakeEgress]
          recv_return_available(1) [OF slots, of recv rp]
        show ?thesis by (simp add: admitted_def)
      qed
    qed
  qed
qed

section \<open>Completion\<close>

text \<open>The send owner inside and outside of a transaction: the ciphertext it holds and its pool slots.\<close>

definition store_bytes :: "('b, 's, 'p) egress_ops \<Rightarrow> 'b send_state option \<Rightarrow> bytes" where
  "store_bytes E store = (case store of None \<Rightarrow> [] | Some st \<Rightarrow> st_as_slice E st)"

definition store_slots :: "('b, 's, 'p) egress_ops \<Rightarrow> 'b send_state option \<Rightarrow> 'p \<Rightarrow> nat" where
  "store_slots E store pool =
     pool_available E pool + (case store of None \<Rightarrow> 0 | Some st \<Rightarrow> of_bool (st_holding st))"

definition txn_ok :: "('c, 'b, 'w, 'r) transaction \<Rightarrow> bool" where
  "txn_ok txn \<longleftrightarrow>
     (tn_send txn \<noteq> None \<longrightarrow> (\<exists>st. tn_store txn = Some st \<and> \<not> st_holding st))"

definition txn_bytes :: "('b, 's, 'p) egress_ops \<Rightarrow> ('c, 'b, 'w, 'r) transaction \<Rightarrow> bytes" where
  "txn_bytes E txn =
     (case tn_send txn of Some out \<Rightarrow> cursor_bytes E out | None \<Rightarrow> store_bytes E (tn_store txn))"

definition txn_slots where
  "txn_slots E txn =
     store_slots E (tn_store txn) (rn_send (tn_run txn)) + of_bool (tn_send txn \<noteq> None)"

text \<open>What a completion frees, and whom it wakes.\<close>

definition frees where
  "frees E rel txn =
     (if rel = RelReleased then [Recv] else []) @
     (if tn_send txn \<noteq> None \<and> txn_bytes E txn = [] then [HandshakeEgress] else [])"

definition woken ::
    "('q \<Rightarrow> nat \<Rightarrow> (nat \<times> credit_id) list) \<Rightarrow> 'q \<Rightarrow> resource list \<Rightarrow> event list" where
  "woken entries q ks = concat (map (\<lambda>k. map Retry (take 1 (waiting entries k q))) ks)"

text \<open>The send owner at the end: as it was lent, or holding the loan's cursor unless that was empty.\<close>

definition store_kept where
  "store_kept E txn store \<longleftrightarrow>
     (case tn_send txn of
        None \<Rightarrow> store = tn_store txn
      | Some _ \<Rightarrow> \<exists>st. store = Some st \<and> (st_holding st \<longleftrightarrow> st_as_slice E st \<noteq> []))"

definition given_back where
  "given_back E L entries cap available freed rel txn evs wire store run \<longleftrightarrow>
     wire = tn_wire txn \<and> store_kept E txn store \<and>
     available (rn_recv run) = available (rn_recv (tn_run txn)) + freed \<and>
     store_bytes E store = txn_bytes E txn \<and>
     store_slots E store (rn_send run) = txn_slots E txn \<and>
     evs = woken entries (rn_waiters (tn_run txn)) (frees E rel txn) \<and>
     lanes_ok L entries cap (rn_waiters run) \<and>
     (\<forall>k. waiting entries k (rn_waiters run) =
        drop (of_bool (k \<in> set (frees E rel txn))) (waiting entries k (rn_waiters (tn_run txn))))"

text \<open>The contract of a completion: dropping what the transaction holds frees \<open>freed\<close> slots.\<close>

locale completion =
  fixes inv :: "('f, 'g) receive \<Rightarrow> bool"
    and available :: "('f, 'g) receive \<Rightarrow> nat"
    and freed :: "'r \<Rightarrow> nat"
    and drop_slot :: "'r \<Rightarrow> ('f, 'g) receive \<Rightarrow> ('f, 'g) receive"
  assumes drop_available: "inv pool \<Longrightarrow> available (drop_slot r pool) = available pool + freed r"
begin

lemma release_spec:
  assumes inv: "inv (rn_recv (tn_run txn))" and curs: "cursor_laws E sb" and pool: "pool_laws E"
    and ok: "lanes_ok L entries cap (rn_waiters (tn_run txn))" and txn: "txn_ok txn"
    and res: "txn_release E L drop_slot txn rel = (evs, wire, store, run)"
  shows "given_back E L entries cap available (freed (tn_recv txn)) rel txn evs wire store run"
proof -
  define run1 where
    "run1 = set_recv (drop_slot (tn_recv txn) (rn_recv (tn_run txn))) (tn_run txn)"
  obtain evs1 run2 where r2: "(if rel = RelReleased then wake_in L Recv run1 else ([], run1)) =
      (evs1, run2)" by fastforce
  have ok1: "lanes_ok L entries cap (rn_waiters run1)" using ok by (simp add: run1_def)
  have s2: "evs1 = woken entries (rn_waiters (tn_run txn)) (if rel = RelReleased then [Recv] else [])"
    "rn_buffers run2 = rn_buffers run1" "lanes_ok L entries cap (rn_waiters run2)"
    "waiting entries k (rn_waiters run2) =
      drop (of_bool (rel = RelReleased \<and> k = Recv)) (waiting entries k (rn_waiters (tn_run txn)))" for k
    using wake_in_spec [OF ok1, of Recv evs1 run2] r2 ok1
    by (auto simp: woken_def run1_def split: if_splits)
  have avail: "available (rn_recv run1) = available (rn_recv (tn_run txn)) + freed (tn_recv txn)"
    by (simp add: run1_def drop_available [OF inv])
  have send1: "rn_send run1 = rn_send (tn_run txn)" by (simp add: run1_def)
  note unfolded = res [unfolded txn_release_def Let_def, folded run1_def, unfolded r2 prod.case]
  show ?thesis
  proof (cases "tn_send txn")
    case None
    then have "(evs, wire, store, run) = (evs1, tn_wire txn, tn_store txn, run2)"
      using unfolded by (simp split: option.splits)
    with None s2 avail send1 show ?thesis
      by (auto simp: given_back_def store_kept_def txn_bytes_def txn_slots_def frees_def woken_def)
  next
    case (Some out)
    with txn obtain st where st: "tn_store txn = Some st" "buffer st = None"
      by (auto simp: txn_ok_def st_holding_def)
    obtain free st' sp where bc: "buffered_complete E out st (rn_send run2) = (free, st', sp)"
      using prod_cases3 by blast
    have bs: "free = AvailReleased \<longleftrightarrow> cursor_bytes E out = []" "st_as_slice E st' = cursor_bytes E out"
      "st_slots E st' sp = Suc (pool_available E (rn_send run2))"
      "st_holding st' \<longleftrightarrow> st_as_slice E st' \<noteq> []"
      using bc st(2) cursor_lawsD(1) [OF curs, of out] pool_lawsD(5) [OF pool]
      by (auto simp: buffered_complete_def st_restore_def st_as_slice_def st_slots_def st_holding_def
          split: if_splits)
    obtain evs2 run4 where r4: "(if free = AvailReleased
        then wake_in L HandshakeEgress (set_send sp run2) else ([], set_send sp run2)) = (evs2, run4)"
      by fastforce
    have ok3: "lanes_ok L entries cap (rn_waiters (set_send sp run2))" using s2(3) by simp
    have s4: "evs2 = woken entries (rn_waiters (tn_run txn))
          (if free = AvailReleased then [HandshakeEgress] else [])"
      "rn_buffers run4 = rn_buffers (set_send sp run2)" "lanes_ok L entries cap (rn_waiters run4)"
      "waiting entries k (rn_waiters run4) =
        drop (of_bool (free = AvailReleased \<and> k = HandshakeEgress)) (waiting entries k (rn_waiters run2))"
      for k
      using wake_in_spec [OF ok3, of HandshakeEgress evs2 run4] r4 ok3 s2(4) [of HandshakeEgress]
      by (auto simp: woken_def split: if_splits)
    have "(evs, wire, store, run) = (evs1 @ evs2, tn_wire txn, Some st', run4)"
      using unfolded bc r4 by (simp add: Some st Let_def)
    moreover have "rn_recv run2 = rn_recv run1" "rn_send run2 = rn_send run1" by (simp_all add: s2(2))
    ultimately show ?thesis
      using Some st s2 s4 avail send1 bs
      by (auto simp: given_back_def store_kept_def txn_bytes_def txn_slots_def frees_def woken_def
          store_bytes_def store_slots_def st_slots_def st_holding_def)
  qed
qed

end

definition slot_inv ::
    "('r, 'k, 'f, 'g) ingress_ops \<Rightarrow> ('r \<Rightarrow> bytes) \<Rightarrow> ('f, 'g) receive \<Rightarrow> bool" where
  "slot_inv I content pool \<longleftrightarrow> slot_laws I content"

interpretation unread_txn: completion "slot_inv I content" "recv_available I" "\<lambda>_. 1" "recv_return I"
  by unfold_locales (simp add: slot_inv_def recv_return_available)

interpretation read_txn: completion "\<lambda>_. True" available "\<lambda>_. 0" "\<lambda>_ pool. pool"
  by unfold_locales simp

end
