(* ===== verification/Receive_Correct.thy ===== *)
theory Receive_Correct
  imports Policy_Correct
begin

text \<open>
  A receive from its transaction to what the driver is handed: the contract of the two readers, the
  run of \<open>finish\<close> after either of them, and the promise of the driver's entry points.
\<close>

section \<open>The flush at the end of a receive\<close>

lemma txn_finish_run:
  assumes laws: "wire_laws N E V sb" and txn: "txn_ok txn"
  obtains txn' where "txn_finish N E txn = Some (Inr (), txn')" and "txn_ok txn'"
    and "tn_wire txn' = (tn_wire txn)\<lparr>native := native (tn_wire txn')\<rparr>"
    and "tn_run txn' = tn_run txn" and "tn_recv txn' = tn_recv txn"
    and "tn_send txn' = None \<longleftrightarrow> tn_send txn = None" and "txn_slots E txn' = txn_slots E txn"
    and "made V (native (tn_wire txn')) = made V (native (tn_wire txn))"
    and "txn_bytes E txn' @ pend V (native (tn_wire txn')) =
      txn_bytes E txn @ pend V (native (tn_wire txn))"
    and "prefix (txn_bytes E txn) (txn_bytes E txn')"
    and "\<forall>out. tn_send txn = Some out \<longrightarrow> pend V (native (tn_wire txn')) = [] \<or>
      length (txn_bytes E txn') = cursor_spare_len E out + length (cursor_bytes E out)"
    and "rustls_duplex_laws N V \<longrightarrow> got V (native (tn_wire txn')) = got V (native (tn_wire txn)) \<and>
      unread V (native (tn_wire txn')) = unread V (native (tn_wire txn))"
    and "tn_store txn' = tn_store txn"
proof (cases "tn_send txn")
  case None
  then have "txn_finish N E txn = Some (Inr (), txn)" by (simp add: txn_finish_def)
  with that [of txn] txn None show thesis by simp
next
  case (Some out)
  obtain wire out' where run: "emit_into N E (tn_wire txn) out = Some (Inr (), wire, out')"
    and em: "emitted N E V (tn_wire txn) out wire out'"
    using emit_into_emitted [OF laws] by blast
  have duplex: "got V (native wire) = got V (native (tn_wire txn)) \<and>
      unread V (native wire) = unread V (native (tn_wire txn))" if dl: "rustls_duplex_laws N V"
  proof -
    have g: "got V (native wire) = got V (native (tn_wire txn))"
      using emit_into_keeps [where f = "got V", OF _ run] dl by (simp add: rustls_duplex_laws_def)
    moreover have "nread V (native wire) = nread V (native (tn_wire txn))"
      using emit_into_keeps [where f = "nread V", OF _ run] dl by (simp add: rustls_duplex_laws_def)
    ultimately show ?thesis by (simp add: unread_def)
  qed
  let ?txn = "txn\<lparr>tn_wire := wire, tn_send := Some out'\<rparr>"
  have "txn_finish N E txn = Some (Inr (), ?txn)" by (simp add: txn_finish_def Some run)
  moreover have "txn_ok ?txn" using txn Some by (simp add: txn_ok_def)
  moreover have "wire = (tn_wire txn)\<lparr>native := native wire\<rparr>" using em by (simp add: emitted_def)
  ultimately show thesis
    using that [of ?txn] em duplex Some
    by (simp add: emitted_def txn_bytes_def txn_slots_def) linarith
qed

text \<open>The plaintext is untouched by \<open>finish\<close>; what it hands over is decided by the read alone.\<close>

definition read_outcome :: "'a \<Rightarrow> error + unit \<Rightarrow> bool \<Rightarrow> 'a processed" where
  "read_outcome output result closed =
     (case result of
        Inl cause \<Rightarrow> Terminal output cause
      | Inr _ \<Rightarrow> if closed then EofOutput output else Output output)"

definition finished where
  "finished E V L entries cap I txn evs wire store run \<longleftrightarrow>
     wire = (tn_wire txn)\<lparr>native := native wire\<rparr> \<and> store_kept E txn store \<and>
     made V (native wire) = made V (native (tn_wire txn)) \<and>
     store_bytes E store @ pend V (native wire) = txn_bytes E txn @ pend V (native (tn_wire txn)) \<and>
     (\<forall>out. tn_send txn = Some out \<longrightarrow> pend V (native wire) = [] \<or>
       length (store_bytes E store) = cursor_spare_len E out + length (cursor_bytes E out)) \<and>
     store_slots E store (rn_send run) = txn_slots E txn \<and>
     recv_available I (rn_recv run) = recv_available I (rn_recv (tn_run txn)) \<and>
     (let freed = (if tn_recv txn = RelReleased then [Recv] else []) @
                  (if tn_send txn \<noteq> None \<and> store_bytes E store = [] then [HandshakeEgress] else [])
      in evs = woken entries (rn_waiters (tn_run txn)) freed \<and>
         lanes_ok L entries cap (rn_waiters run) \<and>
         (\<forall>k. waiting entries k (rn_waiters run) =
            drop (of_bool (k \<in> set freed)) (waiting entries k (rn_waiters (tn_run txn)))))"

lemma finish_read_run:
  assumes laws: "wire_laws N E V sb" and txn: "txn_ok txn"
    and ok: "lanes_ok L entries cap (rn_waiters (tn_run txn))"
  obtains evs wire store run where
    "finish_read N E L txn output result =
      Some (read_outcome output result (peer_closed (tn_wire txn)), evs, wire, store, run)"
    and "finished E V L entries cap I txn evs wire store run"
    and "rustls_duplex_laws N V \<longrightarrow> got V (native wire) = got V (native (tn_wire txn)) \<and>
      unread V (native wire) = unread V (native (tn_wire txn))"
proof -
  from laws txn obtain txn' where fin: "txn_finish N E txn = Some (Inr (), txn')" "txn_ok txn'"
    "tn_wire txn' = (tn_wire txn)\<lparr>native := native (tn_wire txn')\<rparr>"
    "tn_run txn' = tn_run txn" "tn_recv txn' = tn_recv txn"
    "tn_send txn' = None \<longleftrightarrow> tn_send txn = None" "txn_slots E txn' = txn_slots E txn"
    "made V (native (tn_wire txn')) = made V (native (tn_wire txn))"
    "txn_bytes E txn' @ pend V (native (tn_wire txn')) =
      txn_bytes E txn @ pend V (native (tn_wire txn))"
    "prefix (txn_bytes E txn) (txn_bytes E txn')"
    "\<forall>out. tn_send txn = Some out \<longrightarrow> pend V (native (tn_wire txn')) = [] \<or>
      length (txn_bytes E txn') = cursor_spare_len E out + length (cursor_bytes E out)"
    "rustls_duplex_laws N V \<longrightarrow> got V (native (tn_wire txn')) = got V (native (tn_wire txn)) \<and>
      unread V (native (tn_wire txn')) = unread V (native (tn_wire txn))"
    "tn_store txn' = tn_store txn"
    by (rule txn_finish_run)
  have peer: "peer_closed (tn_wire txn') = peer_closed (tn_wire txn)"
    using fin(3) by (metis connection.select_convs(2) connection.surjective connection.update_convs(1))
  obtain evs wire store run where cmp: "complete_read E L txn' = (evs, wire, store, run)"
    using prod_cases4 by blast
  have ok': "lanes_ok L entries cap (rn_waiters (tn_run txn'))" using ok fin(4) by simp
  note ret = read_txn.release_spec [OF TrueI wire_lawsD(1) [OF laws] wire_lawsD(2) [OF laws] ok' fin(2)
      cmp [unfolded complete_read_def], of "recv_available I", unfolded given_back_def frees_def]
  have "finish_read N E L txn output result =
      Some (read_outcome output result (peer_closed (tn_wire txn)), evs, wire, store, run)"
    by (simp add: finish_read_def fin(1) cmp is_peer_done_def peer read_outcome_def
        split: sum.split)
  moreover have "store_kept E txn' store = store_kept E txn store"
    using fin(6,13) by (auto simp: store_kept_def split: option.split)
  then have "finished E V L entries cap I txn evs wire store run"
    using ret fin by (simp add: finished_def)
  moreover have "wire = tn_wire txn'" using ret by blast
  ultimately show thesis using that fin(12) by simp
qed

section \<open>The contract of a reader\<close>

text \<open>
  A read of the ingress from a connection ready for it (\<open>pre\<close>) returns and keeps \<open>read_ok\<close>; \<open>holds\<close>
  is what it promises of its output, and it depends on the plaintext received only.
\<close>

locale reader =
  fixes I :: "('r, 'k, 'f, 'g) ingress_ops" and V :: "'c rustls_view"
    and pre :: "'c connection \<Rightarrow> 'r \<Rightarrow> bool"
    and read :: "('c, 'r) ingress \<Rightarrow> ('f, 'g) receive \<Rightarrow>
        ('a \<times> (error + unit) \<times> release \<times> 'c connection \<times> ('f, 'g) receive) option"
    and holds :: "'c connection \<Rightarrow> 'a \<Rightarrow> error + unit \<Rightarrow> release \<Rightarrow> 'c connection \<Rightarrow> bool"
  assumes reads: "pre conn slot \<Longrightarrow> \<exists>output result rel conn' pool'.
      read (ingress_new conn slot) pool = Some (output, result, rel, conn', pool') \<and>
      holds conn output result rel conn' \<and> read_ok I V conn pool result rel conn' pool'"
    and holds_plain: "holds conn output result rel conn' \<Longrightarrow>
      got V (native conn'') = got V (native conn') \<Longrightarrow>
      unread V (native conn'') = unread V (native conn') \<Longrightarrow> holds conn output result rel conn''"

text \<open>
  A receive done: what is handed over follows from the read; the ciphertext produced by it is owed
  behind what was owed before, and is in the send owner as far as the cursor of a handshake takes it;
  no slot is lost, and exactly the first waiters for what became free are retried.
\<close>

definition receive_done where
  "receive_done E V L entries cap I txn output result rel r evs wire store run \<longleftrightarrow>
     r = read_outcome output result (peer_closed wire) \<and>
     recv_available I (rn_recv run) + of_bool (rel = RelRetained) =
       Suc (recv_available I (rn_recv (tn_run txn))) \<and>
     store_slots E store (rn_send run) = txn_slots E txn \<and> store_kept E txn store \<and>
     failed wire = (failed (tn_wire txn) \<or> is_err result) \<and>
     local_closed wire = local_closed (tn_wire txn) \<and> latch_le (tn_wire txn) wire \<and>
     (result = Inr () \<longrightarrow> unread V (native wire) = []) \<and>
     (\<exists>d. made V (native wire) = made V (native (tn_wire txn)) @ d \<and>
        store_bytes E store @ pend V (native wire) =
          txn_bytes E txn @ pend V (native (tn_wire txn)) @ d) \<and>
     (\<forall>out. tn_send txn = Some out \<longrightarrow> pend V (native wire) = [] \<or>
        length (store_bytes E store) = cursor_spare_len E out + length (cursor_bytes E out)) \<and>
     (let freed = (if rel = RelReleased then [Recv] else []) @
                  (if tn_send txn \<noteq> None \<and> store_bytes E store = [] then [HandshakeEgress] else [])
      in evs = woken entries (rn_waiters (tn_run txn)) freed \<and>
         lanes_ok L entries cap (rn_waiters run) \<and>
         (\<forall>k. waiting entries k (rn_waiters run) =
            drop (of_bool (k \<in> set freed)) (waiting entries k (rn_waiters (tn_run txn)))))"

lemma receive_doneI:
  assumes ok: "read_ok I V (tn_wire txn) (rn_recv (tn_run txn)) result rel wire1 pool"
    and txn1: "txn1 = \<lparr> tn_wire = wire1, tn_store = tn_store txn, tn_send = tn_send txn,
      tn_run = set_recv pool (tn_run txn), tn_recv = rel \<rparr>"
    and fin: "finished E V L entries cap I txn1 evs wire store run"
    and plain: "unread V (native wire) = unread V (native wire1)"
  shows "receive_done E V L entries cap I txn output result rel
    (read_outcome output result (peer_closed wire1)) evs wire store run"
proof -
  have same: "txn_bytes E txn1 = txn_bytes E txn" "txn_slots E txn1 = txn_slots E txn"
    "store_kept E txn1 store = store_kept E txn store"
    by (simp_all add: txn1 txn_bytes_def txn_slots_def store_kept_def split: option.split)
  have wire: "wire = wire1\<lparr>native := native wire\<rparr>" using fin by (simp add: finished_def txn1)
  have flags: "peer_closed wire = peer_closed wire1" "failed wire = failed wire1"
    "local_closed wire = local_closed wire1" "latch_le wire1 wire"
    by (subst wire; simp)+
  obtain d where "made V (native wire1) = made V (native (tn_wire txn)) @ d"
    "pend V (native wire1) = pend V (native (tn_wire txn)) @ d"
    using ok by (auto simp: read_ok_def produces_def)
  then have "\<exists>d. made V (native wire) = made V (native (tn_wire txn)) @ d \<and>
      store_bytes E store @ pend V (native wire) =
        txn_bytes E txn @ pend V (native (tn_wire txn)) @ d"
    using fin same by (auto simp: finished_def txn1)
  moreover have "latch_le (tn_wire txn) wire"
    using ok flags(4) latch_le_trans by (auto simp: read_ok_def)
  ultimately show ?thesis
    using fin ok flags same plain
    by (simp add: receive_done_def finished_def read_ok_def txn1)
qed

context reader
begin

lemma receive_run:
  assumes laws: "wire_laws N E V sb" and duplex: "rustls_duplex_laws N V" and txn: "txn_ok txn"
    and ok: "lanes_ok L entries cap (rn_waiters (tn_run txn))"
    and pre: "pre (tn_wire txn) (tn_recv txn)"
  shows "\<exists>x result rel r evs wire store run.
    do { (txn', x, result) \<leftarrow> txn_read read txn; finish_read N E L txn' x result } =
      Some (r, evs, wire, store, run) \<and>
    holds (tn_wire txn) x result rel wire \<and>
    receive_done E V L entries cap I txn x result rel r evs wire store run"
proof -
  obtain x result rel wire1 pool where
    rd: "read (ingress_new (tn_wire txn) (tn_recv txn)) (rn_recv (tn_run txn)) =
      Some (x, result, rel, wire1, pool)"
    and holds: "holds (tn_wire txn) x result rel wire1"
    and rok: "read_ok I V (tn_wire txn) (rn_recv (tn_run txn)) result rel wire1 pool"
    using reads [OF pre] by blast
  define txn1 where "txn1 = \<lparr> tn_wire = wire1, tn_store = tn_store txn, tn_send = tn_send txn,
      tn_run = set_recv pool (tn_run txn), tn_recv = rel \<rparr>"
  have "txn_ok txn1" "lanes_ok L entries cap (rn_waiters (tn_run txn1))"
    using txn ok by (simp_all add: txn1_def txn_ok_def)
  from laws this obtain evs wire store run where
    fin: "finish_read N E L txn1 x result =
      Some (read_outcome x result (peer_closed (tn_wire txn1)), evs, wire, store, run)"
    and finished: "finished E V L entries cap I txn1 evs wire store run"
    and plain: "rustls_duplex_laws N V \<longrightarrow> got V (native wire) = got V (native (tn_wire txn1)) \<and>
      unread V (native wire) = unread V (native (tn_wire txn1))"
    by (rule finish_read_run)
  have same: "got V (native wire) = got V (native wire1)" "unread V (native wire) = unread V (native wire1)"
    using plain duplex by (simp_all add: txn1_def)
  note receive_doneI [OF rok txn1_def finished same(2), of x]
  moreover have "holds (tn_wire txn) x result rel wire"
    using holds_plain [OF holds same] .
  moreover have "do { (txn', x, result) \<leftarrow> txn_read read txn; finish_read N E L txn' x result } =
      Some (read_outcome x result (peer_closed wire1), evs, wire, store, run)"
    using fin by (simp add: txn_read_def rd txn1_def)
  ultimately show ?thesis by blast
qed

end

text \<open>A connection ready for a read into a slot: the slot is empty and the reader drained.\<close>

definition read_ready ::
    "('c, 's) rustls \<Rightarrow> ('r, 'k, 'f, 'g) ingress_ops \<Rightarrow> 'c rustls_view \<Rightarrow> ('r \<Rightarrow> bytes) \<Rightarrow>
     'c connection \<Rightarrow> 'r \<Rightarrow> bool" where
  "read_ready N I V content conn slot \<longleftrightarrow>
     recv_laws N I V content \<and> content slot = [] \<and> unread V (native conn) = []"

lemma batch_holds_plain:
  "batch_holds I V conn b rel conn' \<Longrightarrow> got V (native conn'') = got V (native conn') \<Longrightarrow>
     unread V (native conn'') = unread V (native conn') \<Longrightarrow> batch_holds I V conn b rel conn''"
  unfolding batch_holds_def by simp

lemma stream_holds_plain:
  "stream_holds I G taken cap V conn x result rel conn' \<Longrightarrow>
     got V (native conn'') = got V (native conn') \<Longrightarrow>
     unread V (native conn'') = unread V (native conn') \<Longrightarrow>
     stream_holds I G taken cap V conn x result rel conn''"
  unfolding stream_holds_def by (cases x) simp_all

interpretation batch_reader: reader I V "read_ready N I V content"
    "\<lambda>input. read_batch N I input bs" "\<lambda>conn b _ rel conn'. batch_holds I V conn b rel conn'"
  for N :: "('c, 's) rustls" and I :: "('r, 'k, 'f, 'g) ingress_ops" and V content bs
  using read_batch_run [of N I V content] batch_holds_plain
  by unfold_locales (auto simp: read_ready_def, blast)

interpretation stream_reader: reader I V
    "\<lambda>conn slot. read_ready N I V content conn slot \<and> stream_laws I G taken cap"
    "\<lambda>input. retain N I G input bs" "stream_holds I G taken cap V"
  for N :: "('c, 's) rustls" and I :: "('r, 'k, 'f, 'g) ingress_ops" and V content bs
    and G :: "('k, 'h) segment_ops" and taken cap
  using retain_run [of N I V content _ _ G taken cap] stream_holds_plain
  by unfold_locales (auto simp: read_ready_def, blast)

section \<open>Properties\<close>

text \<open>
  C20. Admission is exact on every outcome: a ready transaction holds one empty slot taken from the
  pool and, exactly for a handshaking connection with a send owner, the cursor that owner held or one
  borrowed; a receive is blocked only where the resource it then waits for is exhausted, with nothing
  lost, and one that waits for egress gives its slot to the first receive waiter; an allocation
  failure raises \<open>failed\<close> and changes nothing else.
\<close>

theorem try_reserve_admits:
  assumes "slot_laws I content" and "pool_laws E" and "lanes_ok L entries cap (rn_waiters run)"
    and "try_reserve N E I L wire send run = (evs, res)"
  shows "admitted N E I L content entries cap wire send run evs res"
  using try_reserve_spec [OF assms] .

text \<open>
  C21. A receive of borrowed plaintext is exact from end to end: \<open>process\<close> returns; the batch holds
  exactly the plaintext authenticated from the input; a failure is the read's own, end of file is
  reported exactly for a peer that closed; the ciphertext the read produced is owed behind all that
  was owed before, and flushed into the cursor of a handshake as far as it goes; every slot is
  accounted for; and exactly the first waiters for what became free are retried.
\<close>

theorem process_exact:
  assumes "wire_laws N E V sb" and "rustls_duplex_laws N V" and "txn_ok txn"
    and "lanes_ok L entries cap (rn_waiters (tn_run txn))"
    and "read_ready N I V content (tn_wire txn) (tn_recv txn)"
  shows "\<exists>b result rel r evs wire store run.
    ingress_process N E I L txn bs = Some (r, evs, wire, store, run) \<and>
    batch_holds I V (tn_wire txn) b rel wire \<and>
    receive_done E V L entries cap I txn b result rel r evs wire store run"
  unfolding ingress_process_def by (rule batch_reader.receive_run [OF assms])

text \<open>
  C22. A receive of a leased input keeps the same promise with a retained stream as its output, which
  holds exactly that plaintext unless its length passes the transfer bound.
\<close>

theorem read_lease_exact:
  assumes "wire_laws N E V sb" and "rustls_duplex_laws N V" and "txn_ok txn"
    and "lanes_ok L entries cap (rn_waiters (tn_run txn))"
    and "read_ready N I V content (tn_wire txn) (tn_recv txn)" and "stream_laws I G taken bound"
  shows "\<exists>stream result rel r evs wire store run.
    read_lease N E I G L txn bs = Some (r, evs, wire, store, run) \<and>
    stream_holds I G taken bound V (tn_wire txn) stream result rel wire \<and>
    receive_done E V L entries cap I txn stream result rel r evs wire store run"
  unfolding read_lease_def
  by (rule stream_reader.receive_run [OF assms(1-4) conjI [OF assms(5,6)]])

lemma eof_run:
  assumes "rustls_in_laws N V" and "ingress_eof N wire = (r, wire')"
  shows "got V (native wire') = got V (native wire) \<and>
    unread V (native wire') = unread V (native wire) \<and>
    wire' = wire\<lparr>native := native wire', failed := failed wire'\<rparr> \<and>
    (case r of
       Output _ \<Rightarrow> unread V (native wire') = [] \<and> failed wire' = failed wire
     | EofOutput _ \<Rightarrow> False
     | Terminal _ cause \<Rightarrow>
         (cause = InvalidBufferProgress \<and> unread V (native wire') \<noteq> [] \<and>
            failed wire' = failed wire) \<or>
         (\<exists>e. cause = Io e \<and>
            (failed wire' \<noteq> failed wire \<longrightarrow> reader_fill_buf N (native wire') = Inl e)))"
proof -
  note laws = rustls_in_lawsD [OF assms(1)]
  obtain q c where rd: "read_tls N (native wire) [] = (q, c)" by fastforce
  have same: "got V c = got V (native wire)" "unread V c = unread V (native wire)"
    using laws(2) [OF rd] by (simp_all add: unread_def)
  note run = assms(2) [unfolded ingress_eof_def peer_eof_def rd prod.case]
  show ?thesis
  proof (cases q)
    case (Inl e)
    with run same show ?thesis by (auto simp: error_from_io_def)
  next
    case (Inr n)
    note run = run [unfolded Inr sum.case]
    show ?thesis
    proof (cases "reader_fill_buf N c")
      case Inl
      with run same show ?thesis by auto
    next
      case (Inr p)
      show ?thesis
      proof (cases p)
        case Nil
        with Inr run same laws(7) [of c] show ?thesis by auto
      next
        case (Cons b p')
        with laws(6) [OF Inr] have "unread V c \<noteq> []" by auto
        with Cons Inr run same show ?thesis by auto
      qed
    qed
  qed
qed

text \<open>
  C23. End of file is accepted only when no authenticated byte is unread, and then changes no flag;
  anything else is a terminal failure, with \<open>InvalidBufferProgress\<close> where plaintext was left behind,
  and \<open>failed\<close> is raised for no other cause than the reader's own error, as for a truncated stream.
  No plaintext is lost, and the flags of closing stay as they were.
\<close>

theorem eof_reports:
  assumes "rustls_in_laws N V" and "ingress_eof N wire = (r, wire')"
  shows "got V (native wire') = got V (native wire) \<and>
    unread V (native wire') = unread V (native wire) \<and>
    wire' = wire\<lparr>native := native wire', failed := failed wire'\<rparr> \<and>
    (case r of
       Output _ \<Rightarrow> unread V (native wire') = [] \<and> failed wire' = failed wire
     | EofOutput _ \<Rightarrow> False
     | Terminal _ cause \<Rightarrow>
         (cause = InvalidBufferProgress \<and> unread V (native wire') \<noteq> [] \<and>
            failed wire' = failed wire) \<or>
         (\<exists>e. cause = Io e \<and>
            (failed wire' \<noteq> failed wire \<longrightarrow> reader_fill_buf N (native wire') = Inl e)))"
  by (rule eof_run [OF assms])

section \<open>Witnesses\<close>

text \<open>A worker with a growing pool of two slots, one send cursor, and a waiter for receive slots.\<close>

definition ref_waiter :: credit_id where
  "ref_waiter = \<lparr> id_slot = 1, id_key = 7 \<rparr>"

definition ref_run where
  "ref_run = \<lparr> rn_pending = (None :: (ref_conn connection \<times> ref_cursor send_state) option),
     rn_buffers = \<lparr> po_sessions = (), po_recv = (Growing 2 :: (nat, nat) receive),
                    po_send = ((1, 4) :: ref_pool) \<rparr>,
     rn_waiters = (\<lambda>_ :: nat. [])(0 := [(1 :: nat, ref_waiter)]), rn_role = () \<rparr>"

definition ref_wire :: "ref_conn connection" where
  "ref_wire = ref_rx_conn\<lparr>native := (native ref_rx_conn)\<lparr>rc_handshaking := True\<rparr>\<rparr>"

lemma ref_run_lanes: "lanes_ok ref_lanes id 4 (rn_waiters ref_run)"
  by (auto simp: lanes_ok_def ref_lanes_laws ref_run_def ref_waiter_def split: if_splits)

definition ref_txn where
  "ref_txn = \<lparr> tn_wire = ref_wire, tn_store = Some \<lparr> buffer = None \<rparr>,
     tn_send = Some (([], 5) :: ref_cursor), tn_run = set_send (0, 4) (set_recv (Growing 1) ref_run),
     tn_recv = ([] :: bytes) \<rparr>"

lemma ref_txn_ok: "txn_ok ref_txn" "lanes_ok ref_lanes id 4 (rn_waiters (tn_run ref_txn))"
  "read_ready ref_rustls ref_ingress ref_view id (tn_wire ref_txn) (tn_recv ref_txn)"
  using ref_run_lanes ref_rx_conn_rest(1)
  by (simp_all add: ref_txn_def txn_ok_def st_holding_def read_ready_def ref_recv_laws ref_wire_def
      ref_unread ref_queue_def)

theorem try_reserve_admits_witness:
  "\<exists>txn. try_reserve (ref_rustls :: (ref_conn, ref_cursor) rustls) ref_egress ref_ingress ref_lanes
     ref_wire (Some \<lparr> buffer = None \<rparr>) ref_run = ([], Ready txn) \<and>
   recv_available ref_ingress (rn_recv (tn_run txn)) = 1 \<and>
   pool_available ref_egress (rn_send (tn_run txn)) = 0"
proof -
  have run: "try_reserve (ref_rustls :: (ref_conn, ref_cursor) rustls) ref_egress ref_ingress ref_lanes
      ref_wire (Some \<lparr> buffer = None \<rparr>) ref_run = ([], Ready ref_txn)"
    by (simp add: try_reserve_def ref_run_def ref_ingress_def ref_wire_def ref_rustls_def
        st_reserve_def ref_egress_def ref_txn_def numeral_2_eq_2 set_recv_def set_send_def)
  have "recv_available ref_ingress (rn_recv ref_run) =
      Suc (recv_available ref_ingress (rn_recv (tn_run ref_txn))) \<and>
    Suc (pool_available ref_egress (rn_send (tn_run ref_txn))) =
      st_slots ref_egress \<lparr> buffer = None \<rparr> (rn_send ref_run)"
    using try_reserve_admits [OF ref_slot_laws ref_pool_laws ref_run_lanes run]
    by (simp add: admitted_def ref_txn_def)
  with run show ?thesis
    by (simp add: ref_run_def ref_ingress_def ref_egress_def st_slots_def st_holding_def)
qed

theorem process_exact_witness:
  "\<exists>b r evs wire store run. ingress_process (ref_rustls :: (ref_conn, ref_cursor) rustls)
      ref_egress ref_ingress ref_lanes ref_txn [6, 2, 7, 8] = Some (r, evs, wire, store, run) \<and>
     got ref_view (native wire) = concat (map (item_bytes ref_ingress) (batch_items b)) @
       unread ref_view (native wire) \<and>
     store_slots ref_egress store (rn_send run) = 1"
  using process_exact [OF ref_wire_laws ref_rustls_duplex_laws ref_txn_ok, of "[6, 2, 7, 8]"]
  by (fastforce simp: batch_holds_def receive_done_def ref_txn_def ref_wire_def ref_rx_conn_def
      ref_view_def ref_idle_def ref_queue_def txn_slots_def store_slots_def st_holding_def
      ref_egress_def)

theorem read_lease_exact_witness:
  "\<exists>r evs wire store run. read_lease (ref_rustls :: (ref_conn, ref_cursor) rustls)
      ref_egress ref_ingress ref_segment ref_lanes ref_txn [6, 2, 7, 8] =
        Some (r, evs, wire, store, run) \<and>
     store_slots ref_egress store (rn_send run) = 1"
  using read_lease_exact [OF ref_wire_laws ref_rustls_duplex_laws ref_txn_ok ref_stream_laws,
      of "[6, 2, 7, 8]"]
  by (fastforce simp: receive_done_def ref_txn_def txn_slots_def store_slots_def st_holding_def
      ref_egress_def)

theorem eof_reports_witness:
  "\<exists>r wire'. ingress_eof (ref_rustls :: (ref_conn, unit) rustls) ref_rx_conn = (r, wire') \<and>
     unread ref_view (native wire') = []"
  using eof_reports [OF ref_rustls_in_laws, of ref_rx_conn] ref_rx_conn_rest(1)
  by (metis old.prod.exhaust)

end
