(* ===== verification/Endpoint_Correct.thy ===== *)
theory Endpoint_Correct
  imports Endpoint Receive_Correct
begin

text \<open>
  What a worker's endpoint promises: storage is bound once, a connection is opened with all of its
  resources or none, and a waiter is served whenever what it waits for is there.
\<close>

section \<open>Opening a connection\<close>

text \<open>A connection as \<open>Connection::new\<close> makes it: no flag raised, all its output owed, no idle cursor.\<close>

definition fresh_parts where
  "fresh_parts E V c lease store p conn store' p' \<longleftrightarrow>
     \<not> peer_closed conn \<and> \<not> local_closed conn \<and> \<not> failed conn \<and> conn_lease conn = lease \<and>
     made V (native conn) = made V c \<and>
     st_as_slice E store' @ pend V (native conn) = st_as_slice E store @ pend V c \<and>
     (st_holding store' \<longleftrightarrow> st_as_slice E store' \<noteq> []) \<and> st_slots E store' p' = st_slots E store p"

lemma connection_new_run:
  assumes laws: "wire_laws N E V sb"
  shows "if buffer store = None \<and> wants_write N c
    then connection_new N E c lease store p = Some (Inl BufferUnavailable, p)
    else \<exists>conn store' p'. connection_new N E c lease store p = Some (Inr (conn, store'), p') \<and>
      fresh_parts E V c lease store p conn store' p'"
proof -
  define conn where "conn = \<lparr> native = c, peer_closed = False, local_closed = False,
      failed = False, conn_lease = lease \<rparr>"
  note new = connection_new_def [of N E c lease store p, folded conn_def, unfolded Let_def]
  have dropped: "fst (st_drop_empty E st q) = (if st_as_slice E st = [] then st\<lparr>buffer := None\<rparr> else st)"
    "st_slots E (fst (st_drop_empty E st q)) (snd (st_drop_empty E st q)) = st_slots E st q"
    "st_as_slice E (fst (st_drop_empty E st q)) = st_as_slice E st" for st q
    using send_store.drop_spec [OF wire_st_inv [OF laws], of st q]
      cursor_lawsD(1) [OF wire_lawsD(1) [OF laws]]
    by (auto simp: st_drop_empty_def st_free_empty_def st_as_slice_def st_slots_def st_holding_def
        split: option.splits if_splits)
  show ?thesis
  proof (cases "buffer store")
    case None
    obtain st' p' where dr: "st_drop_empty E store p = (st', p')" by fastforce
    have "fresh_parts E V c lease store p conn st' p'"
      using dropped [of store p] dr None
      by (auto simp: fresh_parts_def conn_def st_holding_def st_as_slice_def)
    with None dr new show ?thesis by (auto simp: conn_def)
  next
    case (Some out)
    obtain conn' out' where em: "emit_into N E conn out = Some (Inr (), conn', out')"
      and emd: "emitted N E V conn out conn' out'"
      using emit_into_emitted [OF laws] by blast
    obtain st' p' where dr: "st_drop_empty E (st_put out' store) p = (st', p')" by fastforce
    have "connection_new N E c lease store p = Some (Inr (conn', st'), p')"
      by (simp add: new Some em dr)
    moreover obtain c' where c': "conn' = conn\<lparr>native := c'\<rparr>" using emd unfolding emitted_def by blast
    have "made V c' = made V c" "cursor_bytes E out' @ pend V c' = cursor_bytes E out @ pend V c"
      using emd by (simp_all add: emitted_def c' conn_def)
    then have "fresh_parts E V c lease store p conn' st' p'"
      using dropped [of "st_put out' store" p] dr Some
      by (auto simp: fresh_parts_def c' conn_def st_put_def st_as_slice_def st_slots_def
          st_holding_def split: if_splits)
    ultimately show ?thesis using Some by auto
  qed
qed

text \<open>The same of a connection opened with an empty cursor or none.\<close>

definition fresh_conn where
  "fresh_conn E V c conn store \<longleftrightarrow>
     \<not> peer_closed conn \<and> \<not> local_closed conn \<and> \<not> failed conn \<and>
     made V (native conn) = made V c \<and> st_as_slice E store @ pend V (native conn) = pend V c \<and>
     (st_holding store \<longleftrightarrow> st_as_slice E store \<noteq> [])"

text \<open>What a worker has of sessions and of send slots, free or with its cached opening.\<close>

definition session_slots where
  "session_slots S run = session_available S (rn_sessions run) + of_bool (rn_pending run \<noteq> None)"

definition worker_slots where
  "worker_slots E run = store_slots E (map_option snd (rn_pending run)) (rn_send run)"

text \<open>
  An opening, on every outcome: nothing is open where it says so and then nothing is spent; the
  connection handed over holds its session and its cursor, and the callback's leftover is cached.
\<close>

definition opens where
  "opens E V S role give run ctx oc run' \<longleftrightarrow>
     rn_recv run' = rn_recv run \<and> rn_waiters run' = rn_waiters run \<and> rn_role run' = rn_role run \<and>
     (case oc of
        Unavailable x \<Rightarrow> x = ctx \<and> rn_pending run = None \<and> rn_pending run' = None \<and>
          session_slots S run' = session_slots S run \<and> worker_slots E run' = worker_slots E run \<and>
          (session_available S (rn_sessions run) = 0 \<or>
           send_on_open role \<and> pool_available E (rn_send run) = 0)
      | OpenFailed x cause \<Rightarrow> x = ctx \<and> rn_pending run = None \<and> rn_pending run' = None \<and>
          session_slots S run' = session_slots S run \<and> worker_slots E run' = worker_slots E run \<and>
          role_open role (rn_role run) = Inl cause
      | Opened x \<Rightarrow> \<exists>conn store. give ctx conn store = (x, rn_pending run') \<and>
          Suc (session_available S (rn_sessions run')) = session_slots S run \<and>
          store_slots E (Some store) (rn_send run') = worker_slots E run \<and>
          (case rn_pending run of
             Some parts \<Rightarrow> parts = (conn, store)
           | None \<Rightarrow> \<exists>c. role_open role (rn_role run) = Inr c \<and> fresh_conn E V c conn store))"

lemma hand_over_simps:
  "fst (hand_over give ctx parts run) = Opened (fst (give ctx (fst parts) (snd parts)))"
  "rn_pending run = None \<Longrightarrow>
     rn_pending (snd (hand_over give ctx parts run)) = snd (give ctx (fst parts) (snd parts))"
  "rn_buffers (snd (hand_over give ctx parts run)) = rn_buffers run"
  "rn_waiters (snd (hand_over give ctx parts run)) = rn_waiters run"
  "rn_role (snd (hand_over give ctx parts run)) = rn_role run"
  by (simp_all add: hand_over_def split: prod.split option.split)

lemma drop_lease_simps [simp]:
  "rn_pending (drop_lease S l run) = rn_pending run" "rn_waiters (drop_lease S l run) = rn_waiters run"
  "rn_role (drop_lease S l run) = rn_role run" "rn_recv (drop_lease S l run) = rn_recv run"
  "rn_send (drop_lease S l run) = rn_send run"
  "rn_sessions (drop_lease S l run) = session_return S l (rn_sessions run)"
  by (simp_all add: drop_lease_def)

text \<open>The cursor and the connection a role opens with.\<close>

lemma open_cursor_spec:
  assumes "pool_laws E"
  shows "case open_cursor E role p of
      None \<Rightarrow> send_on_open role \<and> pool_available E p = 0
    | Some (store, p') \<Rightarrow> st_as_slice E store = [] \<and> st_slots E store p' = pool_available E p \<and>
        (st_holding store \<longleftrightarrow> send_on_open role)"
  using pool_lawsD [OF assms]
  by (auto simp: open_cursor_def st_slots_def st_holding_def st_as_slice_def split: option.split)

text \<open>The two ways to hand a connection over: the cached one, and one just opened.\<close>

lemma opens_cached:
  assumes "rn_pending run = Some parts"
    and "hand_over give ctx parts (run\<lparr>rn_pending := None\<rparr>) = r"
  shows "endpoint_open N E S role give run ctx = Some r" and "opens E V S role give run ctx (fst r) (snd r)"
  using assms
  by (simp add: endpoint_open_def)
    (use assms in \<open>cases parts, auto simp: opens_def hand_over_simps session_slots_def
      worker_slots_def\<close>)

lemma opens_fresh:
  assumes "rn_pending run = None" and "role_open role (rn_role run) = Inr c"
    and "fresh_conn E V c conn store" and "st_slots E store p = pool_available E (rn_send run)"
    and "session_available S (rn_sessions run) = Suc (session_available S ss)"
    and r: "hand_over give ctx (conn, store) (set_send p (set_sessions ss run)) = r"
  shows "opens E V S role give run ctx (fst r) (snd r)"
  unfolding r [symmetric] using assms(1-5)
  by (simp add: opens_def hand_over_simps session_slots_def worker_slots_def store_slots_def
      st_slots_def del: of_bool_eq_iff split del: if_split)
    (rule exI [of _ conn], rule exI [of _ store], auto)

context protocol
begin

lemma open_parts_run:
  assumes laws: "wire_laws N E V sb" and lawful: lawful and st: "st_holding store \<longleftrightarrow> send_on_open role"
  obtains (failed) cause p' where "open_parts N E role config lease store p = Some (Inl cause, p')"
      and "role_open role config = Inl cause" and "cause \<noteq> BufferUnavailable"
      and "pool_available E p' = st_slots E store p"
    | (opened) c conn store' p' where "role_open role config = Inr c"
      and "open_parts N E role config lease store p = Some (Inr (conn, store'), p')"
      and "fresh_parts E V c lease store p conn store' p'"
proof (cases "role_open role config")
  case (Inl cause)
  have "pool_available E (snd (st_release E store p)) = st_slots E store p"
    using pool_lawsD(5) [OF wire_lawsD(2) [OF laws]]
    by (simp add: st_release_def st_slots_def st_holding_def split: option.split)
  moreover have "cause \<noteq> BufferUnavailable" using Inl never_unavailable [of config] by auto
  ultimately show thesis using failed Inl by (simp add: open_parts_def)
next
  case (Inr c)
  have "\<not> (buffer store = None \<and> wants_write N c)"
    using quiet [OF lawful Inr] st by (auto simp: st_holding_def)
  with connection_new_run [OF laws, of store c lease p] opened Inr show thesis
    by (auto simp: open_parts_def)
qed

lemma open_run:
  assumes laws: "wire_laws N E V sb" and lawful: lawful and sl: "session_laws S"
  shows "\<exists>oc run'. endpoint_open N E S role give run ctx = Some (oc, run') \<and>
    opens E V S role give run ctx oc run'"
proof (cases "rn_pending run")
  case (Some parts)
  show ?thesis using opens_cached [OF Some refl] by (metis prod.collapse)
next
  case None
  note run = endpoint_open_def [of N E S role give run ctx, unfolded None option.case]
  show ?thesis
  proof (cases "session_take S (rn_sessions run)")
    case None
    with run session_lawsD(1) [OF sl] \<open>rn_pending run = None\<close> show ?thesis
      by (auto simp: opens_def)
  next
    case (Some tk)
    then obtain lease ss where tk: "session_take S (rn_sessions run) = Some (lease, ss)"
      by (cases tk) auto
    note run = run [unfolded tk option.case prod.case Let_def]
    have avail: "session_available S (rn_sessions run) = Suc (session_available S ss)"
      "session_available S (session_return S l ss) = Suc (session_available S ss)" for l
      using session_lawsD(2,3) [OF sl] tk by auto
    note oc = open_cursor_spec [OF wire_lawsD(2) [OF laws], of role "rn_send run"]
    show ?thesis
    proof (cases "open_cursor E role (rn_send run)")
      case none: None
      then have "endpoint_open N E S role give run ctx =
          Some (Unavailable ctx, drop_lease S lease (set_sessions ss run))"
        unfolding run by simp
      with none oc avail None show ?thesis
        by (simp add: opens_def session_slots_def worker_slots_def)
    next
      case (Some sp)
      then obtain store p where sp: "open_cursor E role (rn_send run) = Some (store, p)"
        by (cases sp) auto
      have store: "st_as_slice E store = []" "st_slots E store p = pool_available E (rn_send run)"
        "st_holding store \<longleftrightarrow> send_on_open role" using oc sp by auto
      from laws lawful store(3) show ?thesis
      proof (cases rule: open_parts_run [where config = "rn_role run" and lease = lease and p = p])
        case (failed cause p')
        then have "endpoint_open N E S role give run ctx = Some (OpenFailed ctx cause,
            drop_lease S lease (set_send p' (set_sessions ss run)))"
          unfolding run by (simp add: sp) (cases cause; simp)
        with failed avail None store show ?thesis
          by (simp add: opens_def session_slots_def worker_slots_def store_slots_def)
      next
        case (opened c conn store' p')
        let ?r = "hand_over give ctx (conn, store') (set_send p' (set_sessions ss run))"
        have "endpoint_open N E S role give run ctx = Some ?r"
          unfolding run by (simp add: sp opened)
        moreover have "opens E V S role give run ctx (fst ?r) (snd ?r)"
          by (rule opens_fresh [OF None opened(1) _ _ avail(1) refl])
            (use opened(3) store in \<open>simp_all add: fresh_parts_def fresh_conn_def\<close>)
        ultimately show ?thesis by (metis prod.collapse)
      qed
    qed
  qed
qed

end

lemma bound_refused:
  "bd_storage bd = store \<Longrightarrow> ss_bound store \<Longrightarrow>
     try_runtime Y B limits bd = (Inl AlreadyBound, store) \<or>
     (\<exists>e. plan_layout Y (bd_plan bd) limits = Inl e \<and> try_runtime Y B limits bd = (Inl e, store))"
  by (auto simp: try_runtime_def Let_def split: sum.split)

section \<open>Properties\<close>

text \<open>
  C27. Opening a connection takes all it needs or nothing, for both roles: it returns; it is
  unavailable only for want of a session or, for a client, of a send cursor, and fails only with the
  role's own error, nothing spent either way; a connection handed over is the cached one or a fresh
  one with no flag raised, whose first output is owed in full, and it holds exactly one session and
  its cursor's slot; what the callback returns is cached.
\<close>

theorem open_exact:
  assumes "wire_laws N E V sb" and "session_laws S" and "role_laws N R"
  shows "(\<exists>oc run'. endpoint_open N E S (server_role R) give run ctx = Some (oc, run') \<and>
      opens E V S (server_role R) give run ctx oc run') \<and>
    (\<exists>oc run'. endpoint_open N E S (client_role R) give2 run2 ctx = Some (oc, run') \<and>
      opens E V S (client_role R) give2 run2 ctx oc run')"
  by (intro conjI server.open_run [OF assms(1,3,2)] client.open_run [OF assms(1) TrueI assms(2)])


text \<open>
  C29. Nobody waits for what is there: \<open>take_ready\<close> yields a waiter exactly where a receive slot is
  free and somebody waits for one, or for egress with a send slot free too. It is the first in line,
  waiters for receive slots before those for egress, the others keep their places, and \<open>is_ready\<close> says
  so beforehand.
\<close>

theorem ready_serves:
  assumes ok: "lanes_ok L entries cap (rn_waiters run)" and run: "take_ready E I L run = (w, run')"
  shows "w = (if recv_available I (rn_recv run) = 0 then None
      else case waiting entries Recv (rn_waiters run) of
          c # _ \<Rightarrow> Some c
        | [] \<Rightarrow> if pool_available E (rn_send run) = 0 then None
            else (case waiting entries HandshakeEgress (rn_waiters run) of
                    [] \<Rightarrow> None | c # _ \<Rightarrow> Some c)) \<and>
    (is_ready E I L run \<longleftrightarrow> w \<noteq> None) \<and>
    waiting entries Recv (rn_waiters run') @ waiting entries HandshakeEgress (rn_waiters run') =
      drop (of_bool (w \<noteq> None))
        (waiting entries Recv (rn_waiters run) @ waiting entries HandshakeEgress (rn_waiters run)) \<and>
    rn_buffers run' = rn_buffers run \<and> lanes_ok L entries cap (rn_waiters run')"
proof -
  have has: "has_waiters L k (rn_waiters run) \<longleftrightarrow> waiting entries k (rn_waiters run) \<noteq> []" for k
    using lane_laws_cases(7) [OF lanes_okD(1) [OF ok]] by (simp add: has_waiters_def waiting_def)
  show ?thesis
  proof (cases "ready E I L run")
    case None
    with run have r: "w = None" "run' = run" by (auto simp: take_ready_def)
    from None show ?thesis
      using ok unfolding r
      by (auto simp: ready_def has is_ready_def Let_def split: list.splits if_splits)
  next
    case (Some k)
    obtain v q where t: "waiters_take L k (rn_waiters run) = (v, q)" by fastforce
    with run Some have r: "w = v" "run' = run\<lparr>rn_waiters := q\<rparr>" by (auto simp: take_ready_def)
    from Some have k: "recv_available I (rn_recv run) \<noteq> 0"
      "k = Recv \<and> waiting entries Recv (rn_waiters run) \<noteq> [] \<or>
       k = HandshakeEgress \<and> waiting entries Recv (rn_waiters run) = [] \<and>
       waiting entries HandshakeEgress (rn_waiters run) \<noteq> [] \<and> pool_available E (rn_send run) \<noteq> 0"
      by (auto simp: ready_def has Let_def split: if_splits)
    note ts = take_spec [OF ok t]
    from k show ?thesis
      using ts(1,2) ts(3) [of Recv] ts(3) [of HandshakeEgress] Some
      by (auto simp: r is_ready_def neq_Nil_conv)
  qed
qed

section \<open>Witnesses\<close>

text \<open>Sessions as a number, connections that open at once, layouts and pools as slot counts.\<close>

definition ref_sessions :: "nat session_ops" where
  "ref_sessions = \<lparr>
     session_take = (\<lambda>n. case n of 0 \<Rightarrow> None | Suc m \<Rightarrow> Some (Lease m, m)),
     session_return = (\<lambda>_. Suc), session_available = (\<lambda>n. n) \<rparr>"

lemma ref_session_laws: "session_laws ref_sessions"
  by (auto simp: session_laws_def ref_sessions_def split: nat.splits)

definition ref_roles :: "(unit, bytes list, bytes, ref_conn) role_ops" where
  "ref_roles = \<lparr>
     server_connection_new = (\<lambda>_. Inr ref_idle), reject_early_data = (\<lambda>c. c),
     alpn_protocols = (\<lambda>ps. ps),
     client_connection_new = (\<lambda>ps name alpn. Inr (ref_produce (name @ concat alpn) ref_idle)),
     slice_try_copy = Inr, block_reserve = (\<lambda>_. Inr ()) \<rparr>"

lemma ref_role_laws: "role_laws ref_rustls ref_roles"
  by (auto simp: role_laws_def ref_roles_def ref_rustls_def ref_idle_def)

definition ref_binds :: "(u32, nat, nat, nat, ref_pool, nat \<Rightarrow> (nat \<times> credit_id) list) bind_ops" where
  "ref_binds = \<lparr>
     count_try_from = (\<lambda>n. Inr (unat n)), sessions_try_new = Inr,
     growing_try_warm = (\<lambda>y warm. Inr (unat y)), fixed_try_from = (\<lambda>y. Inr (unat y)),
     send_try_from = (\<lambda>y. Inr (unat y, 24836)), fifo_try_from = (\<lambda>_. Inr (\<lambda>_. [])) \<rparr>"

definition ref_client_run where
  "ref_client_run = \<lparr> rn_pending = (None :: (ref_conn connection \<times> ref_cursor send_state) option),
     rn_buffers = \<lparr> po_sessions = (2 :: nat), po_recv = (Fixed 2 :: (nat, nat) receive),
                    po_send = ((1, 4) :: ref_pool) \<rparr>,
     rn_waiters = (), rn_role = \<lparr> cp_config = [[3]], cp_name = [1, 2] \<rparr> \<rparr>"

text \<open>A client's first flight of three bytes is in its cursor when it is handed over.\<close>

theorem open_exact_witness:
  "\<exists>oc run'. endpoint_open (ref_rustls :: (ref_conn, ref_cursor) rustls) ref_egress ref_sessions
     (client_role ref_roles) (\<lambda>n conn store. (n + 1, None)) ref_client_run (7 :: nat) =
       Some (oc, run') \<and> oc \<noteq> OpenFailed 7 BufferUnavailable \<and>
     session_slots ref_sessions run' \<in> {1, 2}"
proof -
  obtain oc run' where run: "endpoint_open (ref_rustls :: (ref_conn, ref_cursor) rustls) ref_egress
      ref_sessions (client_role ref_roles) (\<lambda>n conn store. (n + 1, None)) ref_client_run (7 :: nat) =
        Some (oc, run')"
    and op: "opens ref_egress ref_view ref_sessions (client_role ref_roles)
      (\<lambda>n conn store. (n + 1, None)) ref_client_run 7 oc run'"
    using conjunct2 [OF open_exact [OF ref_wire_laws ref_session_laws ref_role_laws,
      where ?give2.0 = "\<lambda>n conn store. (n + 1, None)" and ?run2.0 = ref_client_run and ctx = "7 :: nat"]]
    by blast
  have "session_slots ref_sessions run' \<in> {1, 2}"
    using op by (auto simp: opens_def session_slots_def ref_client_run_def ref_sessions_def
        split: open_outcome.splits)
  moreover have "oc \<noteq> OpenFailed 7 BufferUnavailable"
    using op by (auto simp: opens_def client.never_unavailable)
  ultimately show ?thesis using run by blast
qed


theorem ready_serves_witness:
  "fst (take_ready ref_egress ref_ingress ref_lanes ref_run) = Some ref_waiter"
  using ready_serves [OF ref_run_lanes, of ref_egress ref_ingress]
  by (cases "take_ready ref_egress ref_ingress ref_lanes ref_run")
    (fastforce simp: ref_run_def ref_ingress_def waiting_def)

end
