(* ===== verification/Traffic.thy ===== *)
theory Traffic
  imports Frames Endpoint_Correct
begin

text \<open>
  One connection of a worker between its calls: a session with a log of what went through it. Each
  call of the send side and each receive keeps what the session promises of its log.
\<close>

section \<open>Calls of the send side\<close>

datatype 'i send_call =
    CallPrepare 'i
  | CallPrepareMany 'i
  | CallSent nat
  | CallSettle nat bool
  | CallFlush
  | CallDrain bool
  | CallClose

text \<open>A call's run: the plaintext bytes the plan reports as consumed, and what became of the egress.\<close>

fun send_run ::
    "nat \<Rightarrow> ('c, 's) rustls \<Rightarrow> ('b, 's, 'p) egress_ops \<Rightarrow> ('i, 't) progress_ops \<Rightarrow>
     ('i, 't) progress_ops \<Rightarrow> 'i send_call \<Rightarrow> ('c, 'b, 'p) tx \<Rightarrow> (nat \<times> ('c, 'b, 'p) tx) option" where
  "send_run k N E D M (CallPrepare plan) t =
     map_option (\<lambda>(r, t'). (pr_consumed (outcome r), t')) (egress_prepare N E D t plan)"
| "send_run k N E D M (CallPrepareMany plan) t =
     map_option (\<lambda>(r, t'). (pr_consumed (outcome r), t')) (egress_prepare_many k N E M t plan)"
| "send_run k N E D M (CallSent n) t = map_option (\<lambda>(r, t'). (0, t')) (egress_after_send N E t n)"
| "send_run k N E D M (CallSettle n live) t =
     map_option (\<lambda>(r, e, t'). (0, t')) (egress_settle N E t n live)"
| "send_run k N E D M CallFlush t = map_option (\<lambda>(r, t'). (0, t')) (egress_flush N E t)"
| "send_run k N E D M (CallDrain live) t =
     map_option (\<lambda>(r, e, t'). (0, t')) (egress_drain N E t live)"
| "send_run k N E D M CallClose t = map_option (\<lambda>(r, t'). (0, t')) (egress_close N E t)"

text \<open>The plaintext of a call's plan, and the ciphertext its completion reports as sent.\<close>

fun call_plain :: "('i, 't) progress_view \<Rightarrow> 'i send_call \<Rightarrow> bytes" where
  "call_plain U (CallPrepare plan) = left U plan"
| "call_plain U (CallPrepareMany plan) = left U plan"
| "call_plain U _ = []"

fun call_sent :: "bytes \<Rightarrow> 'i send_call \<Rightarrow> bytes" where
  "call_sent xs (CallSent n) = take n xs"
| "call_sent xs (CallSettle n live) = take n xs"
| "call_sent xs _ = []"

fun call_fresh :: "('i, 't) progress_ops \<Rightarrow> ('i, 't) progress_ops \<Rightarrow> 'i send_call \<Rightarrow> bool" where
  "call_fresh D M (CallPrepare plan) \<longleftrightarrow> in_done D plan = 0"
| "call_fresh D M (CallPrepareMany plan) \<longleftrightarrow> in_done M plan = 0"
| "call_fresh D M _ \<longleftrightarrow> True"

definition send_laws where
  "send_laws k N E D M V U sb \<longleftrightarrow> plain_laws N E D V U sb \<and> many_laws k N E M V U sb \<and>
     rustls_in_laws N V \<and> rustls_duplex_laws N V \<and> rustls_split_laws N V"

lemma send_lawsD:
  assumes "send_laws k N E D M V U sb"
  shows "wire_laws N E V sb" "progress_laws D U" "progress_laws M U"
    "seals E D U V N (encrypt N E D)" "seals E M U V N (encrypt_many k N E M)"
    "rustls_in_laws N V" "rustls_duplex_laws N V" "rustls_split_laws N V" "rustls_writer_laws N V"
    "cursor_laws E sb" "pool_laws E"
proof -
  from assms have *: "plain_laws N E D V U sb" "many_laws k N E M V U sb"
    by (simp_all add: send_laws_def)
  from encrypt_seals [OF *(1)] encrypt_many_seals [OF *(2)] assms *
  show "wire_laws N E V sb" "progress_laws D U" "progress_laws M U"
    "seals E D U V N (encrypt N E D)" "seals E M U V N (encrypt_many k N E M)"
    "rustls_in_laws N V" "rustls_duplex_laws N V" "rustls_split_laws N V" "rustls_writer_laws N V"
    "cursor_laws E sb" "pool_laws E"
    by (simp_all add: send_laws_def plain_laws_def many_laws_def plain_progress_laws_def
        vectored_progress_laws_def wire_laws_def)
qed

text \<open>
  What every call promises: the bytes it reports as sent leave the front of what is owed, what it
  produces goes behind it, and it consumes of the plan exactly what the writer accepted; slots,
  flags and the plaintext received are kept.
\<close>

definition traffic_ok where
  "traffic_ok E V plain gone n t t' \<longleftrightarrow>
     (\<exists>d. made V (native (tx_conn t')) = made V (native (tx_conn t)) @ d \<and>
        gone @ owed E V t' = owed E V t @ d) \<and>
     n \<le> length plain \<and>
     sent V (native (tx_conn t')) = sent V (native (tx_conn t)) @ take n plain \<and>
     tx_slots E t' = tx_slots E t \<and> (tidy E t \<longrightarrow> tidy E t') \<and>
     got V (native (tx_conn t')) = got V (native (tx_conn t)) \<and>
     nread V (native (tx_conn t')) = nread V (native (tx_conn t)) \<and>
     latch_le (tx_conn t) (tx_conn t')"

lemma prepared_traffic:
  "prepared_ok E U V t plan n r t' \<Longrightarrow> got V (native (tx_conn t')) = got V (native (tx_conn t)) \<and>
     nread V (native (tx_conn t')) = nread V (native (tx_conn t)) \<Longrightarrow>
   traffic_ok E V (left U plan) [] n t t'"
  by (auto simp: prepared_ok_def traffic_ok_def extends_def)

lemma delivered_traffic:
  assumes "delivered E V gone t t'" and "got V (native (tx_conn t')) = got V (native (tx_conn t)) \<and>
     nread V (native (tx_conn t')) = nread V (native (tx_conn t))"
  shows "traffic_ok E V [] gone 0 t t'"
proof -
  obtain c' where "tx_conn t' = (tx_conn t)\<lparr>native := c'\<rparr>" using assms(1) unfolding delivered_def by blast
  with assms show ?thesis by (simp add: delivered_def traffic_ok_def)
qed

text \<open>A call is one of the connection's steps, so it keeps what they keep, the plaintext received too.\<close>

context send_frame
begin

lemma send_run_frame: "send_run k N E D M call t = Some (n, t') \<Longrightarrow> R (tx_conn t) (tx_conn t')"
  by (cases call) (auto simp: egress_prepare_def egress_prepare_many_def egress_after_send_def
      egress_settle_def egress_flush_def egress_drain_def
      dest: prepare_frame after_send_frame settle_frame flush_frame prepare_drain_frame close_frame)

end

lemma send_run_plain:
  assumes laws: "send_laws k N E D M V U sb" and run: "send_run k N E D M call t = Some (n, t')"
  shows "got V (native (tx_conn t')) = got V (native (tx_conn t)) \<and>
     nread V (native (tx_conn t')) = nread V (native (tx_conn t))"
  using plain_frame.send_run_frame [OF run, of V] send_lawsD [OF laws] by (simp add: same_plain_def)

lemma send_call_ok:
  assumes laws: "send_laws k N E D M V U sb" and fresh: "call_fresh D M call"
  shows "\<exists>n t'. send_run k N E D M call t = Some (n, t') \<and>
    (same_plain N V (tx_conn t) (tx_conn t') \<longrightarrow>
     traffic_ok E V (call_plain U call) (call_sent (st_as_slice E (tx_store t)) call) n t t')"
proof -
  note L = send_lawsD [OF laws]
  have plain: "got V (native (tx_conn t')) = got V (native (tx_conn t)) \<and>
     nread V (native (tx_conn t')) = nread V (native (tx_conn t))"
    if "same_plain N V (tx_conn t) (tx_conn t')" for t'
    using that L(6-8) by (simp add: same_plain_def)
  show ?thesis
  proof (cases call)
    case (CallPrepare plan)
    with fresh obtain n r t' where "prepare N E D t plan = Some (r, t')" "prepared_ok E U V t plan n r t'"
      using prepare_with_ok [OF L(1,2,4), of plan t] by (auto simp: prepare_def)
    then show ?thesis
      using CallPrepare prepared_traffic [of E U V t plan n r t'] plain
      by (auto simp: egress_prepare_def prepared_ok_def)
  next
    case (CallPrepareMany plan)
    with fresh obtain n r t' where "prepare_many k N E M t plan = Some (r, t')"
      "prepared_ok E U V t plan n r t'"
      using prepare_with_ok [OF L(1,3,5), of plan t] by (auto simp: prepare_many_def)
    then show ?thesis
      using CallPrepareMany prepared_traffic [of E U V t plan n r t'] plain
      by (auto simp: egress_prepare_many_def prepared_ok_def)
  next
    case (CallSent n)
    obtain r t' where run: "after_send N E t n = Some (Output r, t')" and dl: "delivered E V (take n (st_as_slice E (tx_store t))) t t'"
      using after_send_run [OF L(1), of t n] by metis
    from delivered_traffic [OF dl] plain [of t'] run show ?thesis
      by (simp add: CallSent egress_after_send_def)
  next
    case (CallSettle n live)
    obtain r t' where run: "settle N E t n live = Some (r, None, t')" and dl: "delivered E V (take n (st_as_slice E (tx_store t))) t t'"
      using settle_run [OF L(1), of t n live] by metis
    from delivered_traffic [OF dl] plain [of t'] run show ?thesis
      by (simp add: CallSettle egress_settle_def)
  next
    case CallFlush
    obtain r t' where run: "flush N E t = Some (Output r, t')" and dl: "delivered E V [] t t'"
      using flush_run [OF L(1), of t] by metis
    from delivered_traffic [OF dl] plain [of t'] run show ?thesis
      by (simp add: CallFlush egress_flush_def)
  next
    case (CallDrain live)
    obtain r t' where run: "prepare_drain N E t live = Some (r, None, t')" and dl: "delivered E V [] t t'"
      using prepare_drain_run [OF L(1), of t live] by metis
    from delivered_traffic [OF dl] plain [of t'] run show ?thesis
      by (simp add: CallDrain egress_drain_def)
  next
    case CallClose
    obtain r t' where cl: "egress_close N E t = Some (Output r, t')" "extends E V t t'"
      "pr_ready r = BufferWait \<longrightarrow> t' = t" "pr_ready r = Buffered \<longrightarrow> tidy E t'"
      using close_run [OF L(1), of t] by metis
    have "sent V (native (tx_conn t')) = sent V (native (tx_conn t))"
      using sent_close.close_frame [OF cl(1), of V] L(8,9) by (simp add: same_sent_def)
    moreover have "tidy E t \<longrightarrow> tidy E t'" using cl(3,4) by (cases "pr_ready r") auto
    ultimately have "traffic_ok E V [] [] 0 t t'" if "same_plain N V (tx_conn t) (tx_conn t')"
      using cl(2) plain [OF that] by (simp add: traffic_ok_def extends_def)
    with CallClose cl(1) show ?thesis by simp
  qed
qed

lemma send_run_ok:
  assumes laws: "send_laws k N E D M V U sb" and fresh: "call_fresh D M call"
  obtains n t' where "send_run k N E D M call t = Some (n, t')"
    and "traffic_ok E V (call_plain U call) (call_sent (st_as_slice E (tx_store t)) call) n t t'"
proof -
  obtain n t' where run: "send_run k N E D M call t = Some (n, t')"
    and ok: "same_plain N V (tx_conn t) (tx_conn t') \<longrightarrow>
      traffic_ok E V (call_plain U call) (call_sent (st_as_slice E (tx_store t)) call) n t t'"
    using send_call_ok [OF assms] by blast
  have "same_plain N V (tx_conn t) (tx_conn t')"
    using send_run_plain [OF laws run] by (simp add: same_plain_def)
  with ok run that show thesis by blast
qed

section \<open>Sessions\<close>

text \<open>
  A connection with its send owner, and what went through it since it was opened: the ciphertext
  handed to the transport, the plaintext taken from plans, the plaintext handed out.
\<close>

record ('c, 'b) session =
  se_conn :: "'c connection"
  se_store :: "'b send_state"
  se_wire :: bytes
  se_sealed :: bytes
  se_given :: bytes

definition new_session :: "'c connection \<Rightarrow> 'b send_state \<Rightarrow> ('c, 'b) session" where
  "new_session conn store = \<lparr> se_conn = conn, se_store = store, se_wire = [], se_sealed = [],
     se_given = [] \<rparr>"

definition session_tx :: "('c, 'b) session \<Rightarrow> 'p \<Rightarrow> ('c, 'b, 'p) tx" where
  "session_tx s p = \<lparr> tx_conn = se_conn s, tx_store = se_store s, tx_pool = p \<rparr>"

definition sent_session where
  "sent_session E U call n t s = s\<lparr>se_conn := tx_conn t, se_store := tx_store t,
     se_wire := se_wire s @ call_sent (st_as_slice E (se_store s)) call,
     se_sealed := se_sealed s @ take n (call_plain U call)\<rparr>"

text \<open>Where the send owner was not lent to a receive, it is as it was.\<close>

definition received_session where
  "received_session wire store given s = s\<lparr>se_conn := wire,
     se_store := (case store of Some st \<Rightarrow> st | None \<Rightarrow> se_store s), se_given := se_given s @ given\<rparr>"

text \<open>
  The promise of a session: all ciphertext made is what the transport was handed, then the store,
  then the native queue, in this order; the plaintext sealed is that taken from plans; that handed
  out is a prefix of that authenticated, and all of it until a failure. No cursor is held for nothing.
\<close>

definition session_ok where
  "session_ok E V s \<longleftrightarrow>
     made V (native (se_conn s)) =
       se_wire s @ st_as_slice E (se_store s) @ pend V (native (se_conn s)) \<and>
     sent V (native (se_conn s)) = se_sealed s \<and>
     prefix (se_given s) (got V (native (se_conn s))) \<and>
     (\<not> failed (se_conn s) \<longrightarrow> se_given s = got V (native (se_conn s)) \<and>
        unread V (native (se_conn s)) = []) \<and>
     (st_holding (se_store s) \<longleftrightarrow> st_as_slice E (se_store s) \<noteq> [])"

lemma session_okD:
  assumes "session_ok E V s"
  shows "made V (native (se_conn s)) =
       se_wire s @ st_as_slice E (se_store s) @ pend V (native (se_conn s))"
    and "sent V (native (se_conn s)) = se_sealed s"
    and "prefix (se_given s) (got V (native (se_conn s)))"
    and "\<not> failed (se_conn s) \<Longrightarrow> se_given s = got V (native (se_conn s))"
    and "\<not> failed (se_conn s) \<Longrightarrow> unread V (native (se_conn s)) = []"
    and "st_holding (se_store s) \<longleftrightarrow> st_as_slice E (se_store s) \<noteq> []"
  using assms by (simp_all add: session_ok_def)

lemma sent_session_ok:
  assumes ok: "session_ok E V s"
    and tr: "traffic_ok E V (call_plain U call) (call_sent (st_as_slice E (se_store s)) call) n
      (session_tx s p) t'"
  shows "session_ok E V (sent_session E U call n t' s)"
    and "st_slots E (tx_store t') (tx_pool t') = st_slots E (se_store s) p"
proof -
  let ?gone = "call_sent (st_as_slice E (se_store s)) call"
  obtain d where "made V (native (tx_conn t')) = made V (native (se_conn s)) @ d"
    "?gone @ st_as_slice E (tx_store t') @ pend V (native (tx_conn t')) =
      st_as_slice E (se_store s) @ pend V (native (se_conn s)) @ d"
    using tr by (auto simp: traffic_ok_def owed_def session_tx_def)
  moreover have "failed (se_conn s) \<Longrightarrow> failed (tx_conn t')"
    using tr by (simp add: traffic_ok_def latch_le_def session_tx_def)
  ultimately show "session_ok E V (sent_session E U call n t' s)"
    using ok tr
    by (auto simp: session_ok_def traffic_ok_def sent_session_def session_tx_def tidy_def unread_def)
  show "st_slots E (tx_store t') (tx_pool t') = st_slots E (se_store s) p"
    using tr by (simp add: traffic_ok_def tx_slots_def session_tx_def)
qed

text \<open>The send owner around a transaction that was admitted with it, or without it.\<close>

lemma lent_store:
  assumes ad: "admitted N E I L content entries cap wire (if lend then Some st else None) run evs (Ready txn)"
    and kept: "store_kept E txn store" and slots: "store_slots E store pool = txn_slots E txn"
    and tidy: "st_holding st \<longleftrightarrow> st_as_slice E st \<noteq> []"
  defines "st' \<equiv> (case store of Some x \<Rightarrow> x | None \<Rightarrow> st)"
  shows "st_slots E st' pool = st_slots E st (rn_send run)"
    and "st_holding st' \<longleftrightarrow> st_as_slice E st' \<noteq> []"
    and "store_bytes E store @ xs = txn_bytes E txn @ ys \<Longrightarrow>
      st_as_slice E st' @ xs = st_as_slice E st @ ys"
    and "txn_ok txn"
proof -
  have "st_slots E st' pool = st_slots E st (rn_send run) \<and>
    (st_holding st' \<longleftrightarrow> st_as_slice E st' \<noteq> []) \<and>
    (store_bytes E store @ xs = txn_bytes E txn @ ys \<longrightarrow>
      st_as_slice E st' @ xs = st_as_slice E st @ ys) \<and> txn_ok txn"
  proof (cases "tn_send txn")
    case None
    then have "tn_store txn = (if lend then Some st else None)" "store = tn_store txn"
      "rn_send (tn_run txn) = rn_send run"
      using ad kept by (simp_all add: admitted_def store_kept_def)
    with None slots tidy show ?thesis
      by (auto simp: st'_def txn_slots_def txn_bytes_def store_slots_def store_bytes_def st_slots_def
          txn_ok_def)
  next
    case (Some out)
    then have "lend" "tn_store txn = Some (st\<lparr>buffer := None\<rparr>)" "cursor_bytes E out = st_as_slice E st"
      "Suc (pool_available E (rn_send (tn_run txn))) = st_slots E st (rn_send run)"
      using ad by (auto simp: admitted_def split: if_splits)
    moreover obtain st2 where "store = Some st2" "st_holding st2 \<longleftrightarrow> st_as_slice E st2 \<noteq> []"
      using kept Some by (auto simp: store_kept_def)
    ultimately show ?thesis
      using Some slots
      by (auto simp: st'_def txn_slots_def txn_bytes_def store_slots_def store_bytes_def st_slots_def
          txn_ok_def st_holding_def)
  qed
  then show "st_slots E st' pool = st_slots E st (rn_send run)"
    "st_holding st' \<longleftrightarrow> st_as_slice E st' \<noteq> []"
    "store_bytes E store @ xs = txn_bytes E txn @ ys \<Longrightarrow>
      st_as_slice E st' @ xs = st_as_slice E st @ ys" "txn_ok txn"
    by blast+
qed

text \<open>What a receive hands out of the plaintext it authenticated.\<close>

definition hands_out where
  "hands_out V conn result given conn' \<longleftrightarrow>
     got V (native conn') = got V (native conn) @ given @ unread V (native conn') \<or>
     (is_err result \<and> given = [] \<and> prefix (got V (native conn)) (got V (native conn')))"

lemma received_session_ok:
  assumes ok: "session_ok E V s" and live: "\<not> failed (se_conn s)"
    and ad: "admitted N E I L content entries cap (se_conn s) (if lend then Some (se_store s) else None)
      run evs0 (Ready txn)"
    and rd: "receive_done E V L entries cap I txn x result rel r evs wire store run'"
    and given: "hands_out V (se_conn s) result given wire"
    and sent: "sent V (native wire) = sent V (native (se_conn s))"
  shows "session_ok E V (received_session wire store given s)"
    and "st_slots E (se_store (received_session wire store given s)) (rn_send run') =
      st_slots E (se_store s) (rn_send run)"
proof -
  have wire: "tn_wire txn = se_conn s" using ad by (simp add: admitted_def)
  from rd obtain d where d: "made V (native wire) = made V (native (se_conn s)) @ d"
    "store_bytes E store @ pend V (native wire) = txn_bytes E txn @ pend V (native (se_conn s)) @ d"
    unfolding receive_done_def wire by blast
  have kept: "store_kept E txn store" "store_slots E store (rn_send run') = txn_slots E txn"
    and flags: "failed wire = (failed (se_conn s) \<or> is_err result)"
      "result = Inr () \<Longrightarrow> unread V (native wire) = []"
    using rd by (simp_all add: receive_done_def wire)
  note lent = lent_store [OF ad kept session_okD(6) [OF ok]]
  have "se_given s @ given = got V (native wire) \<and> unread V (native wire) = []" if "\<not> failed wire"
  proof -
    have "result = Inr ()" "\<not> is_err result" using that flags(1) by (cases result; simp)+
    then show ?thesis using flags(2) given session_okD(4) [OF ok live] by (simp add: hands_out_def)
  qed
  moreover have "prefix (se_given s @ given) (got V (native wire))"
    using given session_okD(4) [OF ok live] by (auto simp: hands_out_def)
  ultimately show "session_ok E V (received_session wire store given s)"
    using d(1) lent(2) lent(3) [OF d(2)] session_okD(1,2) [OF ok] sent
    by (simp add: session_ok_def received_session_def)
  show "st_slots E (se_store (received_session wire store given s)) (rn_send run') =
      st_slots E (se_store s) (rn_send run)"
    using lent(1) by (simp add: received_session_def)
qed

text \<open>A transaction that is given up unread, a receive refused for memory, and an end of file.\<close>

lemma unread_session_ok:
  assumes ok: "session_ok E V s"
    and ad: "admitted N E I L content entries cap (se_conn s) (if lend then Some (se_store s) else None)
      run evs0 (Ready txn)"
    and gb: "given_back E L entries cap available freed rel txn evs wire store run'"
  shows "session_ok E V (received_session wire store [] s)"
    and "st_slots E (se_store (received_session wire store [] s)) (rn_send run') =
      st_slots E (se_store s) (rn_send run)"
proof -
  have wire: "wire = se_conn s" and kept: "store_kept E txn store"
    "store_slots E store (rn_send run') = txn_slots E txn" "store_bytes E store @ [] = txn_bytes E txn @ []"
    using ad gb by (simp_all add: admitted_def given_back_def)
  note lent = lent_store [OF ad kept(1,2) session_okD(6) [OF ok]]
  show "session_ok E V (received_session wire store [] s)"
    using ok lent(2) lent(3) [OF kept(3)] by (simp add: session_ok_def received_session_def wire)
  show "st_slots E (se_store (received_session wire store [] s)) (rn_send run') =
      st_slots E (se_store s) (rn_send run)"
    using lent(1) by (simp add: received_session_def)
qed

lemma failed_session_ok: "session_ok E V s \<Longrightarrow> session_ok E V (s\<lparr>se_conn := (se_conn s)\<lparr>failed := True\<rparr>\<rparr>)"
  by (simp add: session_ok_def)

lemma eof_session_ok:
  assumes laws: "rustls_in_laws N V" "rustls_wire_laws N V" "rustls_writer_laws N V" "rustls_split_laws N V"
    and ok: "session_ok E V s" and run: "ingress_eof N (se_conn s) = (r, conn)"
  shows "session_ok E V (s\<lparr>se_conn := conn\<rparr>)"
proof -
  have same: "got V (native conn) = got V (native (se_conn s))"
    "unread V (native conn) = unread V (native (se_conn s))"
    using eof_run [OF laws(1) run] by blast+
  have "sent V (native conn) = sent V (native (se_conn s))"
    using sent_frame.eof_frame [OF run, of V] laws(3,4) by (simp add: same_sent_def)
  moreover have "failed (se_conn s) \<Longrightarrow> failed conn"
    using latch_receive.eof_frame [OF run] by (simp add: latch_le_def)
  moreover obtain d where "made V (native conn) = made V (native (se_conn s)) @ d"
    "pend V (native conn) = pend V (native (se_conn s)) @ d"
  proof -
    obtain q c where rd: "read_tls N (native (se_conn s)) [] = (q, c)" by fastforce
    have "native conn = c"
      using run rd by (auto simp: ingress_eof_def peer_eof_def split: sum.splits list.splits)
    with rd laws(2) that show thesis unfolding rustls_wire_laws_def produces_def by (metis snd_conv)
  qed
  ultimately show ?thesis using ok same by (auto simp: session_ok_def)
qed

end
