(* ===== verification/Worker.thy ===== *)
theory Worker
  imports Traffic
begin

text \<open>
  A whole worker: its runtime, the sessions it has open and the receive slots its consumers hold, as
  a step relation. Every step is one call of the driver, with whatever arguments and in any order; a
  receive runs from its admission to its completion in one step, since its transaction borrows the
  runtime exclusively.
\<close>

section \<open>Steps\<close>

type_synonym ('w, 'c, 'b) worker = "'w \<times> ('c, 'b) session list \<times> nat"

text \<open>The plaintext a batch or a stream holds, and whether it keeps a receive slot.\<close>

definition batch_bytes :: "('r, 'k, 'f, 'g) ingress_ops \<Rightarrow> 'k batch \<Rightarrow> bytes" where
  "batch_bytes I b = concat (map (item_bytes I) (batch_items b))"

definition stream_bytes :: "('r, 'k, 'f, 'g) ingress_ops \<Rightarrow> 'k retained option \<Rightarrow> bytes" where
  "stream_bytes I x = (case x of Some r \<Rightarrow> ret_content I r | None \<Rightarrow> [])"

definition batch_slots :: "'k batch \<Rightarrow> nat" where
  "batch_slots b = of_bool (bt_owned b \<noteq> None)"

definition stream_slots :: "'k retained option \<Rightarrow> nat" where
  "stream_slots x = (case x of Some r \<Rightarrow> of_bool (ret_staged r \<noteq> None) | None \<Rightarrow> 0)"

text \<open>What a callback of \<open>open\<close> does: keep the connection, or leave it with the worker.\<close>

definition keep_or_leave ::
    "bool \<Rightarrow> 'c connection \<Rightarrow> 'b send_state \<Rightarrow>
     ('c connection \<times> 'b send_state) option \<times> ('c connection \<times> 'b send_state) option" where
  "keep_or_leave keep conn store =
     (if keep then (Some (conn, store), None) else (None, Some (conn, store)))"

lemma keep_or_leave_inj:
  "keep_or_leave keep a b = keep_or_leave keep a' b' \<Longrightarrow> a = a' \<and> b = b'"
  by (auto simp: keep_or_leave_def split: if_splits)

definition opened_session where
  "opened_session oc =
     (case oc of Opened (Some (conn, store)) \<Rightarrow> [new_session conn store] | _ \<Rightarrow> [])"

definition retire_session where
  "retire_session S E s run = drop_lease S (conn_lease (se_conn s))
     (set_send (snd (st_release E (se_store s) (rn_send run))) run)"

text \<open>
  \<open>Wait\<close> stands for \<open>register\<close> (kept or rolled back), \<open>take_ready\<close>, \<open>release\<close> and \<open>cancel\<close>: they
  touch the waiters only. The slots of a receive are given back chunk by chunk, in \<open>Return\<close>.
\<close>

inductive worker_step
  for k N E D M I G L S role U
where
  Send: "i < length ss \<Longrightarrow> call_fresh D M call \<Longrightarrow>
     send_run k N E D M call (session_tx (ss ! i) (rn_send run)) = Some (n, t) \<Longrightarrow>
     worker_step k N E D M I G L S role U (run, ss, lent)
       (set_send (tx_pool t) run, ss[i := sent_session E U call n t (ss ! i)], lent)"
| Receive: "i < length ss \<Longrightarrow> \<not> failed (se_conn (ss ! i)) \<Longrightarrow>
     try_reserve N E I L (se_conn (ss ! i)) (if lend then Some (se_store (ss ! i)) else None) run =
       (evs0, Ready txn) \<Longrightarrow>
     ingress_process N E I L txn bs = Some (r, evs, wire, store, run') \<Longrightarrow>
     worker_step k N E D M I G L S role U (run, ss, lent)
       (run', ss[i := received_session wire store (batch_bytes I (outcome r)) (ss ! i)],
        lent + batch_slots (outcome r))"
| Lease: "i < length ss \<Longrightarrow> \<not> failed (se_conn (ss ! i)) \<Longrightarrow>
     try_reserve N E I L (se_conn (ss ! i)) (if lend then Some (se_store (ss ! i)) else None) run =
       (evs0, Ready txn) \<Longrightarrow>
     read_lease N E I G L txn bs = Some (x, evs, wire, store, run') \<Longrightarrow>
     worker_step k N E D M I G L S role U (run, ss, lent)
       (run', ss[i := received_session wire store (stream_bytes I (outcome x)) (ss ! i)],
        lent + stream_slots (outcome x))"
| Unread: "i < length ss \<Longrightarrow>
     try_reserve N E I L (se_conn (ss ! i)) (if lend then Some (se_store (ss ! i)) else None) run =
       (evs0, Ready txn) \<Longrightarrow>
     complete_unread E I L txn = (evs, wire, store, run') \<Longrightarrow>
     worker_step k N E D M I G L S role U (run, ss, lent)
       (run', ss[i := received_session wire store [] (ss ! i)], lent)"
| Blocked: "i < length ss \<Longrightarrow>
     try_reserve N E I L (se_conn (ss ! i)) (if lend then Some (se_store (ss ! i)) else None) run =
       (evs, Blocked kind (wire, store, run')) \<Longrightarrow>
     worker_step k N E D M I G L S role U (run, ss, lent)
       (run', ss[i := received_session wire store [] (ss ! i)], lent)"
| Refused: "i < length ss \<Longrightarrow>
     try_reserve N E I L (se_conn (ss ! i)) (if lend then Some (se_store (ss ! i)) else None) run =
       (evs, Failed cause (wire, store, run')) \<Longrightarrow>
     worker_step k N E D M I G L S role U (run, ss, lent)
       (run', ss[i := received_session wire store [] (ss ! i)], lent)"
| Eof: "i < length ss \<Longrightarrow> ingress_eof N (se_conn (ss ! i)) = (u, conn) \<Longrightarrow>
     worker_step k N E D M I G L S role U (run, ss, lent)
       (run, ss[i := (ss ! i)\<lparr>se_conn := conn\<rparr>], lent)"
| Wait: "wait_step L op (rn_waiters run) = (ins, outs, q) \<Longrightarrow>
     worker_step k N E D M I G L S role U (run, ss, lent) (run\<lparr>rn_waiters := q\<rparr>, ss, lent)"
| Return: "worker_step k N E D M I G L S role U (run, ss, Suc lent)
       (set_recv (recv_return_chunk I c (rn_recv run)) run, ss, lent)"
| Open: "endpoint_open N E S role keep_or_leave run keep = Some (oc, run') \<Longrightarrow>
     worker_step k N E D M I G L S role U (run, ss, lent) (run', ss @ opened_session oc, lent)"
| Retire: "i < length ss \<Longrightarrow>
     worker_step k N E D M I G L S role U (run, ss, lent)
       (retire_session S E (ss ! i) run, take i ss @ drop (Suc i) ss, lent)"
| Reconfigure: "worker_step k N E D M I G L S role U (run, ss, lent)
       (reconfigure S E run config, ss, lent)"

text \<open>The driver's calls on the waiters are steps of their queue.\<close>

lemma waits:
  "snd (policy_cancel L run c) = run\<lparr>rn_waiters := snd (snd (wait_step L (Revoke c) (rn_waiters run)))\<rparr>"
  "snd (release_recv L run) = run\<lparr>rn_waiters := snd (snd (wait_step L (Wake Recv) (rn_waiters run)))\<rparr>"
  "snd (release_send L run) =
     run\<lparr>rn_waiters := snd (snd (wait_step L (Wake HandshakeEgress) (rn_waiters run)))\<rparr>"
  by (simp_all add: policy_cancel_def release_recv_def release_send_def wake_in_def split: prod.split)

lemma take_ready_waits:
  "ready E I L run = Some res \<Longrightarrow> snd (take_ready E I L run) =
     run\<lparr>rn_waiters := snd (snd (wait_step L (Serve res) (rn_waiters run)))\<rparr>"
  by (simp add: take_ready_def split: prod.split)

section \<open>What a receive leaves alone\<close>

definition same_base where
  "same_base run run' \<longleftrightarrow> rn_pending run' = rn_pending run \<and> rn_role run' = rn_role run \<and>
     rn_sessions run' = rn_sessions run"

lemma same_base_simps [simp, intro]:
  "same_base run run" "same_base run (set_recv pool run)" "same_base run (set_send p run)"
  "same_base run (run\<lparr>rn_waiters := q\<rparr>)"
  by (simp_all add: same_base_def)

lemma same_base_trans [trans]: "same_base a b \<Longrightarrow> same_base b c \<Longrightarrow> same_base a c"
  by (simp add: same_base_def)

lemma wake_in_base: "wake_in L kind run = (evs, run') \<Longrightarrow> same_base run run'"
  by (auto simp: wake_in_def split: prod.splits)

lemma wake_if_base:
  "(if b then wake_in L kind run else ([], run)) = (evs, run') \<Longrightarrow> same_base run run'"
  by (auto dest: wake_in_base split: if_splits)

lemma txn_release_base:
  assumes "txn_release E L drop_slot txn rel = (evs, wire, store, run')"
  shows "same_base (tn_run txn) run'"
proof -
  define run1 where "run1 = set_recv (drop_slot (tn_recv txn) (rn_recv (tn_run txn))) (tn_run txn)"
  obtain evs1 run2 where r2: "(if rel = RelReleased then wake_in L Recv run1 else ([], run1)) =
      (evs1, run2)" by fastforce
  have one: "same_base (tn_run txn) run2"
    using same_base_trans [OF _ wake_if_base [OF r2], of "tn_run txn"] by (simp add: run1_def)
  note body = assms [unfolded txn_release_def Let_def, folded run1_def, unfolded r2 prod.case]
  show ?thesis
  proof (cases "(tn_send txn, tn_store txn)")
    case (Pair a b)
    show ?thesis
    proof (cases "\<exists>out st. a = Some out \<and> b = Some st")
      case False
      with body Pair one show ?thesis by (auto split: option.splits)
    next
      case True
      then obtain out st where ab: "a = Some out" "b = Some st" by blast
      obtain free st' sp where bc: "buffered_complete E out st (rn_send run2) = (free, st', sp)"
        using prod_cases3 by blast
      obtain evs2 run4 where r4: "(if free = AvailReleased
          then wake_in L HandshakeEgress (set_send sp run2) else ([], set_send sp run2)) = (evs2, run4)"
        by fastforce
      have "run' = run4" using body Pair ab bc r4 by simp
      moreover have "same_base run2 run4"
        using same_base_trans [OF _ wake_if_base [OF r4], of run2] by simp
      ultimately show ?thesis using same_base_trans [OF one] by simp
    qed
  qed
qed

lemma finish_read_base:
  assumes "finish_read N E L txn x q = Some (r, evs, wire, store, run')"
  shows "same_base (tn_run txn) run'"
proof -
  obtain flushed txn' where fin: "txn_finish N E txn = Some (flushed, txn')"
    using assms by (auto simp: finish_read_def split: Option.bind_splits)
  then have "tn_run txn' = tn_run txn"
    by (auto simp: txn_finish_def split: option.splits Option.bind_splits)
  moreover obtain evs' wire' store' run2 where
    cmp: "complete_read E L txn' = (evs', wire', store', run2)" using prod_cases4 by blast
  moreover have "wire' = wire \<and> store' = store \<and> run2 = run'"
    using assms fin cmp by (auto simp: finish_read_def Let_def split: sum.splits)
  ultimately show ?thesis
    using txn_release_base [of E L _ txn' "tn_recv txn'" evs' wire store run']
    by (simp add: complete_read_def)
qed

lemma received_base:
  assumes "do { (txn', x, result) \<leftarrow> txn_read read txn; finish_read N E L txn' x result } =
      Some (r, evs, wire, store, run')"
  shows "same_base (tn_run txn) run'"
  using assms same_base_trans [OF same_base_simps(2)]
  by (fastforce simp: txn_read_def split: Option.bind_splits dest!: finish_read_base)

lemma ingress_base:
  "ingress_process N E I L txn bs = Some (r, evs, wire, store, run') \<Longrightarrow> same_base (tn_run txn) run'"
  "read_lease N E I G L txn bs = Some (r', evs, wire, store, run') \<Longrightarrow> same_base (tn_run txn) run'"
  "complete_unread E I L txn = (evs, wire, store, run') \<Longrightarrow> same_base (tn_run txn) run'"
  by (auto simp: ingress_process_def read_lease_def complete_unread_def
      dest: received_base txn_release_base)

lemma try_reserve_base:
  assumes run: "try_reserve N E I L wire send run = (evs, oc)"
  shows "case oc of Ready txn \<Rightarrow> same_base run (tn_run txn)
    | Blocked _ (_, _, run') \<Rightarrow> same_base run run' | Failed _ (_, _, run') \<Rightarrow> same_base run run'"
proof -
  have wake: "same_base run run'"
    if "wake_in L Recv (set_recv a (set_send b (set_recv c run))) = (evs, run')" for a b c evs run'
    using same_base_trans [OF _ wake_in_base [OF that], of run]
    by (simp add: same_base_def)
  show ?thesis
    using run wake
    by (auto simp: try_reserve_def Let_def same_base_def
        split: sum.splits option.splits prod.splits bool.splits)
qed

section \<open>The invariant\<close>

definition held_slots :: "('c, 'b) session list \<Rightarrow> nat" where
  "held_slots ss = (\<Sum>s\<leftarrow>ss. of_bool (st_holding (se_store s)))"

text \<open>
  What a worker was bound with is all accounted for: receive slots are free or with a consumer, send
  slots free, cached, or with a session that has something to send, sessions free, cached or open.
  Every session, the cached one too, keeps its promise.
\<close>

definition worker_inv where
  "worker_inv E I L S V entries cap recvs sends sessions \<sigma> \<longleftrightarrow>
     (case \<sigma> of (run, ss, lent) \<Rightarrow>
       lanes_ok L entries cap (rn_waiters run) \<and>
       recv_available I (rn_recv run) + lent = recvs \<and>
       worker_slots E run + held_slots ss = sends \<and>
       session_slots S run + length ss = sessions \<and>
       (\<forall>s\<in>set ss. session_ok E V s) \<and>
       (\<forall>conn store. rn_pending run = Some (conn, store) \<longrightarrow> session_ok E V (new_session conn store)))"

lemma held_slots_update:
  assumes "i < length ss"
  shows "held_slots (ss[i := s]) + of_bool (st_holding (se_store (ss ! i))) =
    held_slots ss + of_bool (st_holding (se_store s))"
proof -
  have "held_slots ss = held_slots (take i ss) + of_bool (st_holding (se_store (ss ! i))) +
      held_slots (drop (Suc i) ss)"
    by (subst id_take_nth_drop [OF assms]) (simp add: held_slots_def)
  then show ?thesis using assms by (simp add: upd_conv_take_nth_drop held_slots_def)
qed

text \<open>One session moves: whatever its send owner and the pool exchange, the rest stays.\<close>

lemma session_moves:
  assumes inv: "worker_inv E I L S V entries cap recvs sends sessions (run, ss, lent)"
    and i: "i < length ss" and base: "same_base run run'"
    and lanes: "lanes_ok L entries cap (rn_waiters run')"
    and ok: "session_ok E V s"
    and send: "st_slots E (se_store s) (rn_send run') = st_slots E (se_store (ss ! i)) (rn_send run)"
    and recv: "recv_available I (rn_recv run') + lent' = recv_available I (rn_recv run) + lent"
  shows "worker_inv E I L S V entries cap recvs sends sessions (run', ss[i := s], lent')"
proof -
  have "worker_slots E run' + held_slots (ss[i := s]) = worker_slots E run + held_slots ss"
    using send base held_slots_update [OF i, of s]
    by (simp add: worker_slots_def store_slots_def st_slots_def same_base_def split: option.splits)
  moreover have "\<forall>x\<in>set (ss[i := s]). session_ok E V x"
    using inv ok set_update_subset_insert [of ss i s] by (auto simp: worker_inv_def)
  ultimately show ?thesis
    using inv base lanes recv
    by (simp add: worker_inv_def session_slots_def same_base_def)
qed

lemma worker_invD:
  assumes "worker_inv E I L S V entries cap recvs sends sessions (run, ss, lent)"
  shows "lanes_ok L entries cap (rn_waiters run)" "recv_available I (rn_recv run) + lent = recvs"
    "worker_slots E run + held_slots ss = sends" "session_slots S run + length ss = sessions"
    "i < length ss \<Longrightarrow> session_ok E V (ss ! i)"
    "rn_pending run = Some (conn, store) \<Longrightarrow> session_ok E V (new_session conn store)"
  using assms by (simp_all add: worker_inv_def)

section \<open>Every step keeps it\<close>

text \<open>A role opens connections through which nothing went yet.\<close>

definition fresh_laws :: "'c rustls_view \<Rightarrow> ('o, 'c) role \<Rightarrow> bool" where
  "fresh_laws V role \<longleftrightarrow> (\<forall>config c. role_open role config = Inr c \<longrightarrow>
     made V c = pend V c \<and> sent V c = [] \<and> got V c = [])"

definition worker_laws where
  "worker_laws k N E D M V U sb I content G taken bound S role \<longleftrightarrow>
     send_laws k N E D M V U sb \<and> recv_laws N I V content \<and> stream_laws I G taken bound \<and>
     session_laws S \<and> fresh_laws V role"

lemma worker_lawsD:
  assumes "worker_laws k N E D M V U sb I content G taken bound S role"
  shows "send_laws k N E D M V U sb" "recv_laws N I V content" "stream_laws I G taken bound"
    "session_laws S" "fresh_laws V role" "slot_laws I content"
  using assms recv_lawsD(4) by (auto simp: worker_laws_def)

lemma admitted_ready:
  assumes "recv_laws N I V content" and "session_ok E V s" and "\<not> failed (se_conn s)"
    and "admitted N E I L content entries cap (se_conn s) send run evs (Ready txn)"
  shows "read_ready N I V content (tn_wire txn) (tn_recv txn)" and "tn_wire txn = se_conn s"
  using assms session_okD(5) [OF assms(2,3)] by (simp_all add: read_ready_def admitted_def)

lemma process_session:
  assumes laws: "wire_laws N E V sb" "rustls_duplex_laws N V" and txn: "txn_ok txn"
    and lanes: "lanes_ok L entries cap (rn_waiters (tn_run txn))"
    and rdy: "read_ready N I V content (tn_wire txn) (tn_recv txn)"
    and run: "ingress_process N E I L txn bs = Some (r, evs, wire, store, run')"
  obtains x result rel where "receive_done E V L entries cap I txn x result rel r evs wire store run'"
    and "hands_out V (tn_wire txn) result (batch_bytes I (outcome r)) wire"
    and "batch_slots (outcome r) = of_bool (rel = RelRetained)"
proof -
  obtain x result rel where h: "batch_holds I V (tn_wire txn) x rel wire"
    and rd: "receive_done E V L entries cap I txn x result rel r evs wire store run'"
    using batch_reader.receive_run [OF laws txn lanes rdy, of bs] run
    by (auto simp: ingress_process_def)
  have "outcome r = x" using rd by (auto simp: receive_done_def read_outcome_def split: sum.splits)
  with h rd that show thesis
    by (auto simp: batch_holds_def hands_out_def batch_bytes_def batch_slots_def)
qed

lemma lease_session:
  assumes laws: "wire_laws N E V sb" "rustls_duplex_laws N V" and txn: "txn_ok txn"
    and lanes: "lanes_ok L entries cap (rn_waiters (tn_run txn))"
    and rdy: "read_ready N I V content (tn_wire txn) (tn_recv txn)" "stream_laws I G taken bound"
    and run: "read_lease N E I G L txn bs = Some (r, evs, wire, store, run')"
  obtains x result rel where "receive_done E V L entries cap I txn x result rel r evs wire store run'"
    and "hands_out V (tn_wire txn) result (stream_bytes I (outcome r)) wire"
    and "stream_slots (outcome r) = of_bool (rel = RelRetained)"
proof -
  obtain x result rel where h: "stream_holds I G taken bound V (tn_wire txn) x result rel wire"
    and rd: "receive_done E V L entries cap I txn x result rel r evs wire store run'"
    using stream_reader.receive_run [OF laws txn lanes conjI [OF rdy], of bs] run
    by (auto simp: read_lease_def)
  have "outcome r = x" using rd by (auto simp: receive_done_def read_outcome_def split: sum.splits)
  with h rd that show thesis
    by (cases x) (auto simp: stream_holds_def hands_out_def stream_bytes_def stream_slots_def)
qed

text \<open>A receive of either kind, from its admission on.\<close>

lemma received_inv:
  assumes inv: "worker_inv E I L S V entries cap recvs sends sessions (run, ss, lent)"
    and i: "i < length ss" and live: "\<not> failed (se_conn (ss ! i))"
    and ad: "admitted N E I L content entries cap (se_conn (ss ! i))
      (if lend then Some (se_store (ss ! i)) else None) run evs0 (Ready txn)"
    and base: "same_base run run'"
    and rd: "receive_done E V L entries cap I txn x result rel r evs wire store run'"
    and given: "hands_out V (tn_wire txn) result given wire"
    and slots: "kept = of_bool (rel = RelRetained)"
    and sent: "sent V (native wire) = sent V (native (se_conn (ss ! i)))"
  shows "worker_inv E I L S V entries cap recvs sends sessions
    (run', ss[i := received_session wire store given (ss ! i)], lent + kept)"
proof -
  note s = worker_invD(5) [OF inv i]
  have wire: "tn_wire txn = se_conn (ss ! i)"
    and recv: "recv_available I (rn_recv run) = Suc (recv_available I (rn_recv (tn_run txn)))"
    using ad by (simp_all add: admitted_def)
  note kept = received_session_ok [OF s live ad rd given [unfolded wire] sent]
  have "lanes_ok L entries cap (rn_waiters run')"
    "recv_available I (rn_recv run') + kept = recv_available I (rn_recv run)"
    using rd recv slots by (simp_all add: receive_done_def Let_def)
  with session_moves [OF inv i base _ kept, of "lent + kept"] show ?thesis by simp
qed

text \<open>The connection an opening hands over, as \<open>Connection::new\<close> made it, up to the frame.\<close>

definition bare_conn :: "'c \<Rightarrow> lease \<Rightarrow> 'c connection" where
  "bare_conn c lease = \<lparr> native = c, peer_closed = False, local_closed = False, failed = False,
     conn_lease = lease \<rparr>"

context wire_frame
begin

lemma connection_new_frame:
  "connection_new N E c lease store p = Some (Inr (conn, store'), p') \<Longrightarrow> R (bare_conn c lease) conn"
  using frame_refl
  by (auto simp: connection_new_def bare_conn_def Let_def
      split: option.splits Option.bind_splits sum.splits prod.splits if_splits dest!: emit_into_frame)

lemma endpoint_open_frame:
  assumes run: "endpoint_open N E S role give run ctx = Some (Opened x, run')"
    and none: "rn_pending run = None"
  obtains c lease conn store where "role_open role (rn_role run) = Inr c"
    and "R (bare_conn c lease) conn" and "give ctx conn store = (x, rn_pending run')"
proof -
  note body = run [unfolded endpoint_open_def none option.case]
  obtain lease ss where tk: "session_take S (rn_sessions run) = Some (lease, ss)"
    using body by (auto split: option.splits)
  note body = body [unfolded tk option.case prod.case Let_def]
  obtain store p where sp: "open_cursor E role (rn_send (set_sessions ss run)) = Some (store, p)"
    using body by (auto split: option.splits)
  note body = body [unfolded sp option.case prod.case]
  obtain opened p' where op: "open_parts N E role (rn_role run) lease store p = Some (opened, p')"
    using body by (auto split: Option.bind_splits)
  note body = body [unfolded op bind.bind_lunit prod.case]
  obtain conn store' where "opened = Inr (conn, store')"
    and hand: "hand_over give ctx (conn, store') (set_send p' (set_sessions ss run)) = (Opened x, run')"
  proof (cases opened)
    case (Inl cause)
    with body show thesis by (cases cause) simp_all
  next
    case (Inr parts)
    with body that show thesis by (cases parts) simp
  qed
  with op obtain c where c: "role_open role (rn_role run) = Inr c"
    "connection_new N E c lease store p = Some (Inr (conn, store'), p')"
    by (auto simp: open_parts_def split: sum.splits)
  have "give ctx conn store' = (x, rn_pending run')"
    using hand none by (auto simp: hand_over_def split: prod.splits option.splits)
  then show thesis by (rule that [OF c(1) connection_new_frame [OF c(2)]])
qed

end

interpretation plain_sent: wire_frame N "\<lambda>c d. same_plain N V c d \<and> same_sent N V c d"
proof (unfold_locales, goal_cases)
  case (2 c d e)
  then show ?case using plain_frame.frame_trans sent_close.frame_trans by metis
qed (auto intro: plain_frame.frame_refl sent_close.frame_refl plain_frame.frame_failed
    sent_close.frame_failed dest: plain_frame.frame_write_tls sent_close.frame_write_tls)

text \<open>The connection an opening hands over keeps the promise of a new session.\<close>

lemma opened_session_ok:
  assumes laws: "worker_laws k N E D M V U sb I content G taken bound S role"
    and run: "endpoint_open N E S role keep_or_leave run keep = Some (Opened x, run')"
    and pending: "\<And>conn store. rn_pending run = Some (conn, store) \<Longrightarrow> session_ok E V (new_session conn store)"
    and give: "keep_or_leave keep conn store = (x, rn_pending run')"
    and origin: "case rn_pending run of Some parts \<Rightarrow> parts = (conn, store)
      | None \<Rightarrow> \<exists>c. role_open role (rn_role run) = Inr c \<and> fresh_conn E V c conn store"
  shows "session_ok E V (new_session conn store)"
proof (cases "rn_pending run")
  case (Some parts)
  with origin pending show ?thesis by simp
next
  case None
  note L = send_lawsD [OF worker_lawsD(1) [OF laws]]
  from None origin obtain c where c: "role_open role (rn_role run) = Inr c" "fresh_conn E V c conn store"
    by auto
  obtain c2 lease conn2 store2 where c2: "role_open role (rn_role run) = Inr c2"
    "same_plain N V (bare_conn c2 lease) conn2 \<and> same_sent N V (bare_conn c2 lease) conn2"
    "keep_or_leave keep conn2 store2 = (x, rn_pending run')"
    by (rule plain_sent.endpoint_open_frame [OF run None])
  moreover from c2(1) c(1) have "c2 = c" by simp
  moreover have "conn2 = conn" using keep_or_leave_inj [of keep conn2 store2 conn store] c2(3) give by simp
  ultimately have "same_plain N V (bare_conn c lease) conn" "same_sent N V (bare_conn c lease) conn"
    by simp_all
  moreover have "made V c = pend V c" "sent V c = []" "got V c = []"
    using worker_lawsD(5) [OF laws] c(1) by (auto simp: fresh_laws_def)
  ultimately show ?thesis
    using c(2) L(6-9)
    by (simp add: session_ok_def new_session_def fresh_conn_def same_plain_def same_sent_def
        bare_conn_def unread_def)
qed

context protocol
begin

text \<open>An opening: the connection handed over keeps the promise of a new session.\<close>

lemma open_inv:
  assumes laws: "worker_laws k N E D M V U sb I content G taken bound S role" and lawful: lawful
    and inv: "worker_inv E I L S V entries cap recvs sends sessions (run, ss, lent)"
    and run: "endpoint_open N E S role keep_or_leave run keep = Some (oc, run')"
  shows "worker_inv E I L S V entries cap recvs sends sessions (run', ss @ opened_session oc, lent)"
proof -
  note L = send_lawsD [OF worker_lawsD(1) [OF laws]]
  have op: "opens E V S role keep_or_leave run keep oc run'"
    using open_run [OF L(1) lawful worker_lawsD(4) [OF laws], of keep_or_leave run keep] run by auto
  note same = op [unfolded opens_def, THEN conjunct1] op [unfolded opens_def, THEN conjunct2, THEN conjunct1]
  show ?thesis
  proof (cases oc)
    case (Unavailable x)
    with op inv show ?thesis by (auto simp: opens_def worker_inv_def opened_session_def)
  next
    case (OpenFailed x cause)
    with op inv show ?thesis by (auto simp: opens_def worker_inv_def opened_session_def)
  next
    case (Opened x)
    then obtain conn store where give: "keep_or_leave keep conn store = (x, rn_pending run')"
      and slots: "Suc (session_available S (rn_sessions run')) = session_slots S run"
        "store_slots E (Some store) (rn_send run') = worker_slots E run"
      and origin: "case rn_pending run of Some parts \<Rightarrow> parts = (conn, store)
        | None \<Rightarrow> \<exists>c. role_open role (rn_role run) = Inr c \<and> fresh_conn E V c conn store"
      using op by (auto simp: opens_def)
    have ok: "session_ok E V (new_session conn store)"
      using opened_session_ok [OF laws run [unfolded Opened] worker_invD(6) [OF inv] give origin] .
    show ?thesis
    proof (cases keep)
      case True
      with give have "x = Some (conn, store)" "rn_pending run' = None"
        by (auto simp: keep_or_leave_def)
      with Opened ok inv slots op show ?thesis
        by (simp add: worker_inv_def opened_session_def opens_def worker_slots_def store_slots_def
            session_slots_def held_slots_def new_session_def)
    next
      case False
      with give have "x = None" "rn_pending run' = Some (conn, store)"
        by (auto simp: keep_or_leave_def)
      with Opened ok inv slots op show ?thesis
        by (simp add: worker_inv_def opened_session_def opens_def worker_slots_def store_slots_def
            session_slots_def)
    qed
  qed
qed

end

text \<open>Closing a session and replacing the role give everything back.\<close>

lemma released_slots:
  "pool_laws E \<Longrightarrow> pool_available E (snd (st_release E store p)) = st_slots E store p"
  using pool_lawsD(5) by (auto simp: st_release_def st_slots_def st_holding_def split: option.split)

lemma retire_inv:
  assumes pool: "pool_laws E" and sl: "session_laws S" and i: "i < length ss"
    and inv: "worker_inv E I L S V entries cap recvs sends sessions (run, ss, lent)"
  shows "worker_inv E I L S V entries cap recvs sends sessions
    (retire_session S E (ss ! i) run, take i ss @ drop (Suc i) ss, lent)"
proof -
  obtain ts where ts: "ts = take i ss @ drop (Suc i) ss" by simp
  have "held_slots ss = held_slots ts + of_bool (st_holding (se_store (ss ! i)))"
    unfolding ts by (subst id_take_nth_drop [OF i]) (simp add: held_slots_def)
  moreover have "length ss = Suc (length ts)" using i by (simp add: ts)
  moreover have "\<forall>s\<in>set ts. session_ok E V s"
    using inv by (auto simp: ts worker_inv_def dest: in_set_takeD in_set_dropD)
  moreover have "worker_slots E (retire_session S E (ss ! i) run) =
      worker_slots E run + of_bool (st_holding (se_store (ss ! i)))"
    "session_slots S (retire_session S E (ss ! i) run) = Suc (session_slots S run)"
    "rn_waiters (retire_session S E (ss ! i) run) = rn_waiters run"
    "rn_recv (retire_session S E (ss ! i) run) = rn_recv run"
    "rn_pending (retire_session S E (ss ! i) run) = rn_pending run"
    using session_lawsD(3) [OF sl] released_slots [OF pool]
    by (simp_all add: retire_session_def worker_slots_def store_slots_def session_slots_def st_slots_def)
  ultimately show ?thesis
    using inv unfolding ts [symmetric] by (simp add: worker_inv_def)
qed

lemma reconfigure_inv:
  assumes pool: "pool_laws E" and sl: "session_laws S"
    and inv: "worker_inv E I L S V entries cap recvs sends sessions (run, ss, lent)"
  shows "worker_inv E I L S V entries cap recvs sends sessions (reconfigure S E run config, ss, lent)"
proof (cases "rn_pending run")
  case None
  with inv show ?thesis
    by (simp add: worker_inv_def reconfigure_def drop_pending_def worker_slots_def session_slots_def)
next
  case (Some parts)
  obtain conn store where parts: "parts = (conn, store)" by (cases parts)
  have "worker_slots E (reconfigure S E run config) = worker_slots E run"
    "session_slots S (reconfigure S E run config) = session_slots S run"
    "rn_waiters (reconfigure S E run config) = rn_waiters run"
    "rn_recv (reconfigure S E run config) = rn_recv run" "rn_pending (reconfigure S E run config) = None"
    using session_lawsD(3) [OF sl] released_slots [OF pool]
    by (simp_all add: reconfigure_def drop_pending_def Some parts worker_slots_def store_slots_def
        session_slots_def st_slots_def)
  with inv show ?thesis by (simp add: worker_inv_def)
qed

text \<open>Receives that end before their read.\<close>

lemma admitted_spec:
  assumes "worker_laws k N E D M V U sb I content G taken bound S role"
    and "worker_inv E I L S V entries cap recvs sends sessions (run, ss, lent)"
    and "try_reserve N E I L wire send run = (evs, oc)"
  shows "admitted N E I L content entries cap wire send run evs oc"
  using try_reserve_spec [OF worker_lawsD(6) [OF assms(1)]
      send_lawsD(11) [OF worker_lawsD(1) [OF assms(1)]] worker_invD(1) [OF assms(2)] assms(3)] .

lemma refused_inv:
  assumes inv: "worker_inv E I L S V entries cap recvs sends sessions (run, ss, lent)"
    and i: "i < length ss" and base: "same_base run run'"
    and ad: "admitted N E I L content entries cap (se_conn (ss ! i))
      (if lend then Some (se_store (ss ! i)) else None) run evs oc"
    and oc: "oc = Blocked kind (wire, store, run') \<or> oc = Failed cause (wire, store, run')"
  shows "worker_inv E I L S V entries cap recvs sends sessions
    (run', ss[i := received_session wire store [] (ss ! i)], lent)"
proof -
  note s = worker_invD(5) [OF inv i]
  have kept: "store = (if lend then Some (se_store (ss ! i)) else None)"
    and recv: "recv_available I (rn_recv run') = recv_available I (rn_recv run)"
    and send: "rn_send run' = rn_send run" and lanes: "lanes_ok L entries cap (rn_waiters run')"
    using ad oc worker_invD(1) [OF inv] by (cases kind; auto simp: admitted_def)+
  then have store: "(case store of Some st \<Rightarrow> st | None \<Rightarrow> se_store (ss ! i)) = se_store (ss ! i)"
    by simp
  have "wire = se_conn (ss ! i) \<or> wire = (se_conn (ss ! i))\<lparr>failed := True\<rparr>"
    using ad oc by (cases kind) (auto simp: admitted_def)
  then have "session_ok E V (received_session wire store [] (ss ! i))"
    using s store by (auto simp: session_ok_def received_session_def)
  from session_moves [OF inv i base lanes this] send recv store show ?thesis
    by (simp add: received_session_def)
qed

lemma send_inv:
  assumes laws: "send_laws k N E D M V U sb" and i: "i < length ss" and fresh: "call_fresh D M call"
    and inv: "worker_inv E I L S V entries cap recvs sends sessions (run, ss, lent)"
    and run: "send_run k N E D M call (session_tx (ss ! i) (rn_send run)) = Some (n, t)"
  shows "worker_inv E I L S V entries cap recvs sends sessions
    (set_send (tx_pool t) run, ss[i := sent_session E U call n t (ss ! i)], lent)"
proof -
  have "traffic_ok E V (call_plain U call) (call_sent (st_as_slice E (se_store (ss ! i))) call) n
      (session_tx (ss ! i) (rn_send run)) t"
    using send_run_ok [OF laws fresh, of "session_tx (ss ! i) (rn_send run)"] run
    by (auto simp: session_tx_def)
  note ok = sent_session_ok [OF worker_invD(5) [OF inv i] this]
  show ?thesis
    by (rule session_moves [OF inv i _ _ ok(1)])
      (use ok(2) worker_invD(1) [OF inv] in \<open>simp_all add: sent_session_def\<close>)
qed

lemma ready_facts:
  assumes laws: "worker_laws k N E D M V U sb I content G taken bound S role"
    and inv: "worker_inv E I L S V entries cap recvs sends sessions (run, ss, lent)"
    and res: "try_reserve N E I L wire (if lend then Some st else None) run = (evs0, Ready txn)"
  shows "admitted N E I L content entries cap wire (if lend then Some st else None) run evs0 (Ready txn)"
    and "same_base run (tn_run txn)" and "txn_ok txn"
    and "lanes_ok L entries cap (rn_waiters (tn_run txn))"
    and "recv_available I (rn_recv run) = Suc (recv_available I (rn_recv (tn_run txn)))"
proof -
  show ad: "admitted N E I L content entries cap wire (if lend then Some st else None) run evs0 (Ready txn)"
    using admitted_spec [OF laws inv res] .
  show "same_base run (tn_run txn)" using try_reserve_base [OF res] by simp
  show "txn_ok txn" "lanes_ok L entries cap (rn_waiters (tn_run txn))"
    "recv_available I (rn_recv run) = Suc (recv_available I (rn_recv (tn_run txn)))"
    using ad worker_invD(1) [OF inv] by (auto simp: admitted_def txn_ok_def st_holding_def
        split: option.splits)
qed

lemma read_inv:
  assumes laws: "worker_laws k N E D M V U sb I content G taken bound S role"
    and inv: "worker_inv E I L S V entries cap recvs sends sessions (run, ss, lent)"
    and i: "i < length ss" and live: "\<not> failed (se_conn (ss ! i))"
    and res: "try_reserve N E I L (se_conn (ss ! i)) (if lend then Some (se_store (ss ! i)) else None)
      run = (evs0, Ready txn)"
  shows "ingress_process N E I L txn bs = Some (r, evs, wire, store, run') \<Longrightarrow>
      worker_inv E I L S V entries cap recvs sends sessions
        (run', ss[i := received_session wire store (batch_bytes I (outcome r)) (ss ! i)],
         lent + batch_slots (outcome r))"
    and "read_lease N E I G L txn bs = Some (x, evs, wire, store, run') \<Longrightarrow>
      worker_inv E I L S V entries cap recvs sends sessions
        (run', ss[i := received_session wire store (stream_bytes I (outcome x)) (ss ! i)],
         lent + stream_slots (outcome x))"
proof -
  note S = send_lawsD [OF worker_lawsD(1) [OF laws]]
  note rf = ready_facts [OF laws inv res]
  note rdy = admitted_ready [OF worker_lawsD(2) [OF laws] worker_invD(5) [OF inv i] live rf(1)]
  have sent: "sent V (native wire) = sent V (native (se_conn (ss ! i)))"
    if "same_sent N V (tn_wire txn) wire" for wire
    using that S(8,9) rdy(2) by (simp add: same_sent_def)
  note received = received_inv [OF inv i live rf(1) same_base_trans [OF rf(2)]]
  show "worker_inv E I L S V entries cap recvs sends sessions
        (run', ss[i := received_session wire store (batch_bytes I (outcome r)) (ss ! i)],
         lent + batch_slots (outcome r))"
    if run: "ingress_process N E I L txn bs = Some (r, evs, wire, store, run')"
    using process_session [OF S(1,7) rf(3,4) rdy(1) run] received [OF ingress_base(1) [OF run]]
      sent [OF sent_frame.ingress_frame(1) [OF run]] by metis
  show "worker_inv E I L S V entries cap recvs sends sessions
        (run', ss[i := received_session wire store (stream_bytes I (outcome x)) (ss ! i)],
         lent + stream_slots (outcome x))"
    if run: "read_lease N E I G L txn bs = Some (x, evs, wire, store, run')"
    using lease_session [OF S(1,7) rf(3,4) rdy(1) worker_lawsD(3) [OF laws] run]
      received [OF ingress_base(2) [OF run]] sent [OF sent_frame.ingress_frame(2) [OF run]] by metis
qed

lemma unread_inv:
  assumes laws: "worker_laws k N E D M V U sb I content G taken bound S role"
    and inv: "worker_inv E I L S V entries cap recvs sends sessions (run, ss, lent)"
    and i: "i < length ss"
    and res: "try_reserve N E I L (se_conn (ss ! i)) (if lend then Some (se_store (ss ! i)) else None)
      run = (evs0, Ready txn)"
    and run: "complete_unread E I L txn = (evs, wire, store, run')"
  shows "worker_inv E I L S V entries cap recvs sends sessions
    (run', ss[i := received_session wire store [] (ss ! i)], lent)"
proof -
  note S = send_lawsD [OF worker_lawsD(1) [OF laws]]
  note rf = ready_facts [OF laws inv res]
  have "slot_inv I content (rn_recv (tn_run txn))"
    using worker_lawsD(6) [OF laws] by (simp add: slot_inv_def)
  note gb = unread_txn.release_spec [OF this S(10,11) rf(4,3) run [unfolded complete_unread_def]]
  have "lanes_ok L entries cap (rn_waiters run')"
    "recv_available I (rn_recv run') + lent = recv_available I (rn_recv run) + lent"
    using gb rf(5) by (simp_all add: given_back_def)
  then show ?thesis
    by (rule session_moves [OF inv i same_base_trans [OF rf(2) ingress_base(3) [OF run]] _
        unread_session_ok [OF worker_invD(5) [OF inv i] rf(1) gb]])
qed

text \<open>Steps that touch no session: the waiters, and a slot given back.\<close>

lemma quiet_inv:
  assumes inv: "worker_inv E I L S V entries cap recvs sends sessions (run, ss, lent)"
    and base: "same_base run run'" and send: "rn_send run' = rn_send run"
    and recv: "recv_available I (rn_recv run') + lent' = recv_available I (rn_recv run) + lent"
    and lanes: "lanes_ok L entries cap (rn_waiters run')"
  shows "worker_inv E I L S V entries cap recvs sends sessions (run', ss, lent')"
  using assms by (simp add: worker_inv_def same_base_def worker_slots_def session_slots_def)

context protocol
begin

lemma step_inv:
  assumes laws: "worker_laws k N E D M V U sb I content G taken bound S role" and lawful: lawful
    and step: "worker_step k N E D M I G L S role U \<sigma> \<sigma>'"
    and inv: "worker_inv E I L S V entries cap recvs sends sessions \<sigma>"
  shows "worker_inv E I L S V entries cap recvs sends sessions \<sigma>'"
  using step inv
proof (cases rule: worker_step.cases)
  case (Send i ss call run n t lent)
  with inv send_inv [OF worker_lawsD(1) [OF laws]] show ?thesis by blast
next
  case (Receive i ss lend run evs0 txn bs r evs wire store run' lent)
  with inv read_inv(1) [OF laws] show ?thesis by blast
next
  case (Lease i ss lend run evs0 txn bs x evs wire store run' lent)
  with inv read_inv(2) [OF laws] show ?thesis by blast
next
  case (Unread i ss lend run evs0 txn evs wire store run' lent)
  with inv unread_inv [OF laws] show ?thesis by blast
next
  case (Blocked i ss lend run evs kind wire store run' lent)
  have "same_base run run'" using try_reserve_base [OF Blocked(4)] by simp
  from refused_inv [OF inv [unfolded Blocked(1)] Blocked(3) this
      admitted_spec [OF laws inv [unfolded Blocked(1)] Blocked(4)]] show ?thesis
    unfolding Blocked(2) by simp
next
  case (Refused i ss lend run evs cause wire store run' lent)
  have "same_base run run'" using try_reserve_base [OF Refused(4)] by simp
  from refused_inv [OF inv [unfolded Refused(1)] Refused(3) this
      admitted_spec [OF laws inv [unfolded Refused(1)] Refused(4)]] show ?thesis
    unfolding Refused(2) by simp
next
  case (Eof i ss u conn run lent)
  note inv' = inv [unfolded Eof(1)]
  note W = recv_lawsD [OF worker_lawsD(2) [OF laws]] send_lawsD(8,9) [OF worker_lawsD(1) [OF laws]]
  from eof_session_ok [OF W(1,2) W(7) W(6) worker_invD(5) [OF inv' Eof(3)] Eof(4)]
  show ?thesis unfolding Eof(2)
    by (rule session_moves [OF inv' Eof(3) same_base_simps(1) worker_invD(1) [OF inv']]) simp_all
next
  case (Wait op run ins outs q ss lent)
  note inv' = inv [unfolded Wait(1)]
  note lanes = conjunct1 [OF wait_step_conserves [OF worker_invD(1) [OF inv'] Wait(3)]]
  show ?thesis
    unfolding Wait(2) by (rule quiet_inv [OF inv']) (use lanes in simp_all)
next
  case (Return run ss lent c)
  note inv' = inv [unfolded Return(1)]
  show ?thesis
    unfolding Return(2) using recv_return_available(2) [OF worker_lawsD(6) [OF laws]]
    by (intro quiet_inv [OF inv']) (simp_all add: worker_invD(1) [OF inv'])
next
  case (Open run keep oc run' ss lent)
  with inv open_inv [OF laws lawful] show ?thesis by blast
next
  case (Retire i ss run lent)
  with inv retire_inv [OF send_lawsD(11) [OF worker_lawsD(1) [OF laws]] worker_lawsD(4) [OF laws]]
  show ?thesis by blast
next
  case (Reconfigure run ss lent config)
  show ?thesis
    unfolding Reconfigure(2)
    by (rule reconfigure_inv [OF send_lawsD(11) [OF worker_lawsD(1) [OF laws]] worker_lawsD(4) [OF laws]
          inv [unfolded Reconfigure(1)]])
qed

lemma run_inv:
  assumes laws: "worker_laws k N E D M V U sb I content G taken bound S role" and lawful: lawful
    and run: "(worker_step k N E D M I G L S role U)\<^sup>*\<^sup>* \<sigma> \<sigma>'"
    and inv: "worker_inv E I L S V entries cap recvs sends sessions \<sigma>"
  shows "worker_inv E I L S V entries cap recvs sends sessions \<sigma>'"
  using run by (induction rule: rtranclp_induct) (auto intro: inv step_inv [OF laws lawful])

end

end
