(* ===== verification/Worker_Correct.thy ===== *)
theory Worker_Correct
  imports Worker
begin

text \<open>
  What holds of a worker in every state it can reach: its resources are accounted for, every byte goes
  where it belongs, in order, in both directions, no call hangs, and no connection is revived.
\<close>

section \<open>Reachable states\<close>

text \<open>The contract of a role, as a predicate; both roles of the crate keep it.\<close>

definition lawful_role :: "('c, 's) rustls \<Rightarrow> ('o, 'c) role \<Rightarrow> bool" where
  "lawful_role N role \<longleftrightarrow>
     (\<forall>config c. role_open role config = Inr c \<longrightarrow> \<not> send_on_open role \<longrightarrow> \<not> wants_write N c) \<and>
     (\<forall>config. role_open role config \<noteq> Inl BufferUnavailable)"

lemma lawful_protocol: "lawful_role N role \<Longrightarrow> protocol N role True"
  by unfold_locales (auto simp: lawful_role_def)

lemma lawful_roles: "role_laws N R \<Longrightarrow> lawful_role N (server_role R)" "lawful_role N (client_role R)"
  using server.quiet [of N R] server.never_unavailable [of R] client.never_unavailable [of R]
  by (auto simp: lawful_role_def client_role_def)

text \<open>The states of a worker that started with no session and no cached opening.\<close>

definition reaches where
  "reaches k N E D M I G L S role U run \<sigma> \<longleftrightarrow> rn_pending run = None \<and>
     (worker_step k N E D M I G L S role U)\<^sup>*\<^sup>* (run, [], 0) \<sigma>"

lemma reaches_inv:
  assumes laws: "worker_laws k N E D M V U sb I content G taken bound S role"
    and role: "lawful_role N role" and lanes: "lanes_ok L entries cap (rn_waiters run)"
    and run: "reaches k N E D M I G L S role U run \<sigma>"
  shows "worker_inv E I L S V entries cap (recv_available I (rn_recv run))
    (pool_available E (rn_send run)) (session_available S (rn_sessions run)) \<sigma>"
proof -
  have "worker_inv E I L S V entries cap (recv_available I (rn_recv run))
      (pool_available E (rn_send run)) (session_available S (rn_sessions run)) (run, [], 0)"
    using lanes run
    by (simp add: worker_inv_def reaches_def worker_slots_def store_slots_def session_slots_def
        held_slots_def)
  moreover have "(worker_step k N E D M I G L S role U)\<^sup>*\<^sup>* (run, [], 0) \<sigma>"
    using run by (simp add: reaches_def)
  ultimately show ?thesis
    using protocol.run_inv [OF lawful_protocol [OF role] laws TrueI] by metis
qed

section \<open>Properties\<close>

text \<open>
  C34. Nothing leaks, whatever the driver does: in every state a worker reaches, the receive slots it
  was bound with are free or with a consumer, the send slots free, with the cached opening, or with a
  session that has ciphertext to send, and its sessions free, cached or open. A credit waits at most
  once.
\<close>

theorem worker_accounts:
  assumes "worker_laws k N E D M V U sb I content G taken bound S role" and "lawful_role N role"
    and "lanes_ok L entries cap (rn_waiters run)"
    and "reaches k N E D M I G L S role U run (run', ss, lent)"
  shows "recv_available I (rn_recv run') + lent = recv_available I (rn_recv run) \<and>
    worker_slots E run' + held_slots ss = pool_available E (rn_send run) \<and>
    session_slots S run' + length ss = session_available S (rn_sessions run) \<and>
    (\<forall>s\<in>set ss. st_holding (se_store s) \<longleftrightarrow> st_as_slice E (se_store s) \<noteq> []) \<and>
    (\<forall>res. distinct (map id_slot (waiting entries res (rn_waiters run'))))"
  using reaches_inv [OF assms] waiting_distinct
  by (auto simp: worker_inv_def session_ok_def)

text \<open>
  C35. Every byte arrives once and in order, in both directions: in every reachable state, for every
  session, all ciphertext ever made is what was handed to the transport, followed by what its cursor
  holds, followed by what is queued; the plaintext sealed is exactly what plans report as consumed;
  and the plaintext handed out is a prefix of that authenticated, all of it unless the connection
  failed.
\<close>

theorem worker_in_order:
  assumes "worker_laws k N E D M V U sb I content G taken bound S role" and "lawful_role N role"
    and "lanes_ok L entries cap (rn_waiters run)"
    and "reaches k N E D M I G L S role U run (run', ss, lent)" and "s \<in> set ss"
  shows "made V (native (se_conn s)) =
      se_wire s @ st_as_slice E (se_store s) @ pend V (native (se_conn s)) \<and>
    sent V (native (se_conn s)) = se_sealed s \<and>
    prefix (se_given s) (got V (native (se_conn s))) \<and>
    (\<not> failed (se_conn s) \<longrightarrow> se_given s = got V (native (se_conn s)))"
  using reaches_inv [OF assms(1-4)] assms(5) by (auto simp: worker_inv_def session_ok_def)

text \<open>
  C36. No call hangs: in every reachable state each call of the send side returns for every session,
  and so does a receive that was admitted, borrowed or leased, on a connection that has not failed,
  and an opening. The loops of draining, sealing and decrypting all end.
\<close>

theorem worker_calls_return:
  assumes laws: "worker_laws k N E D M V U sb I content G taken bound S role"
    and role: "lawful_role N role" and lanes: "lanes_ok L entries cap (rn_waiters run)"
    and run: "reaches k N E D M I G L S role U run (run', ss, lent)"
    and i: "i < length ss"
  shows "(call_fresh D M call \<longrightarrow>
      send_run k N E D M call (session_tx (ss ! i) (rn_send run')) \<noteq> None) \<and>
    (\<not> failed (se_conn (ss ! i)) \<longrightarrow>
      try_reserve N E I L (se_conn (ss ! i)) (if lend then Some (se_store (ss ! i)) else None) run' =
        (evs, Ready txn) \<longrightarrow>
      ingress_process N E I L txn bs \<noteq> None \<and> read_lease N E I G L txn bs \<noteq> None) \<and>
    endpoint_open N E S role give run' ctx \<noteq> None"
proof -
  note inv = reaches_inv [OF laws role lanes run]
  note S = send_lawsD [OF worker_lawsD(1) [OF laws]]
  have "send_run k N E D M call (session_tx (ss ! i) (rn_send run')) \<noteq> None" if "call_fresh D M call"
    using send_run_ok [OF worker_lawsD(1) [OF laws] that, of "session_tx (ss ! i) (rn_send run')"]
    by (metis option.distinct(1))
  moreover have "ingress_process N E I L txn bs \<noteq> None \<and> read_lease N E I G L txn bs \<noteq> None"
    if live: "\<not> failed (se_conn (ss ! i))"
      and res: "try_reserve N E I L (se_conn (ss ! i))
        (if lend then Some (se_store (ss ! i)) else None) run' = (evs, Ready txn)"
  proof -
    note rf = ready_facts [OF laws inv res]
    note rdy = admitted_ready(1) [OF worker_lawsD(2) [OF laws] worker_invD(5) [OF inv i] live rf(1)]
    from batch_reader.receive_run [OF S(1,7) rf(3,4) rdy, of bs]
      stream_reader.receive_run [OF S(1,7) rf(3,4) conjI [OF rdy worker_lawsD(3) [OF laws]], of bs]
    show ?thesis by (auto simp: ingress_process_def read_lease_def)
  qed
  moreover have "endpoint_open N E S role give run' ctx \<noteq> None"
    using protocol.open_run [OF lawful_protocol [OF role] S(1) TrueI worker_lawsD(4) [OF laws],
        of give run' ctx] by auto
  ultimately show ?thesis by blast
qed


section \<open>Witnesses\<close>

text \<open>A client's worker of two sessions, two receive slots and a send cursor, after one opening.\<close>

definition ref_worker_run where
  "ref_worker_run = \<lparr> rn_pending = (None :: (ref_conn connection \<times> ref_cursor send_state) option),
     rn_buffers = \<lparr> po_sessions = (2 :: nat), po_recv = (Fixed 2 :: (nat, nat) receive),
                    po_send = ((1, 4) :: ref_pool) \<rparr>,
     rn_waiters = (\<lambda>_ :: nat. [] :: (nat \<times> credit_id) list),
     rn_role = (\<lparr> cp_config = [[3]], cp_name = [1, 2] \<rparr> :: (bytes list, bytes) client_plan) \<rparr>"

definition ref_opened :: "(ref_conn, ref_cursor) session" where
  "ref_opened = new_session
     (bare_conn (ref_idle\<lparr>rc_made := [1, 2, 3], rc_out := []\<rparr>) (Lease 1)) \<lparr> buffer = Some ([1, 2, 3], 2) \<rparr>"

definition ref_opened_run where
  "ref_opened_run = set_send (0, 4) (set_sessions 1 ref_worker_run)"

abbreviation ref_reaches where
  "ref_reaches \<equiv> reaches 2 (ref_rustls :: (ref_conn, ref_cursor) rustls) ref_egress ref_plan ref_vplan
     ref_ingress ref_segment ref_lanes ref_sessions (client_role ref_roles) ref_plan_view"

lemma ref_fresh_laws: "fresh_laws ref_view (client_role ref_roles)"
  by (auto simp: fresh_laws_def client_role_def client_open_def ref_roles_def ref_view_def ref_idle_def
      ref_produce_def ref_queue_def split: sum.splits)

lemma ref_worker_laws: "worker_laws 2 (ref_rustls :: (ref_conn, ref_cursor) rustls) ref_egress ref_plan
    ref_vplan ref_view ref_plan_view fst ref_ingress id ref_segment snd 100 ref_sessions
    (client_role ref_roles)"
  by (simp add: worker_laws_def send_laws_def plain_laws_def many_laws_def ref_wire_laws ref_plan_laws
      ref_vplan_laws ref_rustls_in_laws ref_rustls_duplex_laws ref_rustls_split_laws ref_recv_laws
      ref_stream_laws ref_session_laws ref_fresh_laws)

lemma ref_worker_lanes: "lanes_ok ref_lanes id 4 (rn_waiters ref_worker_run)"
  by (simp add: lanes_ok_def ref_lanes_laws ref_worker_run_def)

lemma ref_parts:
  "open_cursor ref_egress (client_role ref_roles) (1, 4) = Some (\<lparr> buffer = Some ([], 5) \<rparr>, (0, 4))"
  "open_parts (ref_rustls :: (ref_conn, ref_cursor) rustls) ref_egress (client_role ref_roles)
     \<lparr> cp_config = [[3]], cp_name = [1, 2] \<rparr> (Lease 1) \<lparr> buffer = Some ([], 5) \<rparr> (0, 4) =
   Some (Inr (se_conn ref_opened, se_store ref_opened), (0, 4))"
  by code_simp+

lemma ref_worker_reaches: "ref_reaches ref_worker_run (ref_opened_run, [ref_opened], 0)"
proof -
  have "session_take ref_sessions 2 = Some (Lease 1, 1)"
    by (simp add: ref_sessions_def numeral_2_eq_2)
  with ref_parts have "endpoint_open (ref_rustls :: (ref_conn, ref_cursor) rustls) ref_egress
      ref_sessions (client_role ref_roles) keep_or_leave ref_worker_run True =
    Some (Opened (Some (se_conn ref_opened, se_store ref_opened)), ref_opened_run)"
    by (simp add: endpoint_open_def ref_worker_run_def ref_opened_run_def set_sessions_def set_send_def
        hand_over_def keep_or_leave_def)
  note step = worker_step.Open [OF this, of 2 ref_plan ref_vplan ref_ingress ref_segment ref_lanes
      ref_plan_view "[]" 0]
  show ?thesis
    unfolding reaches_def
  proof
    show "rn_pending ref_worker_run = None" by (simp add: ref_worker_run_def)
    have "[] @ opened_session (Opened (Some (se_conn ref_opened, se_store ref_opened))) = [ref_opened]"
      by (simp add: opened_session_def ref_opened_def new_session_def)
    with step show "(worker_step 2 (ref_rustls :: (ref_conn, ref_cursor) rustls) ref_egress ref_plan
        ref_vplan ref_ingress ref_segment ref_lanes ref_sessions (client_role ref_roles)
        ref_plan_view)\<^sup>*\<^sup>* (ref_worker_run, [], 0) (ref_opened_run, [ref_opened], 0)"
      by (metis r_into_rtranclp)
  qed
qed

lemma worker_accounts_witness:
  "recv_available ref_ingress (rn_recv ref_opened_run) + 0 =
     recv_available ref_ingress (rn_recv ref_worker_run) \<and>
   worker_slots ref_egress ref_opened_run + held_slots [ref_opened] =
     pool_available ref_egress (rn_send ref_worker_run) \<and>
   session_slots ref_sessions ref_opened_run + length [ref_opened] =
     session_available ref_sessions (rn_sessions ref_worker_run)"
  using worker_accounts [OF ref_worker_laws lawful_roles(2) ref_worker_lanes ref_worker_reaches]
  by blast

lemma worker_in_order_witness:
  "made ref_view (native (se_conn ref_opened)) = [1, 2, 3] \<and> se_wire ref_opened = [] \<and>
   st_as_slice ref_egress (se_store ref_opened) @ pend ref_view (native (se_conn ref_opened)) = [1, 2, 3]"
proof -
  have "made ref_view (native (se_conn ref_opened)) = [1, 2, 3]" "se_wire ref_opened = []"
    by (simp_all add: ref_opened_def new_session_def bare_conn_def ref_view_def)
  then show ?thesis
    using worker_in_order [OF ref_worker_laws lawful_roles(2) ref_worker_lanes ref_worker_reaches,
        of ref_opened] by simp
qed

lemma worker_calls_return_witness:
  "send_run 2 (ref_rustls :: (ref_conn, ref_cursor) rustls) ref_egress ref_plan ref_vplan
     (CallPrepare ([[7, 8]], 0)) (session_tx ref_opened (rn_send ref_opened_run)) \<noteq> None"
proof -
  have i: "0 < length [ref_opened]" and fresh: "call_fresh ref_plan ref_vplan (CallPrepare ([[7, 8]], 0))"
    by (simp_all add: ref_plan_def)
  note ret = conjunct1 [OF worker_calls_return [OF ref_worker_laws lawful_roles(2) ref_worker_lanes
        ref_worker_reaches i]]
  show ?thesis using mp [OF ret fresh] unfolding nth_Cons_0 .
qed


end
