(* ===== verification/Ownership.thy ===== *)
theory Ownership
  imports Worker_Correct
begin

text \<open>
  Who owns the session leases of a worker: each lease is with one open session, with the cached
  opening, or free in the store, and only there, whatever the libraries answer.
\<close>

section \<open>Leases\<close>

text \<open>
  The store's contract: it hands out a lease it has, and has again what is given back. \<open>leases\<close>
  is what it has, with multiplicity.
\<close>

definition lease_laws :: "'n session_ops \<Rightarrow> ('n \<Rightarrow> lease multiset) \<Rightarrow> bool" where
  "lease_laws S leases \<longleftrightarrow>
     (\<forall>n l n'. session_take S n = Some (l, n') \<longrightarrow> leases n = add_mset l (leases n')) \<and>
     (\<forall>l n. leases (session_return S l n) = add_mset l (leases n))"

lemma lease_lawsD:
  assumes "lease_laws S leases"
  shows "session_take S n = Some (l, n') \<Longrightarrow> leases n = add_mset l (leases n')"
    and "leases (session_return S l n) = add_mset l (leases n)"
  using assms by (simp_all add: lease_laws_def)

abbreviation se_lease :: "('c, 'b) session \<Rightarrow> lease" where
  "se_lease s \<equiv> conn_lease (se_conn s)"

definition cached_leases where
  "cached_leases run =
     (case rn_pending run of None \<Rightarrow> {#} | Some (conn, store) \<Rightarrow> {#conn_lease conn#})"

definition base_leases where
  "base_leases leases run = cached_leases run + leases (rn_sessions run)"

definition worker_leases where
  "worker_leases leases \<sigma> =
     (case \<sigma> of (run, ss, lent) \<Rightarrow> mset (map se_lease ss) + base_leases leases run)"

lemma base_leases_simps [simp]:
  "base_leases leases (set_recv p run) = base_leases leases run"
  "base_leases leases (set_send q run) = base_leases leases run"
  "base_leases leases (run\<lparr>rn_waiters := w\<rparr>) = base_leases leases run"
  "base_leases leases (run\<lparr>rn_role := r\<rparr>) = base_leases leases run"
  by (simp_all add: base_leases_def cached_leases_def)

lemma base_leases_same: "same_base run run' \<Longrightarrow> base_leases leases run' = base_leases leases run"
  by (simp add: base_leases_def cached_leases_def same_base_def)

section \<open>Every step keeps them\<close>

lemma leases_update:
  "se_lease s = se_lease (ss ! i) \<Longrightarrow> mset (map se_lease (ss[i := s])) = mset (map se_lease ss)"
  by (metis list_update_id map_update)

lemma leases_remove:
  "i < length ss \<Longrightarrow>
   mset (map se_lease ss) = add_mset (se_lease (ss ! i)) (mset (map se_lease (take i ss @ drop (Suc i) ss)))"
  by (subst id_take_nth_drop [of i ss]) simp_all

lemma drop_lease_leases:
  "lease_laws S leases \<Longrightarrow>
   base_leases leases (drop_lease S l run) = add_mset l (base_leases leases run)"
  by (simp add: base_leases_def cached_leases_def drop_lease_def lease_lawsD(2))

lemma drop_pending_leases:
  assumes "lease_laws S leases"
  shows "base_leases leases (drop_pending S E run) = base_leases leases run"
proof (cases "rn_pending run")
  case None
  then show ?thesis by (simp add: drop_pending_def)
next
  case (Some parts)
  obtain conn store where parts: "parts = (conn, store)" by (cases parts)
  have "base_leases leases run = add_mset (conn_lease conn) (leases (rn_sessions run))"
    by (simp add: base_leases_def cached_leases_def Some parts)
  then show ?thesis
    by (simp add: drop_pending_def Some parts drop_lease_leases [OF assms])
      (simp add: base_leases_def cached_leases_def)
qed

lemma send_run_lease:
  "send_run k N E D M call t = Some (n, t') \<Longrightarrow> conn_lease (tx_conn t') = conn_lease (tx_conn t)"
  using latch_send.send_run_frame by (fastforce simp: latch_le_def)

lemma connection_new_lease:
  "connection_new N E c l store p = Some (Inr (conn, store'), p') \<Longrightarrow> conn_lease conn = l"
  using latch_send.connection_new_frame by (fastforce simp: latch_le_def bare_conn_def)

lemma open_parts_lease:
  "open_parts N E role config l store p = Some (Inr (conn, store'), p') \<Longrightarrow> conn_lease conn = l"
  by (auto simp: open_parts_def split: sum.splits dest: connection_new_lease)

text \<open>The callback of an opening keeps the connection or leaves it cached.\<close>

lemma hand_over_leases:
  assumes "hand_over keep_or_leave keep (conn, store) run = (oc, run')" and "rn_pending run = None"
  shows "mset (map se_lease (opened_session oc)) + base_leases leases run' =
    add_mset (conn_lease conn) (base_leases leases run)"
  using assms
  by (auto simp: hand_over_def keep_or_leave_def opened_session_def new_session_def base_leases_def
      cached_leases_def split: if_splits)

lemma open_leases:
  assumes laws: "lease_laws S leases"
    and run: "endpoint_open N E S role keep_or_leave run keep = Some (oc, run')"
  shows "mset (map se_lease (opened_session oc)) + base_leases leases run' = base_leases leases run"
proof (cases "rn_pending run")
  case (Some parts)
  obtain conn store where parts: "parts = (conn, store)" by (cases parts)
  have "base_leases leases run = add_mset (conn_lease conn) (base_leases leases (run\<lparr>rn_pending := None\<rparr>))"
    by (simp add: base_leases_def cached_leases_def Some parts)
  then show ?thesis
    using run hand_over_leases [of keep conn store "run\<lparr>rn_pending := None\<rparr>" oc run' leases]
    by (simp add: endpoint_open_def Some parts)
next
  case none: None
  note body = run [unfolded endpoint_open_def none option.case]
  show ?thesis
  proof (cases "session_take S (rn_sessions run)")
    case None
    with body show ?thesis by (auto simp: opened_session_def)
  next
    case (Some taken)
    obtain lease ss where taken: "taken = (lease, ss)" by (cases taken)
    let ?run1 = "set_sessions ss run"
    have base: "base_leases leases run = add_mset lease (base_leases leases ?run1)"
      using lease_lawsD(1) [OF laws Some [unfolded taken]]
      by (simp add: base_leases_def cached_leases_def)
    note dropped = drop_lease_leases [OF laws]
    note body = body [unfolded Some taken option.case prod.case Let_def]
    show ?thesis
    proof (cases "open_cursor E role (rn_send ?run1)")
      case None
      with body base show ?thesis by (auto simp: opened_session_def dropped)
    next
      case (Some sp)
      obtain store p where sp: "sp = (store, p)" by (cases sp)
      obtain opened p' where op: "open_parts N E role (rn_role run) lease store p = Some (opened, p')"
        using body Some sp by (auto split: Option.bind_splits)
      note body = body [unfolded Some sp op option.case prod.case bind.bind_lunit]
      show ?thesis
      proof (cases opened)
        case (Inl cause)
        with body base show ?thesis by (cases cause) (auto simp: opened_session_def dropped)
      next
        case (Inr parts)
        obtain conn store' where parts: "parts = (conn, store')" by (cases parts)
        have "conn_lease conn = lease" by (rule open_parts_lease [OF op [unfolded Inr parts]])
        with body base Inr parts none
          hand_over_leases [of keep conn store' "set_send p' ?run1" oc run' leases]
        show ?thesis by simp
      qed
    qed
  qed
qed

text \<open>A receive is a step of the connection it was admitted for.\<close>

lemma received_lease:
  assumes res: "try_reserve N E I L conn send run = (evs0, Ready txn)"
  shows "ingress_process N E I L txn bs = Some (r, evs, wire, store, run') \<Longrightarrow>
      conn_lease wire = conn_lease conn \<and> base_leases leases run' = base_leases leases run"
    and "read_lease N E I G L txn bs = Some (x, evs, wire, store, run') \<Longrightarrow>
      conn_lease wire = conn_lease conn \<and> base_leases leases run' = base_leases leases run"
    and "complete_unread E I L txn = (evs, wire, store, run') \<Longrightarrow>
      conn_lease wire = conn_lease conn \<and> base_leases leases run' = base_leases leases run"
proof -
  have wire: "tn_wire txn = conn" using latch_receive.reserve_frame [OF res] by simp
  have base: "same_base run (tn_run txn)" using try_reserve_base [OF res] by simp
  note whole = base_leases_same [OF same_base_trans [OF base]]
  show "conn_lease wire = conn_lease conn \<and> base_leases leases run' = base_leases leases run"
    if run: "ingress_process N E I L txn bs = Some (r, evs, wire, store, run')"
    using latch_receive.ingress_frame(1) [OF run] whole [OF ingress_base(1) [OF run]]
    by (simp add: latch_le_def wire)
  show "conn_lease wire = conn_lease conn \<and> base_leases leases run' = base_leases leases run"
    if run: "read_lease N E I G L txn bs = Some (x, evs, wire, store, run')"
    using latch_receive.ingress_frame(2) [OF run] whole [OF ingress_base(2) [OF run]]
    by (simp add: latch_le_def wire)
  show "conn_lease wire = conn_lease conn \<and> base_leases leases run' = base_leases leases run"
    if run: "complete_unread E I L txn = (evs, wire, store, run')"
    using latch_receive.txn_release_wire [OF run [unfolded complete_unread_def]]
      whole [OF ingress_base(3) [OF run]] by (simp add: wire)
qed

lemma refused_lease:
  assumes res: "try_reserve N E I L conn send run = (evs, oc)"
    and oc: "oc = Blocked kind (wire, store, run') \<or> oc = Failed cause (wire, store, run')"
  shows "conn_lease wire = conn_lease conn" and "base_leases leases run' = base_leases leases run"
  using latch_receive.reserve_frame [OF res] try_reserve_base [OF res] oc
  by (auto simp: latch_le_def base_leases_same)

lemma worker_leases_update:
  "se_lease s = se_lease (ss ! i) \<Longrightarrow> base_leases leases run' = base_leases leases run \<Longrightarrow>
   worker_leases leases (run', ss[i := s], lent') = worker_leases leases (run, ss, lent)"
  using leases_update [of s ss i] by (simp add: worker_leases_def)

lemma received_session_lease [simp]: "se_lease (received_session wire store given s) = conn_lease wire"
  by (simp add: received_session_def)

lemma retire_leases:
  assumes "lease_laws S leases" and "i < length ss"
  shows "worker_leases leases (retire_session S E (ss ! i) run, take i ss @ drop (Suc i) ss, lent) =
    worker_leases leases (run, ss, lent)"
  using leases_remove [OF assms(2)]
  by (simp add: worker_leases_def retire_session_def drop_lease_leases [OF assms(1)])

lemma step_leases:
  assumes laws: "lease_laws S leases"
    and step: "worker_step k N E D M I G L S role U \<sigma> \<sigma>'"
  shows "worker_leases leases \<sigma>' = worker_leases leases \<sigma>"
  using step
proof (cases rule: worker_step.cases)
  case (Send i ss call run n t lent)
  from send_run_lease [OF Send(5)] show ?thesis
    unfolding Send(1,2) by (intro worker_leases_update) (simp_all add: sent_session_def session_tx_def)
next
  case (Receive i ss lend run evs0 txn bs r evs wire store run' lent)
  from received_lease(1) [OF Receive(5,6)] show ?thesis
    unfolding Receive(1,2) by (intro worker_leases_update) simp_all
next
  case (Lease i ss lend run evs0 txn bs x evs wire store run' lent)
  from received_lease(2) [OF Lease(5,6)] show ?thesis
    unfolding Lease(1,2) by (intro worker_leases_update) simp_all
next
  case (Unread i ss lend run evs0 txn evs wire store run' lent)
  from received_lease(3) [OF Unread(4,5)] show ?thesis
    unfolding Unread(1,2) by (intro worker_leases_update) simp_all
next
  case (Blocked i ss lend run evs kind wire store run' lent)
  from refused_lease [OF Blocked(4) disjI1 [OF refl]] show ?thesis
    unfolding Blocked(1,2) by (intro worker_leases_update) simp_all
next
  case (Refused i ss lend run evs cause wire store run' lent)
  from refused_lease [OF Refused(4) disjI2 [OF refl]] show ?thesis
    unfolding Refused(1,2) by (intro worker_leases_update) simp_all
next
  case (Eof i ss u conn run lent)
  from latch_receive.eof_frame [OF Eof(4)] show ?thesis
    unfolding Eof(1,2) by (intro worker_leases_update) (simp_all add: latch_le_def)
next
  case (Open run keep oc run' ss lent)
  from open_leases [OF laws Open(3)] show ?thesis
    unfolding Open(1,2) by (simp add: worker_leases_def add_ac)
next
  case (Retire i ss run lent)
  from retire_leases [OF laws Retire(3)] show ?thesis unfolding Retire(1,2) .
next
  case (Reconfigure run ss lent config)
  show ?thesis
    unfolding Reconfigure(1,2) by (simp add: worker_leases_def reconfigure_def drop_pending_leases [OF laws])
qed (simp_all add: worker_leases_def)

lemma run_leases:
  assumes "lease_laws S leases" and "(worker_step k N E D M I G L S role U)\<^sup>*\<^sup>* \<sigma> \<sigma>'"
  shows "worker_leases leases \<sigma>' = worker_leases leases \<sigma>"
  using assms(2) by (induction rule: rtranclp_induct) (simp_all add: step_leases [OF assms(1)])

lemma distinct_if_count_le_1:
  assumes "\<And>x. count (mset xs) x \<le> 1"
  shows "distinct xs"
proof -
  have "count (mset xs) x = (if x \<in> set xs then 1 else 0)" for x
    using assms [of x] count_greater_zero_iff [of "mset xs" x] by (simp del: count_greater_zero_iff) linarith
  then show ?thesis by (simp add: distinct_count_atmost_1)
qed

section \<open>The property\<close>

text \<open>
  C38. Every session lease has exactly one owner: in every state a worker reaches, whatever the
  libraries answer, the leases of the open sessions, of the cached opening and of the store are
  together those the store began with. Where it began with each lease once, no two sessions share one
  and no lease in use is handed out again.
\<close>

theorem leases_owned_once:
  assumes "lease_laws S leases" and "reaches k N E D M I G L S role U run (run', ss, lent)"
  shows "mset (map se_lease ss) + cached_leases run' + leases (rn_sessions run') =
      leases (rn_sessions run) \<and>
    ((\<forall>l. count (leases (rn_sessions run)) l \<le> 1) \<longrightarrow>
      distinct (map se_lease ss) \<and>
      (\<forall>s\<in>set ss. se_lease s \<notin># cached_leases run' + leases (rn_sessions run')))"
proof -
  have all: "mset (map se_lease ss) + cached_leases run' + leases (rn_sessions run') =
      leases (rn_sessions run)"
    using run_leases [OF assms(1)] assms(2)
    by (fastforce simp: reaches_def worker_leases_def base_leases_def cached_leases_def add_ac)
  moreover have "distinct (map se_lease ss) \<and>
      (\<forall>s\<in>set ss. se_lease s \<notin># cached_leases run' + leases (rn_sessions run'))"
    if one: "\<forall>l. count (leases (rn_sessions run)) l \<le> 1"
  proof -
    have sum: "count (mset (map se_lease ss)) l +
        count (cached_leases run' + leases (rn_sessions run')) l \<le> 1" for l
      using one [unfolded all [symmetric], rule_format, of l] by simp
    have "distinct (map se_lease ss)"
      using distinct_if_count_le_1 [of "map se_lease ss"] add_leD1 [OF sum] by blast
    moreover have "se_lease s \<notin># cached_leases run' + leases (rn_sessions run')" if "s \<in> set ss" for s
    proof -
      have "0 < count (mset (map se_lease ss)) (se_lease s)"
        using that by (simp add: count_greater_zero_iff del: count_mset)
      with sum [of "se_lease s"] show ?thesis by (simp only: not_in_iff)
    qed
    ultimately show ?thesis by blast
  qed
  ultimately show ?thesis by blast
qed

section \<open>Witness\<close>

text \<open>A store that is the list of its leases, and a worker that opened one session of two.\<close>

definition ref_lease_store :: "lease list session_ops" where
  "ref_lease_store = \<lparr>
     session_take = (\<lambda>ls. case ls of [] \<Rightarrow> None | l # ls' \<Rightarrow> Some (l, ls')),
     session_return = (#),
     session_available = length \<rparr>"

lemma ref_lease_laws: "lease_laws ref_lease_store mset" "session_laws ref_lease_store"
  by (auto simp: lease_laws_def session_laws_def ref_lease_store_def split: list.splits)

definition ref_lease_run where
  "ref_lease_run = \<lparr> rn_pending = (None :: (ref_conn connection \<times> ref_cursor send_state) option),
     rn_buffers = \<lparr> po_sessions = [Lease 1, Lease 0], po_recv = (Fixed 2 :: (nat, nat) receive),
                    po_send = ((1, 4) :: ref_pool) \<rparr>,
     rn_waiters = (\<lambda>_ :: nat. [] :: (nat \<times> credit_id) list),
     rn_role = (\<lparr> cp_config = [[3]], cp_name = [1, 2] \<rparr> :: (bytes list, bytes) client_plan) \<rparr>"

definition ref_leased_run where
  "ref_leased_run = set_send (0, 4) (set_sessions [Lease 0] ref_lease_run)"

abbreviation ref_lease_reaches where
  "ref_lease_reaches \<equiv> reaches 2 (ref_rustls :: (ref_conn, ref_cursor) rustls) ref_egress ref_plan
     ref_vplan ref_ingress ref_segment ref_lanes ref_lease_store (client_role ref_roles) ref_plan_view"

lemma ref_lease_opens:
  "endpoint_open (ref_rustls :: (ref_conn, ref_cursor) rustls) ref_egress ref_lease_store
     (client_role ref_roles) keep_or_leave ref_lease_run True =
   Some (Opened (Some (se_conn ref_opened, se_store ref_opened)), ref_leased_run)"
  using ref_parts
  by (simp add: endpoint_open_def ref_lease_run_def ref_leased_run_def ref_lease_store_def
      set_sessions_def set_send_def hand_over_def keep_or_leave_def)

lemma ref_lease_reached: "ref_lease_reaches ref_lease_run (ref_leased_run, [ref_opened], 0)"
proof -
  have "[] @ opened_session (Opened (Some (se_conn ref_opened, se_store ref_opened))) = [ref_opened]"
    by (simp add: opened_session_def ref_opened_def new_session_def)
  with worker_step.Open [OF ref_lease_opens, of 2 ref_plan ref_vplan ref_ingress ref_segment ref_lanes
      ref_plan_view "[]" 0]
  have "worker_step 2 (ref_rustls :: (ref_conn, ref_cursor) rustls) ref_egress ref_plan ref_vplan
      ref_ingress ref_segment ref_lanes ref_lease_store (client_role ref_roles) ref_plan_view
      (ref_lease_run, [], 0) (ref_leased_run, [ref_opened], 0)" by metis
  moreover have "rn_pending ref_lease_run = None" by (simp add: ref_lease_run_def)
  ultimately show ?thesis by (simp add: reaches_def r_into_rtranclp)
qed

lemma leases_owned_once_witness:
  "mset (map se_lease [ref_opened]) = {#Lease 1#} \<and>
   rn_sessions ref_leased_run = [Lease 0] \<and> distinct (map se_lease [ref_opened]) \<and>
   se_lease ref_opened \<notin># mset (rn_sessions ref_leased_run)"
proof -
  have "\<forall>l. count (mset (rn_sessions ref_lease_run)) l \<le> 1" by (simp add: ref_lease_run_def)
  with leases_owned_once [OF ref_lease_laws(1) ref_lease_reached]
  have "distinct (map se_lease [ref_opened])"
    "se_lease ref_opened \<notin># mset (rn_sessions ref_leased_run)" by simp_all
  moreover have "se_lease ref_opened = Lease 1" "rn_sessions ref_leased_run = [Lease 0]"
    by (simp_all add: ref_opened_def new_session_def bare_conn_def ref_leased_run_def)
  ultimately show ?thesis by simp
qed

end
