(* ===== verification/Channels.thy ===== *)
theory Channels
  imports Ownership
begin

text \<open>
  What a worker is for, with everything about buffers, pools, slots and waiters taken away: a list of
  duplex channels. Every step of a worker is a step of its channels.
\<close>

section \<open>The abstract channels\<close>

text \<open>
  One channel: the ciphertext handed to the transport and that still owed to it, the plaintext taken
  from the application and that handed to it, and whether the channel is dead.
\<close>

record duplex =
  du_wire :: bytes
  du_owed :: bytes
  du_sealed :: bytes
  du_given :: bytes
  du_dead :: bool

text \<open>
  A channel transmits from the front of what it owes and takes more plaintext, or delivers plaintext;
  either may make it owe more. A dead channel takes and delivers none, and stays dead.
\<close>

inductive channel_step :: "duplex list \<Rightarrow> duplex list \<Rightarrow> bool" where
  Transmit: "i < length ds \<Longrightarrow> d = ds ! i \<Longrightarrow> n \<le> length (du_owed d) \<Longrightarrow>
     (du_dead d \<longrightarrow> plain = [] \<and> dead) \<Longrightarrow>
     channel_step ds (ds[i := \<lparr> du_wire = du_wire d @ take n (du_owed d),
       du_owed = drop n (du_owed d) @ extra, du_sealed = du_sealed d @ plain,
       du_given = du_given d, du_dead = dead \<rparr>])"
| Deliver: "i < length ds \<Longrightarrow> d = ds ! i \<Longrightarrow> (du_dead d \<longrightarrow> plain = [] \<and> dead) \<Longrightarrow>
     channel_step ds (ds[i := \<lparr> du_wire = du_wire d, du_owed = du_owed d @ extra,
       du_sealed = du_sealed d, du_given = du_given d @ plain, du_dead = dead \<rparr>])"
| Create: "channel_step ds (ds @ [\<lparr> du_wire = [], du_owed = extra, du_sealed = [], du_given = [],
     du_dead = False \<rparr>])"
| Close: "i < length ds \<Longrightarrow> channel_step ds (take i ds @ drop (Suc i) ds)"
| Idle: "channel_step ds ds"

definition duplex_of ::
    "('b, 's, 'p) egress_ops \<Rightarrow> 'c rustls_view \<Rightarrow> ('c, 'b) session \<Rightarrow> duplex" where
  "duplex_of E V s = \<lparr> du_wire = se_wire s,
     du_owed = st_as_slice E (se_store s) @ pend V (native (se_conn s)),
     du_sealed = se_sealed s, du_given = se_given s, du_dead = failed (se_conn s) \<rparr>"

definition channels ::
    "('b, 's, 'p) egress_ops \<Rightarrow> 'c rustls_view \<Rightarrow> ('w, 'c, 'b) worker \<Rightarrow> duplex list" where
  "channels E V \<sigma> = (case \<sigma> of (run, ss, lent) \<Rightarrow> map (duplex_of E V) ss)"

section \<open>What is made grows\<close>

definition made_grows ::
    "('c, 's) rustls \<Rightarrow> 'c rustls_view \<Rightarrow> 'c connection \<Rightarrow> 'c connection \<Rightarrow> bool" where
  "made_grows N V c d \<longleftrightarrow>
     (rustls_wire_laws N V \<longrightarrow> prefix (made V (native c)) (made V (native d)))"

lemma produces_made: "produces V c d \<Longrightarrow> prefix (made V c) (made V d)"
  by (auto simp: produces_def)

lemma made_wire_frame: "wire_frame N (made_grows N V)"
proof (unfold_locales, goal_cases)
  case (2 c d e)
  then show ?case unfolding made_grows_def by (meson prefix_order.trans)
next
  case (3 W c s r n s')
  then show ?case unfolding made_grows_def rustls_wire_laws_def
    by (metis connection.select_convs(1) connection.surjective connection.update_convs(1) fst_conv
        prefix_order.refl snd_conv)
qed (auto simp: made_grows_def)

interpretation made_send: send_frame N "made_grows N V"
proof (rule send_frame.intro [OF closing_frame.intro [OF made_wire_frame]], unfold_locales, goal_cases)
  case (2 c xs r n)
  then show ?case unfolding made_grows_def rustls_wire_laws_def by (metis produces_made snd_conv
      connection.select_convs(1) connection.surjective connection.update_convs(1))
next
  case (3 c xss r n)
  then show ?case unfolding made_grows_def rustls_wire_laws_def by (metis produces_made snd_conv
      connection.select_convs(1) connection.surjective connection.update_convs(1))
qed (auto simp: made_grows_def rustls_wire_laws_def intro: produces_made)

interpretation made_receive: receive_frame N "made_grows N V"
proof (unfold_locales, goal_cases)
  case (2 c xs r n)
  then show ?case unfolding made_grows_def rustls_wire_laws_def by (metis produces_made snd_conv
      connection.select_convs(1) connection.surjective connection.update_convs(1))
next
  case (3 c q n)
  then show ?case unfolding made_grows_def rustls_wire_laws_def by (metis produces_made snd_conv
      connection.select_convs(1) connection.surjective connection.update_convs(1))
next
  case (4 c w n)
  then show ?case unfolding made_grows_def rustls_wire_laws_def by (metis produces_made snd_conv
      connection.select_convs(1) connection.surjective connection.update_convs(1))
qed (auto simp: made_grows_def rustls_wire_laws_def intro: produces_made)

section \<open>A session's move is a channel's\<close>

text \<open>
  Between two states that keep the promise, what was not taken from the front of what is owed is
  still owed, in front of what was made in between.
\<close>

lemma owed_moves:
  assumes "session_ok E V s" and "session_ok E V s'" and "se_wire s' = se_wire s @ gone"
    and "prefix (made V (native (se_conn s))) (made V (native (se_conn s')))"
  obtains extra where "gone @ du_owed (duplex_of E V s') = du_owed (duplex_of E V s) @ extra"
proof -
  obtain extra where "made V (native (se_conn s')) = made V (native (se_conn s)) @ extra"
    using assms(4) by (auto elim: prefixE)
  then have "se_wire s @ (gone @ du_owed (duplex_of E V s')) =
      se_wire s @ (du_owed (duplex_of E V s) @ extra)"
    using session_okD(1) [OF assms(1)] session_okD(1) [OF assms(2)] assms(3) by (simp add: duplex_of_def)
  then show thesis using that by simp
qed

lemma channels_update:
  "channels E V (run', ss[i := s], lent') = (channels E V (run, ss, lent))[i := duplex_of E V s]"
  by (simp add: channels_def map_update)

lemma channels_nth:
  "i < length ss \<Longrightarrow> channels E V (run, ss, lent) ! i = duplex_of E V (ss ! i)"
  "length (channels E V (run, ss, lent)) = length ss"
  by (simp_all add: channels_def)

lemma delivers:
  assumes ok: "session_ok E V (ss ! i)" "session_ok E V s'" and i: "i < length ss"
    and made: "prefix (made V (native (se_conn (ss ! i)))) (made V (native (se_conn s')))"
    and logs: "se_wire s' = se_wire (ss ! i)" "se_sealed s' = se_sealed (ss ! i)"
      "se_given s' = se_given (ss ! i) @ given"
    and dead: "failed (se_conn (ss ! i)) \<Longrightarrow> given = [] \<and> failed (se_conn s')"
  shows "channel_step (channels E V (run, ss, lent)) (channels E V (run', ss[i := s'], lent'))"
proof -
  obtain extra where "[] @ du_owed (duplex_of E V s') = du_owed (duplex_of E V (ss ! i)) @ extra"
    using owed_moves [OF ok, of "[]"] logs(1) made by auto
  with logs have "duplex_of E V s' = (let d = duplex_of E V (ss ! i) in
      \<lparr> du_wire = du_wire d, du_owed = du_owed d @ extra, du_sealed = du_sealed d,
        du_given = du_given d @ given, du_dead = failed (se_conn s') \<rparr>)"
    by (simp add: duplex_of_def)
  moreover have "du_dead (duplex_of E V (ss ! i)) \<longrightarrow> given = [] \<and> failed (se_conn s')"
    using dead by (simp add: duplex_of_def)
  ultimately show ?thesis
    using i channel_step.Deliver [of i "channels E V (run, ss, lent)" "duplex_of E V (ss ! i)" given
        "failed (se_conn s')" extra]
    by (simp add: channels_update [where run = run and lent = lent] channels_nth Let_def)
qed

lemma transmits:
  assumes ok: "session_ok E V (ss ! i)" "session_ok E V s'" and i: "i < length ss"
    and made: "prefix (made V (native (se_conn (ss ! i)))) (made V (native (se_conn s')))"
    and logs: "se_wire s' = se_wire (ss ! i) @ take n (st_as_slice E (se_store (ss ! i)))"
      "se_sealed s' = se_sealed (ss ! i) @ plain" "se_given s' = se_given (ss ! i)"
    and dead: "failed (se_conn (ss ! i)) \<Longrightarrow> plain = [] \<and> failed (se_conn s')"
  shows "channel_step (channels E V (run, ss, lent)) (channels E V (run', ss[i := s'], lent'))"
proof -
  let ?d = "duplex_of E V (ss ! i)" and ?m = "min n (length (st_as_slice E (se_store (ss ! i))))"
  have m: "take n (st_as_slice E (se_store (ss ! i))) = take ?m (du_owed ?d)" "?m \<le> length (du_owed ?d)"
    by (simp_all add: duplex_of_def min_def)
  obtain extra where "take ?m (du_owed ?d) @ du_owed (duplex_of E V s') = du_owed ?d @ extra"
    by (rule owed_moves [OF ok logs(1) [unfolded m(1)] made])
  then have "du_owed (duplex_of E V s') = drop ?m (du_owed ?d) @ extra"
    by (metis append_assoc append_take_drop_id same_append_eq)
  with logs m(1) have "duplex_of E V s' =
      \<lparr> du_wire = du_wire ?d @ take ?m (du_owed ?d), du_owed = drop ?m (du_owed ?d) @ extra,
        du_sealed = du_sealed ?d @ plain, du_given = du_given ?d, du_dead = failed (se_conn s') \<rparr>"
    by (simp add: duplex_of_def)
  moreover have "du_dead ?d \<longrightarrow> plain = [] \<and> failed (se_conn s')"
    using dead by (simp add: duplex_of_def)
  ultimately show ?thesis
    using i m(2) channel_step.Transmit [of i "channels E V (run, ss, lent)" ?d ?m plain
        "failed (se_conn s')" extra]
    by (simp only: channels_update [where run = run and lent = lent] channels_nth)
qed

section \<open>A dead connection takes nothing\<close>

lemma dead_prepare:
  assumes dead: "failed (tx_conn t)" and seal: "\<And>conn out plain. failed conn \<Longrightarrow>
      seal conn out plain = Some (Output (), conn, out, plain)"
    and run: "prepare_with seal N E D t plan = Some (r, t')"
  shows "pr_consumed (outcome r) = in_done D plan \<or> pr_consumed (outcome r) = 0"
proof -
  have "failed conn" if "conn_drain N E (tx_conn t) out = Some (cause, conn, out')" for out cause conn out'
    using latch_send.conn_drain_frame [OF that] dead by (simp add: latch_le_def)
  with run seal show ?thesis
    unfolding prepare_with_def Let_def
    by (auto simp: prep_buffered_def prep_wait_def
        split: if_splits prod.splits option.splits Option.bind_splits)
qed

lemma dead_call:
  assumes dead: "failed (tx_conn t)" and fresh: "call_fresh D M call"
    and run: "send_run k N E D M call t = Some (n, t')"
  shows "n = 0"
proof -
  have "encrypt N E D conn out plain = Some (Output (), conn, out, plain)"
    "encrypt_many k N E M conn out plain = Some (Output (), conn, out, plain)"
    if "failed conn" for conn out plain
    using that by (simp_all add: encrypt_def encrypt_many_def can_write_def)
  note sealed = dead_prepare [OF dead this(1)] dead_prepare [OF dead this(2)]
  show ?thesis
    using run fresh sealed
    by (cases call) (fastforce simp: egress_prepare_def egress_prepare_many_def prepare_def
        prepare_many_def)+
qed

lemma call_sent_take: "\<exists>m. call_sent xs call = take m xs"
  by (cases call) (auto intro: exI [of _ 0])

section \<open>Every step of a worker is a step of its channels\<close>

text \<open>The cached opening, if there is one, has not failed.\<close>

definition cached_live where
  "cached_live run \<longleftrightarrow> (\<forall>conn store. rn_pending run = Some (conn, store) \<longrightarrow> \<not> failed conn)"

lemma cached_live_same: "same_base run run' \<Longrightarrow> cached_live run \<Longrightarrow> cached_live run'"
  by (simp add: cached_live_def same_base_def)

lemma made_between:
  assumes laws: "worker_laws k N E D M V U sb I content G taken bound S role"
    and res: "try_reserve N E I L conn send run = (evs0, Ready txn)"
  shows "ingress_process N E I L txn bs = Some (r, evs, wire, store, run') \<Longrightarrow>
      prefix (made V (native conn)) (made V (native wire))"
    and "read_lease N E I G L txn bs = Some (x, evs, wire, store, run') \<Longrightarrow>
      prefix (made V (native conn)) (made V (native wire))"
    and "complete_unread E I L txn = (evs, wire, store, run') \<Longrightarrow> wire = conn"
proof -
  have wire: "tn_wire txn = conn" using latch_receive.reserve_frame [OF res] by simp
  have grows: "made_grows N V conn wire \<Longrightarrow> prefix (made V (native conn)) (made V (native wire))" for wire
    using send_lawsD(1) [OF worker_lawsD(1) [OF laws]] by (simp add: made_grows_def wire_laws_def)
  show "ingress_process N E I L txn bs = Some (r, evs, wire, store, run') \<Longrightarrow>
      prefix (made V (native conn)) (made V (native wire))"
    using made_receive.ingress_frame(1) [of N E I L txn bs r evs wire store run' V] grows
    by (simp add: wire)
  show "read_lease N E I G L txn bs = Some (x, evs, wire, store, run') \<Longrightarrow>
      prefix (made V (native conn)) (made V (native wire))"
    using made_receive.ingress_frame(2) [of N E I G L txn bs x evs wire store run' V] grows
    by (simp add: wire)
  show "complete_unread E I L txn = (evs, wire, store, run') \<Longrightarrow> wire = conn"
    using latch_receive.txn_release_wire by (fastforce simp: complete_unread_def wire)
qed

lemma opened_live:
  assumes op: "opens E V S role keep_or_leave run keep oc run'" and live: "cached_live run"
  shows "cached_live run'" and "s \<in> set (opened_session oc) \<Longrightarrow> \<not> failed (se_conn s)"
proof -
  have "cached_live run' \<and> (\<forall>s \<in> set (opened_session oc). \<not> failed (se_conn s))"
  proof (cases oc)
    case (Opened x)
    then obtain conn store where give: "keep_or_leave keep conn store = (x, rn_pending run')"
      and origin: "case rn_pending run of Some parts \<Rightarrow> parts = (conn, store)
        | None \<Rightarrow> \<exists>c. role_open role (rn_role run) = Inr c \<and> fresh_conn E V c conn store"
      using op by (auto simp: opens_def)
    have "\<not> failed conn"
      using origin live by (auto simp: cached_live_def fresh_conn_def split: option.splits)
    with give Opened show ?thesis
      by (auto simp: keep_or_leave_def cached_live_def opened_session_def new_session_def split: if_splits)
  qed (use op live in \<open>auto simp: opens_def cached_live_def opened_session_def\<close>)
  then show "cached_live run'" "s \<in> set (opened_session oc) \<Longrightarrow> \<not> failed (se_conn s)" by blast+
qed

lemma opened_channel:
  assumes op: "opens E V S role keep_or_leave run keep oc run'" and live: "cached_live run"
  shows "channel_step (channels E V (run, ss, lent)) (channels E V (run', ss @ opened_session oc, lent))"
proof (cases "opened_session oc")
  case Nil
  then show ?thesis using channel_step.Idle by (simp add: channels_def)
next
  case (Cons s rest)
  then obtain conn store where s: "opened_session oc = [new_session conn store]"
    by (auto simp: opened_session_def split: open_outcome.splits option.splits)
  with opened_live(2) [OF op live] have "\<not> failed conn" by (simp add: new_session_def)
  then have "duplex_of E V (new_session conn store) = \<lparr> du_wire = [],
      du_owed = st_as_slice E store @ pend V (native conn), du_sealed = [], du_given = [],
      du_dead = False \<rparr>"
    by (simp add: duplex_of_def new_session_def)
  with s channel_step.Create show ?thesis by (simp add: channels_def)
qed

lemma retired_channel:
  assumes "i < length ss"
  shows "channel_step (channels E V (run, ss, lent))
    (channels E V (run', take i ss @ drop (Suc i) ss, lent'))"
  using channel_step.Close [of i "channels E V (run, ss, lent)"] assms
  by (simp add: channels_def take_map drop_map)

text \<open>A session that hands nothing out and keeps its logs, in a step that keeps the invariant.\<close>

lemma worker_update:
  assumes "worker_inv E I L S V entries cap recvs sends sessions (run, ss, lent)" and "i < length ss"
    and "worker_inv E I L S V entries cap recvs sends sessions (run', ss[i := s], lent')"
  shows "session_ok E V (ss ! i)" and "session_ok E V s"
  using worker_invD(5) [OF assms(1,2)] worker_invD(5) [OF assms(3), of i] assms(2) by simp_all

lemma received_channel:
  assumes inv: "worker_inv E I L S V entries cap recvs sends sessions (run, ss, lent)"
    and i: "i < length ss" and live: "\<not> failed (se_conn (ss ! i))"
    and grows: "prefix (made V (native (se_conn (ss ! i)))) (made V (native wire))"
    and inv': "worker_inv E I L S V entries cap recvs sends sessions
      (run', ss[i := received_session wire store given (ss ! i)], lent')"
  shows "channel_step (channels E V (run, ss, lent))
    (channels E V (run', ss[i := received_session wire store given (ss ! i)], lent'))"
  by (rule delivers [OF worker_update [OF inv i inv'] i, where given = given])
    (use grows live in \<open>simp_all add: received_session_def\<close>)

lemma quiet_channel:
  assumes inv: "worker_inv E I L S V entries cap recvs sends sessions (run, ss, lent)"
    and i: "i < length ss"
    and wire: "wire = se_conn (ss ! i) \<or> wire = (se_conn (ss ! i))\<lparr>failed := True\<rparr>"
    and inv': "worker_inv E I L S V entries cap recvs sends sessions
      (run', ss[i := received_session wire store [] (ss ! i)], lent')"
  shows "channel_step (channels E V (run, ss, lent))
    (channels E V (run', ss[i := received_session wire store [] (ss ! i)], lent'))"
  by (rule delivers [OF worker_update [OF inv i inv'] i, where given = "[]"])
    (use wire in \<open>auto simp: received_session_def\<close>)

lemma refused_wire:
  assumes res: "try_reserve N E I L conn send run = (evs, oc)"
    and oc: "oc = Blocked kind (wire, store, run') \<or> oc = Failed cause (wire, store, run')"
  shows "wire = conn \<or> wire = conn\<lparr>failed := True\<rparr>"
  using res oc by (auto simp: try_reserve_def Let_def
      split: sum.splits option.splits prod.splits bool.splits)

lemma sent_channel:
  assumes laws: "send_laws k N E D M V U sb" and i: "i < length ss" and fresh: "call_fresh D M call"
    and run: "send_run k N E D M call (session_tx (ss ! i) p) = Some (n, t)"
    and inv: "worker_inv E I L S V entries cap recvs sends sessions (run, ss, lent)"
    and inv': "worker_inv E I L S V entries cap recvs sends sessions
      (run', ss[i := sent_session E U call n t (ss ! i)], lent')"
  shows "channel_step (channels E V (run, ss, lent))
    (channels E V (run', ss[i := sent_session E U call n t (ss ! i)], lent'))"
proof -
  obtain m where m: "call_sent (st_as_slice E (se_store (ss ! i))) call =
      take m (st_as_slice E (se_store (ss ! i)))" using call_sent_take by blast
  have grows: "prefix (made V (native (se_conn (ss ! i)))) (made V (native (tx_conn t)))"
    using made_send.send_run_frame [OF run, of V] send_lawsD(1) [OF laws]
    by (simp add: made_grows_def wire_laws_def session_tx_def)
  have latch: "latch_le (se_conn (ss ! i)) (tx_conn t)"
    using latch_send.send_run_frame [OF run] by (simp add: session_tx_def)
  have none: "n = 0" if "failed (se_conn (ss ! i))"
    using dead_call [OF _ fresh run] that by (simp add: session_tx_def)
  show ?thesis
    by (rule transmits [OF worker_update [OF inv i inv'] i, where n = m and
          plain = "take n (call_plain U call)"])
      (use grows latch none m in \<open>auto simp: sent_session_def latch_le_def\<close>)
qed

lemma eof_channel:
  assumes laws: "worker_laws k N E D M V U sb I content G taken bound S role" and i: "i < length ss"
    and run: "ingress_eof N (se_conn (ss ! i)) = (u, conn)"
    and inv: "worker_inv E I L S V entries cap recvs sends sessions (run, ss, lent)"
    and inv': "worker_inv E I L S V entries cap recvs sends sessions
      (run', ss[i := (ss ! i)\<lparr>se_conn := conn\<rparr>], lent')"
  shows "channel_step (channels E V (run, ss, lent))
    (channels E V (run', ss[i := (ss ! i)\<lparr>se_conn := conn\<rparr>], lent'))"
proof -
  have grows: "prefix (made V (native (se_conn (ss ! i)))) (made V (native conn))"
    using made_receive.eof_frame [OF run, of V] send_lawsD(1) [OF worker_lawsD(1) [OF laws]]
    by (simp add: made_grows_def wire_laws_def)
  have latch: "latch_le (se_conn (ss ! i)) conn" using latch_receive.eof_frame [OF run] .
  show ?thesis
    by (rule delivers [OF worker_update [OF inv i inv'] i, where given = "[]"])
      (use grows latch in \<open>auto simp: latch_le_def\<close>)
qed

lemma idle_channel: "channel_step (channels E V (run, ss, lent)) (channels E V (run', ss, lent'))"
  using channel_step.Idle by (simp add: channels_def)

lemma opened_by:
  assumes laws: "worker_laws k N E D M V U sb I content G taken bound S role" and role: "lawful_role N role"
    and run: "endpoint_open N E S role keep_or_leave run keep = Some (oc, run')"
  shows "opens E V S role keep_or_leave run keep oc run'"
  using protocol.open_run [OF lawful_protocol [OF role] send_lawsD(1) [OF worker_lawsD(1) [OF laws]]
      TrueI worker_lawsD(4) [OF laws], of keep_or_leave run keep] run by auto

lemma step_channel:
  assumes laws: "worker_laws k N E D M V U sb I content G taken bound S role" and role: "lawful_role N role"
    and step: "worker_step k N E D M I G L S role U \<sigma> \<sigma>'"
    and inv: "worker_inv E I L S V entries cap recvs sends sessions \<sigma>" and live: "cached_live (fst \<sigma>)"
  shows "channel_step (channels E V \<sigma>) (channels E V \<sigma>')"
proof -
  note inv' = protocol.step_inv [OF lawful_protocol [OF role] laws TrueI step inv]
  show ?thesis
    using step
  proof (cases rule: worker_step.cases)
    case (Send i ss call run n t lent)
    show ?thesis unfolding Send(1,2)
      by (rule sent_channel [OF worker_lawsD(1) [OF laws] Send(3-5) inv [unfolded Send(1)]
            inv' [unfolded Send(2)]])
  next
    case (Receive i ss lend run evs0 txn bs r evs wire store run' lent)
    show ?thesis unfolding Receive(1,2)
      by (rule received_channel [OF inv [unfolded Receive(1)] Receive(3,4)
            made_between(1) [OF laws Receive(5,6)] inv' [unfolded Receive(2)]])
  next
    case (Lease i ss lend run evs0 txn bs x evs wire store run' lent)
    show ?thesis unfolding Lease(1,2)
      by (rule received_channel [OF inv [unfolded Lease(1)] Lease(3,4)
            made_between(2) [OF laws Lease(5,6)] inv' [unfolded Lease(2)]])
  next
    case (Unread i ss lend run evs0 txn evs wire store run' lent)
    show ?thesis unfolding Unread(1,2)
      by (rule quiet_channel [OF inv [unfolded Unread(1)] Unread(3)
            disjI1 [OF made_between(3) [OF laws Unread(4,5)]] inv' [unfolded Unread(2)]])
  next
    case (Blocked i ss lend run evs kind wire store run' lent)
    show ?thesis unfolding Blocked(1,2)
      by (rule quiet_channel [OF inv [unfolded Blocked(1)] Blocked(3)
            refused_wire [OF Blocked(4) disjI1 [OF refl]] inv' [unfolded Blocked(2)]])
  next
    case (Refused i ss lend run evs cause wire store run' lent)
    show ?thesis unfolding Refused(1,2)
      by (rule quiet_channel [OF inv [unfolded Refused(1)] Refused(3)
            refused_wire [OF Refused(4) disjI2 [OF refl]] inv' [unfolded Refused(2)]])
  next
    case (Eof i ss u conn run lent)
    show ?thesis unfolding Eof(1,2)
      by (rule eof_channel [OF laws Eof(3,4) inv [unfolded Eof(1)] inv' [unfolded Eof(2)]])
  next
    case (Open run keep oc run' ss lent)
    show ?thesis unfolding Open(1,2)
      by (rule opened_channel [OF opened_by [OF laws role Open(3)] live [unfolded Open(1) fst_conv]])
  next
    case (Retire i ss run lent)
    show ?thesis unfolding Retire(1,2) by (rule retired_channel [OF Retire(3)])
  qed (simp_all only: idle_channel)
qed

lemma step_live:
  assumes laws: "worker_laws k N E D M V U sb I content G taken bound S role" and role: "lawful_role N role"
    and step: "worker_step k N E D M I G L S role U \<sigma> \<sigma>'" and live: "cached_live (fst \<sigma>)"
  shows "cached_live (fst \<sigma>')"
  using step live
proof (cases rule: worker_step.cases)
  case (Receive i ss lend run evs0 txn bs r evs wire store run' lent)
  have "same_base run run'"
    using same_base_trans [OF _ ingress_base(1) [OF Receive(6)]] try_reserve_base [OF Receive(5)] by simp
  with live show ?thesis unfolding Receive(1,2) by (simp add: cached_live_same)
next
  case (Lease i ss lend run evs0 txn bs x evs wire store run' lent)
  have "same_base run run'"
    using same_base_trans [OF _ ingress_base(2) [OF Lease(6)]] try_reserve_base [OF Lease(5)] by simp
  with live show ?thesis unfolding Lease(1,2) by (simp add: cached_live_same)
next
  case (Unread i ss lend run evs0 txn evs wire store run' lent)
  have "same_base run run'"
    using same_base_trans [OF _ ingress_base(3) [OF Unread(5)]] try_reserve_base [OF Unread(4)] by simp
  with live show ?thesis unfolding Unread(1,2) by (simp add: cached_live_same)
next
  case (Blocked i ss lend run evs kind wire store run' lent)
  have "same_base run run'" using try_reserve_base [OF Blocked(4)] by simp
  with live show ?thesis unfolding Blocked(1,2) by (simp add: cached_live_same)
next
  case (Refused i ss lend run evs cause wire store run' lent)
  have "same_base run run'" using try_reserve_base [OF Refused(4)] by simp
  with live show ?thesis unfolding Refused(1,2) by (simp add: cached_live_same)
next
  case (Open run keep oc run' ss lent)
  from opened_live(1) [OF opened_by [OF laws role Open(3)]] live show ?thesis unfolding Open(1,2) by simp
qed (simp_all add: cached_live_def retire_session_def drop_lease_def reconfigure_def drop_pending_def
    split: option.splits)

lemma reaches_live:
  assumes laws: "worker_laws k N E D M V U sb I content G taken bound S role" and role: "lawful_role N role"
    and run: "reaches k N E D M I G L S role U run \<sigma>"
  shows "cached_live (fst \<sigma>)"
proof -
  have "(worker_step k N E D M I G L S role U)\<^sup>*\<^sup>* (run, [], 0) \<sigma>" "cached_live (fst (run, [], 0 :: nat))"
    using run by (simp_all add: reaches_def cached_live_def)
  then show ?thesis
    by (induction rule: rtranclp_induct) (auto intro: step_live [OF laws role])
qed

section \<open>The property\<close>

text \<open>
  C39. A worker implements its channels: from every state it reaches, each step of it, with all its
  buffers, pools and transactions, is one step of the abstract channels of its sessions, or changes
  nothing of them. Ciphertext leaves from the front of what is owed, plaintext is only ever added to
  what was taken and delivered, dead channels take and deliver none, and no step touches two channels.
\<close>

theorem worker_refines_channels:
  assumes "worker_laws k N E D M V U sb I content G taken bound S role" and "lawful_role N role"
    and "lanes_ok L entries cap (rn_waiters run)"
    and "reaches k N E D M I G L S role U run \<sigma>"
    and "worker_step k N E D M I G L S role U \<sigma> \<sigma>'"
  shows "channel_step (channels E V \<sigma>) (channels E V \<sigma>')"
  by (rule step_channel [OF assms(1,2,5) reaches_inv [OF assms(1-4)] reaches_live [OF assms(1,2,4)]])

section \<open>Witness\<close>

lemma worker_refines_channels_witness:
  "\<exists>d. channel_step [duplex_of ref_egress ref_view ref_opened] [d] \<and> du_wire d = [1, 2]"
proof -
  let ?t = "session_tx ref_opened (rn_send ref_opened_run)"
  obtain n t where run: "send_run 2 (ref_rustls :: (ref_conn, ref_cursor) rustls) ref_egress ref_plan
      ref_vplan (CallSent 2) ?t = Some (n, t)"
    by (rule send_run_ok [OF worker_lawsD(1) [OF ref_worker_laws], of "CallSent 2" ?t]) simp_all
  have "(0 :: nat) < length [ref_opened]" "call_fresh ref_plan ref_vplan (CallSent 2)" by simp_all
  note step = worker_step.Send [OF this, of 2 "ref_rustls :: (ref_conn, ref_cursor) rustls" ref_egress
      ref_opened_run n t, simplified nth_Cons_0, OF run, of ref_ingress ref_segment ref_lanes ref_sessions
      "client_role ref_roles" ref_plan_view 0]
  from worker_refines_channels [OF ref_worker_laws lawful_roles(2) ref_worker_lanes ref_worker_reaches
      step]
  have "channel_step [duplex_of ref_egress ref_view ref_opened]
      [duplex_of ref_egress ref_view (sent_session ref_egress ref_plan_view (CallSent 2) n t ref_opened)]"
    by (simp add: channels_def)
  moreover have "st_as_slice ref_egress (se_store ref_opened) = [1, 2, 3]" "se_wire ref_opened = []"
    by (simp_all add: ref_opened_def new_session_def st_as_slice_def ref_egress_def)
  ultimately show ?thesis
    by (intro exI conjI) (auto simp: duplex_of_def sent_session_def numeral_2_eq_2)
qed

end
