(* ===== verification/Failures.thy ===== *)
theory Failures
  imports Channels
begin

text \<open>
  A connection does not fail in silence: whatever the libraries answer, a call after which a
  connection has failed that had not failed before reports a failure to the driver.
\<close>

section \<open>The send side\<close>

text \<open>The flag is kept by what only moves bytes.\<close>

interpretation failed_copy: copy_frame N "\<lambda>c d. failed d = failed c"
  by unfold_locales auto

lemma failure_map [simp]: "failure (map_processed f r) = failure r"
  by (cases r) simp_all

lemma failure_terminate [simp]: "failure (terminate x cause) = cause"
  by (cases cause) (simp_all add: terminate_def)

lemma emit_into_failed:
  "emit_into N E conn out = Some (r, conn', out') \<Longrightarrow> failed conn' = failed conn"
  by (auto simp: emit_into_def)

lemma refill_failed: "refill N E conn out = Some (None, conn', out') \<Longrightarrow> failed conn' = failed conn"
  by (auto simp: refill_def split: if_splits dest: conn_drain_failed)

definition seal_reports ::
    "('c connection \<Rightarrow> 'b \<Rightarrow> 'i \<Rightarrow> (unit processed \<times> 'c connection \<times> 'b \<times> 'i) option) \<Rightarrow> bool" where
  "seal_reports seal \<longleftrightarrow>
     (\<forall>conn out plain r conn' out' plain'. seal conn out plain = Some (r, conn', out', plain') \<longrightarrow>
        failure r = None \<longrightarrow> failed conn' = failed conn)"

lemma encrypt_loop_failed:
  assumes "encrypt_loop N E D conn out plain = Some (r, conn', out', plain')"
  shows "failure r = None \<longrightarrow> failed conn' = failed conn"
proof -
  have "failure (fst (r, conn', out', plain')) = None \<longrightarrow>
      failed (fst (snd (r, conn', out', plain'))) = failed conn"
  proof (rule encrypt_loop.raw_induct [where P = "\<lambda>N E D conn out plain res.
      failure (fst res) = None \<longrightarrow> failed (fst (snd res)) = failed conn", OF _ assms], goal_cases)
    case (1 loop N E D conn out plain res)
    from 1(2) show ?case
      by (auto simp: fail_with_def Let_def dest: 1(1) conn_drain_failed
          split: if_splits sum.splits prod.splits option.splits Option.bind_splits)
  qed
  then show ?thesis by simp
qed

lemma encrypt_many_loop_failed:
  assumes "encrypt_many_loop k N E D conn out plain = Some (r, conn', out', plain')"
  shows "failure r = None \<longrightarrow> failed conn' = failed conn"
proof -
  have "failure (fst (r, conn', out', plain')) = None \<longrightarrow>
      failed (fst (snd (r, conn', out', plain'))) = failed conn"
  proof (rule encrypt_many_loop.raw_induct [where P = "\<lambda>k N E D conn out plain res.
      failure (fst res) = None \<longrightarrow> failed (fst (snd res)) = failed conn", OF _ assms], goal_cases)
    case (1 loop k N E D conn out plain res)
    from 1(2) show ?case
      by (auto simp: fail_with_def Let_def dest: 1(1) conn_drain_failed
          split: if_splits sum.splits prod.splits option.splits Option.bind_splits)
  qed
  then show ?thesis by simp
qed

lemma encrypt_reports: "seal_reports (encrypt N E D)" "seal_reports (encrypt_many k N E D)"
  unfolding seal_reports_def encrypt_def encrypt_many_def
  by (auto split: if_splits dest!: encrypt_loop_failed encrypt_many_loop_failed)

lemma prepare_with_failed:
  assumes "seal_reports seal" and "prepare_with seal N E D t plain = Some (r, t')" and "failure r = None"
  shows "failed (tx_conn t') = failed (tx_conn t)"
  using assms(2,3) assms(1) [unfolded seal_reports_def, rule_format]
  unfolding prepare_with_def Let_def
  by (auto dest!: conn_drain_failed split: if_splits prod.splits option.splits Option.bind_splits)

lemma flush_failed:
  "flush N E t = Some (r, t') \<Longrightarrow> failure r = None \<Longrightarrow> failed (tx_conn t') = failed (tx_conn t)"
  by (auto simp: flush_def Let_def dest!: conn_drain_failed
      split: if_splits prod.splits option.splits Option.bind_splits)

lemma after_send_failed:
  "after_send N E t n = Some (r, t') \<Longrightarrow> failure r = None \<Longrightarrow> failed (tx_conn t') = failed (tx_conn t)"
  by (auto simp: after_send_def Let_def dest!: refill_failed
      split: prod.splits option.splits Option.bind_splits)

lemma resume_failed:
  "resume N E t live = Some (b, None, t') \<Longrightarrow> failed (tx_conn t') = failed (tx_conn t)"
  by (auto simp: resume_def Let_def dest!: refill_failed
      split: if_splits prod.splits option.splits Option.bind_splits)

lemma settle_failed:
  "settle N E t n live = Some (r, None, t') \<Longrightarrow> failed (tx_conn t') = failed (tx_conn t)"
  by (auto simp: settle_def Let_def dest!: resume_failed
      split: if_splits prod.splits Option.bind_splits)

lemma prepare_drain_failed:
  "prepare_drain N E t live = Some (r, None, t') \<Longrightarrow> failed (tx_conn t') = failed (tx_conn t)"
  by (auto simp: prepare_drain_def Let_def dest!: resume_failed
      split: if_splits prod.splits Option.bind_splits)

lemma close_failed:
  "egress_close N E t = Some (r, t') \<Longrightarrow> failed (tx_conn t') = failed (tx_conn t)"
  by (auto simp: egress_close_def seal_close_def Let_def dest!: emit_into_failed
      split: if_splits prod.splits option.splits sum.splits Option.bind_splits)

section \<open>The receive side\<close>

text \<open>Reading raises the flag at the end only, and exactly where its control is an error.\<close>

lemma process_failed: "process N I conn = (r, conn') \<Longrightarrow> failed conn' = failed conn"
  by (auto simp: process_def Let_def split: prod.splits sum.splits if_splits)

lemma owned_loop_failed:
  assumes run: "owned_loop N I x = Some (r, x')"
  shows "failed (rx_conn x') = failed (rx_conn x)"
proof -
  have "failed (rx_conn (snd (r, x'))) = failed (rx_conn x)"
  proof (rule owned_loop.raw_induct
      [where P = "\<lambda>N I x res. failed (rx_conn (snd res)) = failed (rx_conn x)" and
        xa = "((N, I), x)" and y = "(r, x')", unfolded prod.case, OF _ run], goal_cases)
    case (1 loop N I x res)
    note copied = failed_copy.copy_plain_frame
    from 1(2) show ?case
      by (auto simp: Let_def dest!: 1(1) copied process_failed
          split: if_splits sum.splits prod.splits Option.bind_splits)
  qed
  then show ?thesis by simp
qed

lemma owned_failed:
  assumes "owned N I conn bs recv pool = Some (out, pl, conn', pool')"
  shows "failed conn' \<longleftrightarrow> failed conn \<or> is_err (so_control out)"
  using assms
  by (auto simp: owned_def Let_def dest!: owned_loop_failed split: Option.bind_splits prod.splits)

text \<open>A read whose control is fine leaves the flag as it was.\<close>

definition read_reports where
  "read_reports read \<longleftrightarrow>
     (\<forall>ing pool x r rel conn' pool'. read ing pool = Some (x, r, rel, conn', pool') \<longrightarrow>
        \<not> is_err r \<longrightarrow> failed conn' = failed (ig_conn ing))"

lemma batch_reports: "read_reports (\<lambda>ing. read_batch N I ing bs)"
  by (auto simp: read_reports_def read_batch_def produce_def dest!: owned_failed split: Option.bind_splits)

lemma retain_reports: "read_reports (\<lambda>ing. retain N I G ing bs)"
  by (auto simp: read_reports_def retain_def Let_def dest!: owned_failed
      split: Option.bind_splits sum.splits if_splits)

lemma finish_read_failed:
  assumes run: "finish_read N E L txn x q = Some (r, evs, wire, store, run)" and "failure r = None"
  shows "\<not> is_err q" and "failed wire = failed (tn_wire txn)"
proof -
  obtain flushed txn' where fin: "txn_finish N E txn = Some (flushed, txn')"
    using run by (auto simp: finish_read_def split: Option.bind_splits)
  obtain evs' wire' store' run' where cmp: "complete_read E L txn' = (evs', wire', store', run')"
    using prod_cases4 by blast
  have "wire' = tn_wire txn'"
    using latch_receive.txn_release_wire [OF cmp [unfolded complete_read_def]] .
  moreover have "failed (tn_wire txn') = failed (tn_wire txn)"
    using fin by (auto simp: txn_finish_def split: option.splits Option.bind_splits dest!: emit_into_failed)
  ultimately show "\<not> is_err q" "failed wire = failed (tn_wire txn)"
    using run fin cmp \<open>failure r = None\<close>
    by (auto simp: finish_read_def Let_def split: sum.splits if_splits; cases q; simp)+
qed

lemma received_failed:
  assumes "read_reports read" and "failure r = None"
    and "do { (txn', x, result) \<leftarrow> txn_read read txn; finish_read N E L txn' x result } =
      Some (r, evs, wire, store, run)"
  shows "failed wire = failed (tn_wire txn)"
  using assms
  by (fastforce simp: txn_read_def read_reports_def ingress_new_def split: Option.bind_splits
      dest: finish_read_failed)

lemma ingress_failed:
  "ingress_process N E I L txn bs = Some (r, evs, wire, store, run) \<Longrightarrow> failure r = None \<Longrightarrow>
   failed wire = failed (tn_wire txn)"
  "read_lease N E I G L txn bs = Some (x, evs, wire, store, run) \<Longrightarrow> failure x = None \<Longrightarrow>
   failed wire = failed (tn_wire txn)"
  unfolding ingress_process_def read_lease_def
  by (erule received_failed [OF batch_reports], assumption)
    (erule received_failed [OF retain_reports], assumption)

lemma eof_failed:
  "ingress_eof N conn = (u, conn') \<Longrightarrow> failure u = None \<Longrightarrow> failed conn' = failed conn"
  by (auto simp: ingress_eof_def peer_eof_def split: prod.splits sum.splits list.splits)

section \<open>The property\<close>

text \<open>
  C40. No connection fails in silence: whatever the libraries answer, a call of the driver that
  reports no failure leaves the failed flag of its connection as it was. So a connection that has
  failed over a sequence of calls failed in a call that said so.
\<close>

theorem no_silent_failure:
  assumes "conn_call N E D I G L T c e d" and "failed d" and "\<not> failed c"
  shows "e \<noteq> None"
proof
  assume "e = None"
  with assms(1) have "conn_call N E D I G L T c None d" by simp
  then have "failed d = failed c"
    by (elim conn_call_silentE) (auto simp: egress_prepare_def egress_prepare_many_def prepare_def
        prepare_many_def egress_after_send_def egress_settle_def egress_flush_def egress_drain_def
        dest: prepare_with_failed [OF encrypt_reports(1)] prepare_with_failed [OF encrypt_reports(2)]
          flush_failed after_send_failed settle_failed prepare_drain_failed close_failed ingress_failed
          eof_failed)
  with assms(2,3) show False by simp
qed

section \<open>Witness\<close>

text \<open>A library that cannot emit: flushing fails the connection, and says so.\<close>

definition ref_broken :: "(ref_conn, ref_cursor) rustls" where
  "ref_broken = ref_rustls\<lparr>write_tls := (\<lambda>W c s. (Inl (OtherIo 7), c, s))\<rparr>"

definition ref_broken_tx :: "(ref_conn, ref_cursor, ref_pool) tx" where
  "ref_broken_tx = ref_tx\<lparr>tx_store := \<lparr> buffer = None \<rparr>\<rparr>"

definition ref_broken_flush where
  "ref_broken_flush = (case egress_flush ref_broken ref_egress ref_broken_tx of
     Some (r, t) \<Rightarrow> (failure r, failed (tx_conn t)) | None \<Rightarrow> (None, False))"

lemma ref_broken_flush: "snd ref_broken_flush"
  by code_simp

lemma no_silent_failure_witness: "\<not> failed (tx_conn ref_broken_tx) \<and> fst ref_broken_flush \<noteq> None"
proof -
  obtain r t where run: "egress_flush ref_broken ref_egress ref_broken_tx = Some (r, t)"
    and dead: "failed (tx_conn t)"
    using ref_broken_flush by (auto simp: ref_broken_flush_def split: option.splits)
  have live: "\<not> failed (tx_conn ref_broken_tx)" by (simp add: ref_broken_tx_def ref_tx_def)
  note call = conn_call.Flush [OF run, of ref_plan ref_ingress ref_segment ref_lanes
      "TYPE((ref_conn, ref_cursor, nat, nat, nat, ref_pool,
       nat \<Rightarrow> (nat \<times> credit_id) list, unit) runtime)"]
  from no_silent_failure [OF call dead live] live run show ?thesis by (simp add: ref_broken_flush_def)
qed

end
