(* ===== verification/Identity.thy ===== *)
theory Identity
  imports Errors
begin

text \<open>
  TLS 1.3 configurations pinned to Ed25519 raw public keys (\<open>src/config/mod.rs\<close>,
  \<open>src/config/raw.rs\<close>): the provider's suites and groups, an identity loaded from its seed, the
  verifier of a pinned peer, and the server and client configurations built from them.
\<close>

section \<open>Library parameters\<close>

text \<open>
  The provider of AWS-LC with suites \<open>'su\<close>, groups \<open>'gr\<close> and signature algorithms \<open>'al\<close>; whether a
  suite is of TLS 1.3, and the name of a group.
\<close>

datatype named_group = X25519MLKEM768 | OtherGroup nat

record ('su, 'gr, 'al) provider =
  cipher_suites :: "'su list"
  kx_groups :: "'gr list"
  signature_algorithms :: 'al

record ('su, 'gr, 'al) provider_ops =
  default_provider :: "('su, 'gr, 'al) provider"
  suite_is_tls13 :: "'su \<Rightarrow> bool"
  group_name :: "'gr \<Rightarrow> named_group"

text \<open>
  Keys: \<open>sign::any_eddsa_type\<close> over a PKCS#8 encoding, the public key of a signing key \<open>'sk\<close> as an SPKI,
  the check of a TLS 1.3 signature by a raw key, and \<open>o3\<close>'s fallible boxes.
\<close>

record ('sk, 'ds, 'al) key_ops =
  any_eddsa_type :: "bytes \<Rightarrow> tls_error + 'sk"
  sk_public_key :: "'sk \<Rightarrow> bytes option"
  verify_tls13_raw_key :: "bytes \<Rightarrow> bytes \<Rightarrow> 'ds \<Rightarrow> 'al \<Rightarrow> tls_error + unit"
  box_try_bytes :: "bytes \<Rightarrow> alloc_error + bytes"
  box_try_certs :: "bytes list \<Rightarrow> alloc_error + bytes list"

section \<open>TLS 1.3 cryptography\<close>

definition provider_tls13 :: "('su, 'gr, 'al) provider_ops \<Rightarrow> ('su, 'gr, 'al) provider" where
  "provider_tls13 P =
     (let provider = default_provider P
      in provider
           \<lparr>cipher_suites := filter (suite_is_tls13 P) (cipher_suites provider),
            kx_groups := sort_key (\<lambda>g. group_name P g = X25519MLKEM768) (kx_groups provider)\<rparr>)"

text \<open>
  \<open>Time::current_time\<close>, for a clock that reads \<open>now\<close> nanoseconds from the epoch, before it if negative.
\<close>

definition current_time :: "int \<Rightarrow> nat option" where
  "current_time now = (if now < 0 then None else Some (nat now))"

section \<open>Identities\<close>

definition SPKI :: bytes where
  "SPKI = [0x30, 0x2a, 0x30, 0x05, 0x06, 0x03, 0x2b, 0x65, 0x70, 0x03, 0x21, 0x00]"

definition PKCS8 :: bytes where
  "PKCS8 = [0x30, 0x2e, 0x02, 0x01, 0x00, 0x30, 0x05, 0x06, 0x03, 0x2b, 0x65, 0x70, 0x04, 0x22,
            0x04, 0x20]"

text \<open>A certified key: its certificates and its signing key.\<close>

record 'sk certified_key =
  ck_certs :: "bytes list"
  ck_key :: 'sk

record 'sk identity =
  id_cert_key :: "'sk certified_key"
  id_public_key :: bytes

definition strip_prefix :: "bytes \<Rightarrow> bytes \<Rightarrow> bytes option" where
  "strip_prefix p xs = (if take (length p) xs = p then Some (drop (length p) xs) else None)"

text \<open>\<open>bytes.try_into().ok()\<close> for \<open>[u8; 32]\<close>\<close>

definition array32 :: "bytes \<Rightarrow> bytes option" where
  "array32 xs = (if length xs = 32 then Some xs else None)"

text \<open>The loop that overwrites the encoded key, byte by byte.\<close>

function wipe_from :: "nat \<Rightarrow> bytes \<Rightarrow> bytes" where
  "wipe_from i xs = (if i < length xs then wipe_from (Suc i) (xs[i := 0]) else xs)"
  by pat_completeness auto

termination
  by (relation "measure (\<lambda>(i, xs). length xs - i)") auto

declare wipe_from.simps [simp del]

text \<open>\<open>try_load\<close> returns its result, and here also what is left in the buffer of the encoding.\<close>

definition try_load ::
    "('sk, 'ds, 'al) key_ops \<Rightarrow> bytes \<Rightarrow> (error + 'sk \<times> bytes) \<times> bytes" where
  "try_load K seed =
     (let encoded = replicate (length PKCS8 + 32) 0;
          encoded = splice 0 PKCS8 encoded;
          encoded = splice (length PKCS8) seed encoded;
          result = any_eddsa_type K encoded;
          encoded = wipe_from 0 encoded
      in (case result of
            Inl e \<Rightarrow> Inl (error_from_tls e)
          | Inr key \<Rightarrow>
              (case sk_public_key K key of
                 None \<Rightarrow> Inl (error_from_tls InconsistentKeysUnknown)
               | Some spki \<Rightarrow>
                   (case Option.bind (strip_prefix SPKI spki) array32 of
                      None \<Rightarrow> Inl (error_from_tls BadEncoding)
                    | Some public \<Rightarrow> Inr (key, public))),
          encoded))"

definition from_seed :: "('sk, 'ds, 'al) key_ops \<Rightarrow> bytes \<Rightarrow> error + 'sk identity" where
  "from_seed K seed =
     (case fst (try_load K seed) of
        Inl e \<Rightarrow> Inl e
      | Inr (key, public) \<Rightarrow>
          (case box_try_bytes K (replicate (length SPKI + 32) 0) of
             Inl e \<Rightarrow> Inl (error_from_alloc e)
           | Inr cert \<Rightarrow>
               let cert = splice 0 SPKI cert; cert = splice (length SPKI) public cert
               in case box_try_certs K [cert] of
                    Inl e \<Rightarrow> Inl (error_from_alloc e)
                  | Inr certs \<Rightarrow>
                      Inr \<lparr> id_cert_key = \<lparr> ck_certs = certs, ck_key = key \<rparr>,
                            id_public_key = public \<rparr>))"

definition try_public_key_from_seed :: "('sk, 'ds, 'al) key_ops \<Rightarrow> bytes \<Rightarrow> error + bytes" where
  "try_public_key_from_seed K seed =
     (case fst (try_load K seed) of Inl e \<Rightarrow> Inl e | Inr (_, public) \<Rightarrow> Inr public)"

definition identity_public_key :: "'sk identity \<Rightarrow> bytes" where
  "identity_public_key idt = id_public_key idt"

section \<open>The pinned peer\<close>

record 'al peer =
  peer_spki :: bytes
  peer_algorithms :: 'al

definition peer_new :: "bytes \<Rightarrow> 'al \<Rightarrow> 'al peer" where
  "peer_new public algs =
     (let spki = replicate 44 0;
          spki = splice 0 SPKI spki;
          spki = splice 12 public spki
      in \<lparr> peer_spki = spki, peer_algorithms = algs \<rparr>)"

definition peer_verify :: "'al peer \<Rightarrow> bytes \<Rightarrow> bytes list \<Rightarrow> tls_error + unit" where
  "peer_verify p leaf chain =
     (if chain \<noteq> [] \<or> leaf \<noteq> peer_spki p then Inl ApplicationVerificationFailure else Inr ())"

datatype signature_scheme = ED25519 | OtherScheme nat

text \<open>\<open>ServerCertVerifier\<close>; name, OCSP response and time are not looked at.\<close>

definition verify_server_cert ::
    "'al peer \<Rightarrow> bytes \<Rightarrow> bytes list \<Rightarrow> 'nm \<Rightarrow> bytes \<Rightarrow> nat \<Rightarrow> tls_error + unit" where
  "verify_server_cert p leaf chain name ocsp now =
     (case peer_verify p leaf chain of Inl e \<Rightarrow> Inl e | Inr _ \<Rightarrow> Inr ())"

definition server_verify_tls12 :: "'al peer \<Rightarrow> bytes \<Rightarrow> bytes \<Rightarrow> 'ds \<Rightarrow> tls_error + unit" where
  "server_verify_tls12 p message cert dss = Inl Tls12NotOffered"

definition server_verify_tls13 ::
    "('sk, 'ds, 'al) key_ops \<Rightarrow> 'al peer \<Rightarrow> bytes \<Rightarrow> bytes \<Rightarrow> 'ds \<Rightarrow> tls_error + unit" where
  "server_verify_tls13 K p message cert dss =
     verify_tls13_raw_key K message cert dss (peer_algorithms p)"

definition server_schemes :: "'al peer \<Rightarrow> signature_scheme list" where
  "server_schemes p = [ED25519]"

definition server_requires_raw :: "'al peer \<Rightarrow> bool" where
  "server_requires_raw p = True"

text \<open>\<open>ClientCertVerifier\<close>\<close>

definition root_hint_subjects :: "'al peer \<Rightarrow> bytes list" where
  "root_hint_subjects p = []"

definition verify_client_cert ::
    "'al peer \<Rightarrow> bytes \<Rightarrow> bytes list \<Rightarrow> nat \<Rightarrow> tls_error + unit" where
  "verify_client_cert p leaf chain now =
     (case peer_verify p leaf chain of Inl e \<Rightarrow> Inl e | Inr _ \<Rightarrow> Inr ())"

definition client_verify_tls12 :: "'al peer \<Rightarrow> bytes \<Rightarrow> bytes \<Rightarrow> 'ds \<Rightarrow> tls_error + unit" where
  "client_verify_tls12 p message cert dss = Inl Tls12NotOffered"

definition client_verify_tls13 ::
    "('sk, 'ds, 'al) key_ops \<Rightarrow> 'al peer \<Rightarrow> bytes \<Rightarrow> bytes \<Rightarrow> 'ds \<Rightarrow> tls_error + unit" where
  "client_verify_tls13 K p message cert dss =
     verify_tls13_raw_key K message cert dss (peer_algorithms p)"

definition client_schemes :: "'al peer \<Rightarrow> signature_scheme list" where
  "client_schemes p = [ED25519]"

definition client_requires_raw :: "'al peer \<Rightarrow> bool" where
  "client_requires_raw p = True"

section \<open>Configurations\<close>

text \<open>
  The configurations of \<open>rustls\<close>, as far as the code sets them; \<open>None\<close> stands for no resolver of a
  client certificate.
\<close>

datatype 'al client_verifier = NoClientAuth | PinnedClient "'al peer"

datatype session_storage = NoServerSessionStorage | OtherStorage nat

datatype compression_cache = CacheDisabled | CacheEnabled nat

datatype resumption = ResumptionDisabled | ResumptionEnabled nat

record ('al, 'sk) server_config =
  sc_verifier :: "'al client_verifier"
  sc_resolver :: "'sk certified_key"
  send_tls13_tickets :: nat
  sc_storage :: session_storage
  sc_cache :: compression_cache

record ('al, 'sk) client_config =
  cc_verifier :: "'al peer"
  cc_resolver :: "'sk certified_key option"
  cc_resumption :: resumption
  cc_cache :: compression_cache

text \<open>
  The builders of \<open>rustls\<close>: the protocol versions of a builder \<open>'sb\<close> or \<open>'cb\<close> over a provider, the
  provider it keeps, and the configuration it ends in. \<open>cache_unique\<close> is whether \<open>Arc::get_mut\<close> finds
  the cache unshared.
\<close>

datatype version = TLS13 | TLS12

record ('su, 'gr, 'al, 'sb, 'cb, 'sk) config_ops =
  server_versions :: "('su, 'gr, 'al) provider \<Rightarrow> version list \<Rightarrow> tls_error + 'sb"
  server_provider :: "'sb \<Rightarrow> ('su, 'gr, 'al) provider"
  server_config_new :: "'sb \<Rightarrow> 'al client_verifier \<Rightarrow> 'sk certified_key \<Rightarrow> ('al, 'sk) server_config"
  client_versions :: "('su, 'gr, 'al) provider \<Rightarrow> version list \<Rightarrow> tls_error + 'cb"
  client_provider :: "'cb \<Rightarrow> ('su, 'gr, 'al) provider"
  client_config_new ::
    "'cb \<Rightarrow> 'al peer \<Rightarrow> 'sk certified_key option \<Rightarrow> ('al, 'sk) client_config"
  cache_unique :: "compression_cache \<Rightarrow> bool"

definition server_try_tls13 ::
    "('su, 'gr, 'al) provider_ops \<Rightarrow> ('su, 'gr, 'al, 'sb, 'cb, 'sk) config_ops \<Rightarrow> error + 'sb" where
  "server_try_tls13 P C =
     (case server_versions C (provider_tls13 P) [TLS13] of
        Inl e \<Rightarrow> Inl (error_from_tls e) | Inr b \<Rightarrow> Inr b)"

definition client_try_tls13 ::
    "('su, 'gr, 'al) provider_ops \<Rightarrow> ('su, 'gr, 'al, 'sb, 'cb, 'sk) config_ops \<Rightarrow> error + 'cb" where
  "client_try_tls13 P C =
     (case client_versions C (provider_tls13 P) [TLS13] of
        Inl e \<Rightarrow> Inl (error_from_tls e) | Inr b \<Rightarrow> Inr b)"

definition disable_cache ::
    "('su, 'gr, 'al, 'sb, 'cb, 'sk) config_ops \<Rightarrow> compression_cache \<Rightarrow> compression_cache" where
  "disable_cache C cache = (if cache_unique C cache then CacheDisabled else cache)"

definition server_with ::
    "('su, 'gr, 'al) provider_ops \<Rightarrow> ('su, 'gr, 'al, 'sb, 'cb, 'sk) config_ops \<Rightarrow> 'sk identity \<Rightarrow>
     bytes option \<Rightarrow> error + ('al, 'sk) server_config" where
  "server_with P C idt pin =
     (case server_try_tls13 P C of
        Inl e \<Rightarrow> Inl e
      | Inr b \<Rightarrow>
          let verifier =
                (case pin of
                   Some key \<Rightarrow> PinnedClient (peer_new key (signature_algorithms (server_provider C b)))
                 | None \<Rightarrow> NoClientAuth);
              config = server_config_new C b verifier (id_cert_key idt);
              config = config\<lparr>send_tls13_tickets := 0\<rparr>;
              config = config\<lparr>sc_storage := NoServerSessionStorage\<rparr>
          in Inr (config\<lparr>sc_cache := disable_cache C (sc_cache config)\<rparr>))"

definition identity_server ::
    "('su, 'gr, 'al) provider_ops \<Rightarrow> ('su, 'gr, 'al, 'sb, 'cb, 'sk) config_ops \<Rightarrow> 'sk identity \<Rightarrow>
     error + ('al, 'sk) server_config" where
  "identity_server P C idt = server_with P C idt None"

definition identity_server_auth ::
    "('su, 'gr, 'al) provider_ops \<Rightarrow> ('su, 'gr, 'al, 'sb, 'cb, 'sk) config_ops \<Rightarrow> 'sk identity \<Rightarrow>
     bytes \<Rightarrow> error + ('al, 'sk) server_config" where
  "identity_server_auth P C idt pin = server_with P C idt (Some pin)"

definition client_with ::
    "('su, 'gr, 'al) provider_ops \<Rightarrow> ('su, 'gr, 'al, 'sb, 'cb, 'sk) config_ops \<Rightarrow> bytes \<Rightarrow>
     'sk certified_key option \<Rightarrow> error + ('al, 'sk) client_config" where
  "client_with P C pin idt =
     (case client_try_tls13 P C of
        Inl e \<Rightarrow> Inl e
      | Inr b \<Rightarrow>
          let verifier = peer_new pin (signature_algorithms (client_provider C b));
              config = client_config_new C b verifier
                (case idt of Some key \<Rightarrow> Some key | None \<Rightarrow> None);
              config = config\<lparr>cc_resumption := ResumptionDisabled\<rparr>
          in Inr (config\<lparr>cc_cache := disable_cache C (cc_cache config)\<rparr>))"

definition identity_client ::
    "('su, 'gr, 'al) provider_ops \<Rightarrow> ('su, 'gr, 'al, 'sb, 'cb, 'sk) config_ops \<Rightarrow> bytes \<Rightarrow>
     error + ('al, 'sk) client_config" where
  "identity_client P C pin = client_with P C pin None"

definition identity_mutual ::
    "('su, 'gr, 'al) provider_ops \<Rightarrow> ('su, 'gr, 'al, 'sb, 'cb, 'sk) config_ops \<Rightarrow> 'sk identity \<Rightarrow>
     bytes \<Rightarrow> error + ('al, 'sk) client_config" where
  "identity_mutual P C idt pin = client_with P C pin (Some (id_cert_key idt))"

section \<open>Trust anchors\<close>

text \<open>\<open>try_webpki\<close> of \<open>src/roots/mod.rs\<close>, over the bundled anchors and \<open>o3\<close>'s fallible vector.\<close>

record trust_anchor =
  ta_subject :: bytes
  ta_spki :: bytes
  ta_constraints :: "bytes option"

definition copy_anchor :: "trust_anchor \<Rightarrow> trust_anchor" where
  "copy_anchor a =
     \<lparr> ta_subject = ta_subject a, ta_spki = ta_spki a,
       ta_constraints = map_option (\<lambda>xs. xs) (ta_constraints a) \<rparr>"

definition try_webpki ::
    "(nat \<Rightarrow> alloc_error + trust_anchor list) \<Rightarrow> trust_anchor list \<Rightarrow>
     alloc_error + trust_anchor list" where
  "try_webpki vec_try_new anchors =
     (case vec_try_new (length anchors) of
        Inl e \<Rightarrow> Inl e
      | Inr roots \<Rightarrow> Inr (roots @ map copy_anchor anchors))"

end
