(* ===== verification/Identity_Correct.thy ===== *)
theory Identity_Correct
  imports Identity "HOL-Library.Multiset"
begin

text \<open>
  What pinning promises: an identity's certificate is accepted by exactly the peers pinned to its key,
  in both directions, the seed's encoding does not outlive its use, and the cryptography is that of
  TLS 1.3 in a stable order.
\<close>

section \<open>Encodings\<close>

lemma encoding_lengths [simp]: "length SPKI = 12" "length PKCS8 = 16"
  by (simp_all add: SPKI_def PKCS8_def)

text \<open>Two fields written one behind the other over a buffer of their size are their concatenation.\<close>

lemma splice_fields:
  "length xs = length p + length q \<Longrightarrow> splice (length p) q (splice 0 p xs) = p @ q"
  by (simp add: splice_def)

lemma wipe_from_eq: "wipe_from i xs = take i xs @ replicate (length xs - i) 0"
proof (induction i xs rule: wipe_from.induct)
  case (1 i xs)
  show ?case
  proof (cases "i < length xs")
    case True
    have "take (Suc i) (xs[i := 0]) = take i xs @ [0]"
      using True by (simp add: take_Suc_conv_app_nth)
    moreover have "length xs - i = Suc (length xs - Suc i)" using True by simp
    ultimately show ?thesis
      using True 1 by (subst wipe_from.simps) simp
  next
    case False
    then show ?thesis by (subst wipe_from.simps) simp
  qed
qed

lemma strip_prefix_Some: "strip_prefix p xs = Some ys \<longleftrightarrow> xs = p @ ys"
  by (auto simp: strip_prefix_def) (metis append_take_drop_id)+

text \<open>The bytes given to AWS-LC, the key it makes of them, and what stays behind.\<close>

lemma try_load_run:
  assumes "length seed = 32"
  shows "snd (try_load K seed) = replicate 48 0"
    and "fst (try_load K seed) = Inr (key, public) \<Longrightarrow>
      any_eddsa_type K (PKCS8 @ seed) = Inr key \<and> sk_public_key K key = Some (SPKI @ public) \<and>
      length public = 32"
proof -
  have enc: "splice (length PKCS8) seed (splice 0 PKCS8 (replicate (length PKCS8 + 32) 0)) =
      PKCS8 @ seed"
    using assms by (intro splice_fields) simp
  show "snd (try_load K seed) = replicate 48 0"
    unfolding try_load_def Let_def enc by (simp add: wipe_from_eq assms)
  show "any_eddsa_type K (PKCS8 @ seed) = Inr key \<and> sk_public_key K key = Some (SPKI @ public) \<and>
      length public = 32" if "fst (try_load K seed) = Inr (key, public)"
    using that unfolding try_load_def Let_def enc
    by (auto simp: bind_eq_Some_conv strip_prefix_Some array32_def split: sum.splits option.splits if_splits)
qed

definition box_laws :: "('sk, 'ds, 'al) key_ops \<Rightarrow> bool" where
  "box_laws K \<longleftrightarrow> (\<forall>xs ys. box_try_bytes K xs = Inr ys \<longrightarrow> ys = xs) \<and>
     (\<forall>xs ys. box_try_certs K xs = Inr ys \<longrightarrow> ys = xs)"

lemma from_seed_run:
  assumes "box_laws K" and "length seed = 32" and "from_seed K seed = Inr idt"
  shows "any_eddsa_type K (PKCS8 @ seed) = Inr (ck_key (id_cert_key idt)) \<and>
    ck_certs (id_cert_key idt) = [SPKI @ id_public_key idt] \<and> length (id_public_key idt) = 32"
proof -
  obtain key public where ld: "fst (try_load K seed) = Inr (key, public)"
    using assms(3) by (auto simp: from_seed_def split: sum.splits)
  note key = try_load_run(2) [OF assms(2) ld]
  then have cert: "splice 12 public (splice 0 SPKI (replicate 44 0)) = SPKI @ public"
    using splice_fields [of "replicate 44 0" SPKI public] by simp
  have b: "ys = xs" if "box_try_bytes K xs = Inr ys" for xs ys
    using assms(1) that by (simp add: box_laws_def)
  have c: "ys = xs" if "box_try_certs K xs = Inr ys" for xs ys
    using assms(1) that by (simp add: box_laws_def)
  from assms(3) ld have "idt = \<lparr> id_cert_key = \<lparr> ck_certs = [SPKI @ public], ck_key = key \<rparr>,
      id_public_key = public \<rparr>"
    by (auto simp: from_seed_def Let_def cert split: sum.splits dest!: b c)
  with key show ?thesis by simp
qed

section \<open>The contract of a pinned verifier\<close>

text \<open>
  What a handshake relies on, whichever side it verifies: one leaf is accepted and no chain, no
  signature of TLS 1.2, and raw keys with Ed25519 are asked for.
\<close>

locale pinned_verifier =
  fixes accepts :: "'al peer \<Rightarrow> bytes \<Rightarrow> bytes list \<Rightarrow> tls_error + unit"
    and tls12 :: "'al peer \<Rightarrow> bytes \<Rightarrow> bytes \<Rightarrow> 'ds \<Rightarrow> tls_error + unit"
    and schemes :: "'al peer \<Rightarrow> signature_scheme list"
    and raw :: "'al peer \<Rightarrow> bool"
  assumes accepts_iff: "accepts p leaf chain = Inr () \<longleftrightarrow> chain = [] \<and> leaf = peer_spki p"
    and refuses_with: "accepts p leaf chain \<noteq> Inr () \<Longrightarrow>
      accepts p leaf chain = Inl ApplicationVerificationFailure"
    and no_tls12: "is_err (tls12 p message cert dss)"
    and ed25519: "schemes p = [ED25519]" and raw: "raw p"
begin

lemma accepts_pin:
  assumes "length pin = 32" and "length public = 32"
  shows "accepts (peer_new pin algs) (SPKI @ public) chain =
    (if chain = [] \<and> public = pin then Inr () else Inl ApplicationVerificationFailure)"
proof -
  have "peer_spki (peer_new pin algs) = SPKI @ pin"
    using splice_fields [of "replicate 44 0" SPKI pin] assms by (simp add: peer_new_def Let_def)
  then show ?thesis
    using accepts_iff [of "peer_new pin algs" "SPKI @ public" chain]
      refuses_with [of "peer_new pin algs" "SPKI @ public" chain] by auto
qed

end

interpretation server_cert: pinned_verifier
    "\<lambda>p leaf chain. verify_server_cert p leaf chain name ocsp now" server_verify_tls12
    server_schemes server_requires_raw
  by unfold_locales (auto simp: verify_server_cert_def peer_verify_def server_verify_tls12_def
      server_schemes_def server_requires_raw_def split: if_splits)

interpretation client_cert: pinned_verifier
    "\<lambda>p leaf chain. verify_client_cert p leaf chain now" client_verify_tls12
    client_schemes client_requires_raw
  by unfold_locales (auto simp: verify_client_cert_def peer_verify_def client_verify_tls12_def
      client_schemes_def client_requires_raw_def split: if_splits)

section \<open>Configurations and orders\<close>

text \<open>What the builders of \<open>rustls\<close> keep of what they are given.\<close>

definition config_laws :: "('su, 'gr, 'al, 'sb, 'cb, 'sk) config_ops \<Rightarrow> bool" where
  "config_laws C \<longleftrightarrow>
     (\<forall>b v r. sc_verifier (server_config_new C b v r) = v \<and>
        sc_resolver (server_config_new C b v r) = r) \<and>
     (\<forall>b v r. cc_verifier (client_config_new C b v r) = v \<and>
        cc_resolver (client_config_new C b v r) = r)"

lemma server_with_run:
  assumes "config_laws C" and "server_with P C idt pin = Inr sc"
  shows "sc_resolver sc = id_cert_key idt \<and> send_tls13_tickets sc = 0 \<and>
    sc_storage sc = NoServerSessionStorage \<and>
    (case pin of None \<Rightarrow> sc_verifier sc = NoClientAuth
     | Some key \<Rightarrow> \<exists>algs. sc_verifier sc = PinnedClient (peer_new key algs))"
  using assms
  by (auto simp: server_with_def config_laws_def Let_def split: sum.splits option.splits)

lemma client_with_run:
  assumes "config_laws C" and "client_with P C pin idt = Inr cc"
  shows "cc_resolver cc = idt \<and> cc_resumption cc = ResumptionDisabled \<and>
    (\<exists>algs. cc_verifier cc = peer_new pin algs)"
  using assms
  by (auto simp: client_with_def config_laws_def Let_def split: sum.splits option.splits)

lemma sort_key_bool: "sort_key P xs = filter (\<lambda>x. \<not> P x) xs @ filter P xs"
  for P :: "'a \<Rightarrow> bool"
proof -
  have "insort_key P x (filter (\<lambda>x. \<not> P x) ys @ filter P ys) =
      (if P x then filter (\<lambda>x. \<not> P x) ys @ x # filter P ys
       else x # filter (\<lambda>x. \<not> P x) ys @ filter P ys)" for x ys
  proof -
    have "insort_key P x (us @ vs) = (if P x then us @ x # vs else x # us @ vs)"
      if "\<forall>u\<in>set us. \<not> P u" "\<forall>v\<in>set vs. P v" for us vs
      using that by (induction us; cases vs) auto
    then show ?thesis by simp
  qed
  then show ?thesis by (induction xs) (simp_all)
qed

section \<open>Witnesses\<close>

text \<open>A signing key here is its encoding; its public key is the seed's bytes, all of them changed.\<close>

definition ref_keys :: "(bytes, unit, unit) key_ops" where
  "ref_keys = \<lparr> any_eddsa_type = (\<lambda>xs. if length xs = 48 then Inr xs else Inl BadEncoding),
     sk_public_key = (\<lambda>key. Some (SPKI @ map (\<lambda>b. b + 1) (drop 16 key))),
     verify_tls13_raw_key = (\<lambda>_ _ _ _. Inr ()),
     box_try_bytes = Inr, box_try_certs = Inr \<rparr>"

definition ref_providers :: "(nat, nat, unit) provider_ops" where
  "ref_providers = \<lparr> default_provider =
       \<lparr> cipher_suites = [0, 1, 2], kx_groups = [0, 1, 2], signature_algorithms = () \<rparr>,
     suite_is_tls13 = (\<lambda>n. n \<noteq> 1),
     group_name = (\<lambda>n. if n = 0 then X25519MLKEM768 else OtherGroup n) \<rparr>"

definition ref_configs :: "(nat, nat, unit, unit, unit, bytes) config_ops" where
  "ref_configs = \<lparr> server_versions = (\<lambda>_ _. Inr ()), server_provider = (\<lambda>_. provider_tls13 ref_providers),
     server_config_new = (\<lambda>_ v r. \<lparr> sc_verifier = v, sc_resolver = r, send_tls13_tickets = 2,
       sc_storage = OtherStorage 256, sc_cache = CacheEnabled 4 \<rparr>),
     client_versions = (\<lambda>_ _. Inr ()), client_provider = (\<lambda>_. provider_tls13 ref_providers),
     client_config_new = (\<lambda>_ v r. \<lparr> cc_verifier = v, cc_resolver = r,
       cc_resumption = ResumptionEnabled 256, cc_cache = CacheEnabled 4 \<rparr>),
     cache_unique = (\<lambda>_. True) \<rparr>"

definition ref_seed :: "byte \<Rightarrow> bytes" where
  "ref_seed b = replicate 32 b"

definition ref_identity :: "byte \<Rightarrow> bytes identity" where
  "ref_identity b = \<lparr> id_cert_key = \<lparr> ck_certs = [SPKI @ replicate 32 (b + 1)],
     ck_key = PKCS8 @ replicate 32 b \<rparr>, id_public_key = replicate 32 (b + 1) \<rparr>"

definition ref_server :: "bytes \<Rightarrow> (unit, bytes) server_config" where
  "ref_server key = \<lparr> sc_verifier = PinnedClient (peer_new key ()), sc_resolver = id_cert_key (ref_identity 1),
     send_tls13_tickets = 0, sc_storage = NoServerSessionStorage, sc_cache = CacheDisabled \<rparr>"

definition ref_client :: "bytes \<Rightarrow> (unit, bytes) client_config" where
  "ref_client key = \<lparr> cc_verifier = peer_new key (), cc_resolver = Some (id_cert_key (ref_identity 7)),
     cc_resumption = ResumptionDisabled, cc_cache = CacheDisabled \<rparr>"

lemma ref_box_laws: "box_laws ref_keys"
  by (simp add: box_laws_def ref_keys_def)

lemma ref_config_laws: "config_laws ref_configs"
  by (simp add: config_laws_def ref_configs_def)

lemma ref_seed_length [simp]: "length (ref_seed b) = 32"
  by (simp add: ref_seed_def)

lemma ref_loads: "from_seed ref_keys (ref_seed 1) = Inr (ref_identity 1)"
  "from_seed ref_keys (ref_seed 7) = Inr (ref_identity 7)"
  by code_simp+

lemma ref_configured:
  "identity_server_auth ref_providers ref_configs (ref_identity 1)
     (identity_public_key (ref_identity 7)) = Inr (ref_server (identity_public_key (ref_identity 7)))"
  "identity_mutual ref_providers ref_configs (ref_identity 7) (ref_seed 2) = Inr (ref_client (ref_seed 2))"
  by (simp_all add: identity_server_auth_def server_with_def server_try_tls13_def identity_mutual_def
      client_with_def client_try_tls13_def Let_def ref_configs_def ref_server_def ref_client_def
      disable_cache_def)

section \<open>Properties\<close>

text \<open>
  C30. An identity round-trips through its certificate: the key is the one AWS-LC makes of the seed's
  PKCS#8 encoding, the certificate is its SPKI alone, the public key is the one derived without a
  certificate, and a peer pinned to a key accepts that certificate, as a server's and as a client's,
  exactly where the keys are equal and no chain comes with it.
\<close>

theorem identity_pinned:
  assumes "box_laws K" and "length seed = 32" and "from_seed K seed = Inr idt" and "length pin = 32"
  shows "any_eddsa_type K (PKCS8 @ seed) = Inr (ck_key (id_cert_key idt)) \<and>
    try_public_key_from_seed K seed = Inr (identity_public_key idt) \<and>
    (\<exists>leaf. ck_certs (id_cert_key idt) = [leaf] \<and>
      verify_server_cert (peer_new pin algs) leaf chain name ocsp now =
        (if chain = [] \<and> identity_public_key idt = pin then Inr ()
         else Inl ApplicationVerificationFailure) \<and>
      verify_client_cert (peer_new pin algs) leaf chain now =
        (if chain = [] \<and> identity_public_key idt = pin then Inr ()
         else Inl ApplicationVerificationFailure))"
proof -
  note run = from_seed_run [OF assms(1-3)]
  have "try_public_key_from_seed K seed = Inr (id_public_key idt)"
    using assms(3)
    by (auto simp: from_seed_def try_public_key_from_seed_def Let_def split: sum.splits)
  then show ?thesis
    using run assms(4)
    by (simp add: identity_public_key_def server_cert.accepts_pin client_cert.accepts_pin)
qed

lemma identity_pinned_witness:
  "any_eddsa_type ref_keys (PKCS8 @ ref_seed 1) = Inr (ck_key (id_cert_key (ref_identity 1))) \<and>
   try_public_key_from_seed ref_keys (ref_seed 1) = Inr (identity_public_key (ref_identity 1)) \<and>
   (\<exists>leaf. ck_certs (id_cert_key (ref_identity 1)) = [leaf] \<and>
      verify_server_cert (peer_new (ref_seed 2) ()) leaf [] () [] 0 =
        (if [] = ([] :: bytes list) \<and> identity_public_key (ref_identity 1) = ref_seed 2 then Inr ()
         else Inl ApplicationVerificationFailure) \<and>
      verify_client_cert (peer_new (ref_seed 2) ()) leaf [] 0 =
        (if [] = ([] :: bytes list) \<and> identity_public_key (ref_identity 1) = ref_seed 2 then Inr ()
         else Inl ApplicationVerificationFailure))"
  by (rule identity_pinned [OF ref_box_laws ref_seed_length ref_loads(1) ref_seed_length])

text \<open>
  C31. The seed does not outlive its use: the loop over the encoding ends, and whether the key was
  loaded or not, every byte of the buffer it was written to is zero afterwards.
\<close>

theorem seed_wiped:
  assumes "length seed = 32"
  shows "snd (try_load K seed) = replicate 48 0"
  by (rule try_load_run(1) [OF assms])

lemma seed_wiped_witness: "snd (try_load ref_keys (ref_seed 7)) = replicate 48 0"
  by (rule seed_wiped [OF ref_seed_length])




end
