(* ===== verification/Spec2Isabelle.thy ===== *)
theory Spec2Isabelle
  imports Failures Identity_Correct
begin

text \<open>
  A verification library of \<open>dope-tls\<close>, the crate that runs TLS 1.3 over the TCP streams of the \<open>dope\<close>
  runtime. Records are sealed and opened by \<open>rustls\<close>, buffers come from the pools of \<open>o3\<close>, and the
  runtime's driver calls the crate. What is the crate's own is modelled and proved here: how bytes
  move between an application, the native connection, pooled buffers and the transport; who holds
  which slot; when a connection opens, waits, closes or fails.

  The program.

  The parts, under \<open>src/\<close>, and how they work together:

  \<^item> A worker binds an endpoint's storage once (\<open>tls/endpoint/mod.rs\<close>) from a layout
    (\<open>tls/endpoint/layout.rs\<close>): a store of session leases, a receive pool, a send pool and a queue of
    waiters. It opens connections for one of two roles (\<open>tls/roles\<close>, \<open>tls/client.rs\<close>).
  \<^item> A \<open>Connection\<close> (\<open>tls/mod.rs\<close>) is the native connection, three sticky flags, and its session lease.
    Its send owner \<open>SendState\<close> holds at most one cursor of the send pool, and only while the cursor has
    ciphertext in it.
  \<^item> The send side (\<open>tls/senders.rs\<close>, called through \<open>tls/protocol.rs\<close>) seals the plaintext of a plan,
    drains queued ciphertext into the cursor through an \<open>io::Write\<close> sink (\<open>state/mod.rs\<close>), refills it
    when the transport has sent, and flushes, drains or closes a connection.
  \<^item> The receive side admits a receive (\<open>tls/receive/policy.rs\<close>): it takes a receive slot and, during a
    handshake, the send cursor, or waits in one of two lanes (\<open>tls/receive/waiters.rs\<close>). It then
    decrypts an input in place (\<open>state/direct\<close>), staging at most one record in the slot
    (\<open>state/staged.rs\<close>, \<open>state/buffers.rs\<close>), and hands the plaintext out as a batch
    (\<open>tls/receive/raw.rs\<close>) or as a retained stream (\<open>tls/receive/stream.rs\<close>). Completion gives the loans
    back and wakes those who wait.
  \<^item> Configurations (\<open>config\<close>, \<open>roots\<close>) select the cryptography of TLS 1.3 and pin peers to raw public
    keys.

  How the model reads.

  \<^item> A struct is a \<open>record\<close>, an enum a \<open>datatype\<close>, a method a definition with the source's name. Mutable
    borrows are explicit state passing: a handler of the send side maps a \<open>tx\<close> (connection, send owner,
    send pool) to a new one, a receive a \<open>transaction\<close> to the runtime. A value that Rust drops goes back
    to its pool in the definition that drops it.
  \<^item> Every error is a value: a sum with the error on the left, or the \<open>Terminal\<close> constructor of what is
    handed to the driver. What waiters are told is a list of events, in order.
  \<^item> The loops that end only through what the libraries answer are partial functions, and \<open>None\<close> is a
    run that does not return: \<open>drain_loop\<close>, \<open>encrypt_loop\<close>, \<open>encrypt_many_loop\<close>, \<open>exhaust_part\<close>, \<open>copy_plain\<close>
    and \<open>owned_loop\<close>. No fuel is used. Each property of them says that they return; C36 says it of
    every call in every state a worker reaches. \<open>collect\<close> recurses over the length of the array of slices,
    which the code has as a constant of the call.
  \<^item> \<open>usize\<close> is 64 bits wide and \<open>u32\<close> 32, and the arithmetic of \<open>Layout\<close> wraps as a release build's;
    C24 and C25 show that none does. Lengths of slices are natural numbers.
  \<^item> Code outside \<open>src/\<close> is a parameter: a record of functions (\<open>Interfaces\<close>, and beside their users the
    ones of configurations, layouts, roles and sessions). Documented behaviour the crate relies on
    is a predicate over such a record, \<open>cursor_laws\<close>, \<open>pool_laws\<close>, \<open>rustls_out_laws\<close>, \<open>rustls_wire_laws\<close>,
    \<open>rustls_writer_laws\<close>, \<open>rustls_in_laws\<close>, \<open>rustls_duplex_laws\<close>, \<open>rustls_split_laws\<close>, \<open>rustls_record_laws\<close>,
    \<open>slot_laws\<close>, \<open>span_laws\<close>, \<open>progress_laws\<close>, \<open>lane_laws\<close>, \<open>stream_laws\<close>, \<open>session_laws\<close>, \<open>lease_laws\<close>,
    \<open>layout_laws\<close>, \<open>role_laws\<close>, and a hypothesis of what needs it. The laws speak of hidden state
    through a view (\<open>rustls_view\<close>: all ciphertext \<open>made\<close>, the part \<open>pend\<close> still queued, the plaintext
    \<open>sent\<close> and \<open>got\<close>). \<open>Reference\<close> has one instance on byte lists that keeps them all; the witnesses
    evaluate on it.

  Theories, in the order of the code.

  \<^item> \<open>Prelude\<close>, \<open>Errors\<close> (\<open>error.rs\<close>, \<open>staging.rs\<close>), \<open>Interfaces\<close>, \<open>Reference\<close>: vocabulary, constants, library
    parameters with their laws, the reference instance.
  \<^item> \<open>Drain\<close> (\<open>state/mod.rs\<close>), \<open>Send_Store\<close> and \<open>Connection\<close> (\<open>tls/mod.rs\<close>), \<open>Senders\<close> (\<open>tls/senders.rs\<close>):
    definitions of the send side. \<open>Sealing\<close> proves both sealing loops from one contract, the locale
    \<open>sealing\<close>; \<open>Send_Correct\<close> has the promise of each handler (C2 to C8), over the bytes \<open>owed\<close> to the
    transport. The locale \<open>send_owner\<close> is the contract of the send owner, \<open>latch\<close> that of the flags.
  \<^item> \<open>Buffers\<close>, \<open>Input\<close>, \<open>Source\<close>, \<open>Stream\<close>, \<open>Ingress\<close>, \<open>Waiters\<close>, \<open>Policy\<close>, \<open>Protocol\<close>: definitions of the
    receive side, with the locale \<open>consume\<close> for \<open>o3\<close>'s \<open>Consume\<close> trait (interpreted on heads, on the
    current head and on the stream), \<open>wait_queue\<close> for a lane, \<open>completion\<close> for the two ways a
    transaction ends, \<open>reader\<close> for the two ways an input is read. \<open>Input_Correct\<close> (C9, C10), \<open>Stream_Correct\<close>
    (C11 to C14), \<open>Ingress\<close> (C15, C16), \<open>Waiters_Correct\<close> (C17 to C19), \<open>Policy_Correct\<close> and \<open>Receive_Correct\<close>
    (C20 to C23) prove them, on every branch.
  \<^item> \<open>Layout\<close> (C24 to C26), \<open>Roles\<close> with the locale \<open>protocol\<close>, \<open>Endpoint\<close> and \<open>Endpoint_Correct\<close> (C27 to C29).
  \<^item> \<open>Identity\<close> (\<open>config/mod.rs\<close>, \<open>config/raw.rs\<close>, \<open>roots/mod.rs\<close>) and \<open>Identity_Correct\<close> (C30 to C33).

  The composition of the parts is proved in layers:

  \<^item> \<open>Frames\<close>: a relation between connections that each primitive call keeps is kept by every handler,
    stated as the locales \<open>step_frame\<close>, \<open>wire_frame\<close>, \<open>closing_frame\<close>, \<open>send_frame\<close>, \<open>copy_frame\<close> and \<open>receive_frame\<close>
    and interpreted on the flags, the plaintext received, the plaintext sent, the ciphertext made.
    A call of the driver on a connection is the relation \<open>conn_call\<close>.
  \<^item> \<open>Traffic\<close>: a session is a connection with its send owner and a log of what went through it.
  \<^item> \<open>Worker\<close>: the step relation \<open>worker_step\<close> of a runtime with all its sessions and of the slots its
    consumers hold, with one lemma per step for the invariant \<open>worker_inv\<close>.
  \<^item> \<open>Worker_Correct\<close>: accounting (C34), order of bytes (C35), termination (C36), sticky flags (C37) in
    all reachable states. \<open>Ownership\<close>: each session lease has one owner (C38). \<open>Channels\<close>: a worker
    implements a list of abstract duplex channels, step by step (C39). \<open>Failures\<close>: no connection fails
    in silence (C40). C37, C38 and C40 hold whatever \<open>rustls\<close> and the pools answer.

  A receive is one step of a worker, from its admission to its completion, since its transaction
  borrows the runtime exclusively; slots kept by consumers come back in steps of their own, in any
  order. The callback of \<open>open\<close> keeps the connection or leaves it cached, the two results it can have.

  Not modelled, and why.

  \<^item> Module declarations, re-exports, sealed marker traits, associated types and \<open>where\<close> clauses of \<open>dope\<close>'s
    traits: no behaviour. The same holds for \<open>repr\<close> attributes, thread markers, and reference counts.
  \<^item> The assertions at compile time on the sizes of types: the layout of a type in memory is not part of
    the model. That the payload of the largest layout fits \<open>usize\<close> is C25.
  \<^item> The unsafe contracts \<open>hold::raw::Retain\<close> and \<open>pool\<close>'s pointers: addresses are not modelled, a retained
    view is the bytes it shows.
  \<^item> Cryptography, the record layer, the TLS handshake, and the runtime's polling: they belong to \<open>rustls\<close>
    and \<open>dope\<close>. The integration tests drive the crate through them.
\<close>

end
